(* ===== verification/Xv6_Prelude.thy ===== *)
theory Xv6_Prelude
  imports Main "HOL-Library.Word"
begin

text \<open>
  Shared vocabulary of the development: the machine integer types of the C code, the
  outcome of running a kernel path and the sequencing combinators the component
  theories are written with, a total-correctness calculus over them, and the generic
  facts on lists and words that several components use.

  A kernel path is a function of the kernel state. It can return, it can call
  \<open>panic\<close> (\<open>src/HW3/console.c\<close>, which never returns), it can give up the processor
  through \<open>swtch\<close> inside \<open>sched\<close> (\<open>src/HW3/proc.c\<close>), or it can spin in \<open>acquire\<close>
  (\<open>src/HW3/spinlock.c\<close>) on a lock another CPU holds; the four constructors of
  \<open>outcome\<close> are these four ways a path can stand.
\<close>

unbundle bit_operations_syntax

type_synonym u8 = "8 word"
type_synonym u16 = "16 word"
type_synonym u32 = "32 word"

named_theorems prog_simps \<open>equations of the sequencing combinators\<close>
named_theorems wp_simps \<open>weakest preconditions of the combinators and of the operations\<close>

section \<open>Outcomes and sequencing\<close>

text \<open>The lock objects of the kernel; a pipe's lock is named by the pipe's address.\<close>

datatype lockid =
    PtableLock | TicksLock | IcacheLock | BcacheLock | IdeLock | LogLock
  | FtableLock | KmemLock | ConsLock | PipeLock u32

datatype ('a, 's) outcome =
    Ret 'a 's
  | Panic string
  | Swtch 's
  | Spin lockid 's

type_synonym ('s, 'a) prog = "'s \<Rightarrow> ('a, 's) outcome"

definition kret :: "'a \<Rightarrow> ('s, 'a) prog" where
  "kret x s = Ret x s"

definition kbind :: "('s, 'a) prog \<Rightarrow> ('a \<Rightarrow> ('s, 'b) prog) \<Rightarrow> ('s, 'b) prog" where
  "kbind m f s =
     (case m s of Ret x t \<Rightarrow> f x t | Panic e \<Rightarrow> Panic e | Swtch t \<Rightarrow> Swtch t | Spin l t \<Rightarrow> Spin l t)"

definition kpanic :: "string \<Rightarrow> ('s, 'a) prog" where
  "kpanic e s = Panic e"

definition kswtch :: "('s, 'a) prog" where
  "kswtch s = Swtch s"

definition kget :: "('s \<Rightarrow> 'a) \<Rightarrow> ('s, 'a) prog" where
  "kget f s = Ret (f s) s"

definition kmod :: "('s \<Rightarrow> 's) \<Rightarrow> ('s, unit) prog" where
  "kmod f s = Ret () (f s)"

definition kwhen :: "bool \<Rightarrow> ('s, unit) prog \<Rightarrow> ('s, unit) prog" where
  "kwhen b m = (if b then m else kret ())"

text \<open>\<open>panic_if b e\<close> is the idiom \<open>if(b) panic(e);\<close> over the current state.\<close>

definition panic_if :: "('s \<Rightarrow> bool) \<Rightarrow> string \<Rightarrow> ('s, unit) prog" where
  "panic_if b e s = (if b s then Panic e else Ret () s)"

primrec kseq :: "('s, unit) prog list \<Rightarrow> ('s, unit) prog" where
  "kseq [] = kret ()"
| "kseq (m # ms) = kbind m (\<lambda>_. kseq ms)"

primrec kfor :: "'b list \<Rightarrow> ('b \<Rightarrow> ('s, unit) prog) \<Rightarrow> ('s, unit) prog" where
  "kfor [] f = kret ()"
| "kfor (x # xs) f = kbind (f x) (\<lambda>_. kfor xs f)"

lemma kret_apply [simp, prog_simps]: "kret x s = Ret x s"
  by (simp add: kret_def)

lemma kpanic_apply [simp, prog_simps]: "kpanic e s = Panic e"
  by (simp add: kpanic_def)

lemma kswtch_apply [simp, prog_simps]: "kswtch s = Swtch s"
  by (simp add: kswtch_def)

lemma kget_apply [simp, prog_simps]: "kget f s = Ret (f s) s"
  by (simp add: kget_def)

lemma kmod_apply [simp, prog_simps]: "kmod f s = Ret () (f s)"
  by (simp add: kmod_def)

lemma panic_if_apply [simp, prog_simps]:
  "panic_if b e s = (if b s then Panic e else Ret () s)"
  by (simp add: panic_if_def)

lemma kwhen_apply [simp, prog_simps]:
  "kwhen b m s = (if b then m s else Ret () s)"
  by (simp add: kwhen_def)

lemma kbind_Ret [simp]: "m s = Ret x t \<Longrightarrow> kbind m f s = f x t"
  by (simp add: kbind_def)

lemma kbind_Panic: "m s = Panic e \<Longrightarrow> kbind m f s = Panic e"
  by (simp add: kbind_def)

lemma kbind_Swtch: "m s = Swtch t \<Longrightarrow> kbind m f s = Swtch t"
  by (simp add: kbind_def)

lemma kbind_Spin: "m s = Spin l t \<Longrightarrow> kbind m f s = Spin l t"
  by (simp add: kbind_def)

lemma kbind_apply [prog_simps]:
  "kbind m f s =
     (case m s of Ret x t \<Rightarrow> f x t | Panic e \<Rightarrow> Panic e | Swtch t \<Rightarrow> Swtch t | Spin l t \<Rightarrow> Spin l t)"
  by (simp add: kbind_def)

lemma kbind_eq_Ret:
  "kbind m f s = Ret y u \<longleftrightarrow> (\<exists>x t. m s = Ret x t \<and> f x t = Ret y u)"
  by (cases "m s") (auto simp: kbind_def)

lemma kbind_assoc: "kbind (kbind m f) g = kbind m (\<lambda>x. kbind (f x) g)"
  by (rule ext) (simp add: kbind_def split: outcome.splits)

lemma kseq_apply [simp]: "kseq (m # ms) s = kbind m (\<lambda>_. kseq ms) s" "kseq [] s = Ret () s"
  by simp_all

lemma kseq_append: "kseq (ms @ ns) = kbind (kseq ms) (\<lambda>_. kseq ns)"
proof (induction ms)
  case Nil
  show ?case by (rule ext) simp
next
  case (Cons m ms)
  then show ?case by (simp add: kbind_assoc)
qed

section \<open>Total correctness\<close>

text \<open>\<open>wp m Q s\<close>: run from \<open>s\<close>, the path \<open>m\<close> returns, and its result satisfies \<open>Q\<close>.\<close>

definition wp :: "('s, 'a) prog \<Rightarrow> ('a \<Rightarrow> 's \<Rightarrow> bool) \<Rightarrow> 's \<Rightarrow> bool" where
  "wp m Q s \<longleftrightarrow> (\<exists>x t. m s = Ret x t \<and> Q x t)"

lemma wp_ret [wp_simps]: "wp (kret x) Q s = Q x s"
  by (simp add: wp_def)

lemma wp_bind [wp_simps]: "wp (kbind m f) Q s = wp m (\<lambda>x. wp (f x) Q) s"
  by (auto simp: wp_def kbind_eq_Ret)

lemma wp_get [wp_simps]: "wp (kget f) Q s = Q (f s) s"
  by (simp add: wp_def)

lemma wp_mod [wp_simps]: "wp (kmod f) Q s = Q () (f s)"
  by (simp add: wp_def)

lemma wp_panic [wp_simps]: "wp (kpanic e) Q s = False"
  by (simp add: wp_def)

lemma wp_panic_if [wp_simps]: "wp (panic_if b e) Q s = (\<not> b s \<and> Q () s)"
  by (simp add: wp_def)

lemma wp_when [wp_simps]: "wp (kwhen b m) Q s = (if b then wp m Q s else Q () s)"
  by (simp add: wp_def)

lemma wp_if [wp_simps]: "wp (if b then m else n) Q s = (if b then wp m Q s else wp n Q s)"
  by simp

lemma wp_seq [wp_simps]:
  "wp (kseq []) Q s = Q () s"
  "wp (kseq (m # ms)) Q s = wp m (\<lambda>_. wp (kseq ms) Q) s"
  by (auto simp: wp_def kbind_eq_Ret)

section \<open>Frames\<close>

text \<open>
  \<open>keeps g m\<close>: whichever way \<open>m\<close> ends, other than in a panic, \<open>g\<close> of the state it leaves
  is \<open>g\<close> of the state it started in. The rules compose over the combinators.
\<close>

fun out_state :: "('a, 's) outcome \<Rightarrow> 's option" where
  "out_state (Ret x t) = Some t"
| "out_state (Panic e) = None"
| "out_state (Swtch t) = Some t"
| "out_state (Spin l t) = Some t"

definition keeps :: "('s \<Rightarrow> 'b) \<Rightarrow> ('s, 'a) prog \<Rightarrow> bool" where
  "keeps g m \<longleftrightarrow> (\<forall>s t. out_state (m s) = Some t \<longrightarrow> g t = g s)"

lemma out_bindE:
  assumes "out_state (kbind m f s) = Some t"
  obtains (stop) "out_state (m s) = Some t" | (go) x u where "m s = Ret x u" "out_state (f x u) = Some t"
  using assms by (cases "m s") (auto simp: kbind_def)

named_theorems keeps_intros \<open>what a path leaves unchanged\<close>

lemma keepsD: "keeps g m \<Longrightarrow> out_state (m s) = Some t \<Longrightarrow> g t = g s"
  by (simp add: keeps_def)

lemma keeps_Ret: "keeps g m \<Longrightarrow> m s = Ret x t \<Longrightarrow> g t = g s"
  by (simp add: keeps_def)

lemma keeps_Swtch: "keeps g m \<Longrightarrow> m s = Swtch t \<Longrightarrow> g t = g s"
  by (simp add: keeps_def)

lemma keeps_bind [keeps_intros]: "keeps g m \<Longrightarrow> (\<And>x. keeps g (f x)) \<Longrightarrow> keeps g (kbind m f)"
  unfolding keeps_def
proof (intro allI impI)
  fix s t
  assume m: "\<forall>s t. out_state (m s) = Some t \<longrightarrow> g t = g s"
    and f: "\<And>x. \<forall>s t. out_state (f x s) = Some t \<longrightarrow> g t = g s"
    and out: "out_state (kbind m f s) = Some t"
  show "g t = g s"
  proof (cases "m s")
    case (Ret x u)
    with out have "out_state (f x u) = Some t" by (simp add: kbind_def)
    with f m Ret show ?thesis by (metis out_state.simps(1))
  qed (use out m in \<open>auto simp: kbind_def\<close>)
qed

lemma keeps_basic [keeps_intros]:
  "keeps g (kret x)" "keeps g (kget h)" "keeps g (kpanic e)" "keeps g kswtch" "keeps g (panic_if b e)"
  by (auto simp: keeps_def split: if_splits)

lemma keeps_mod [keeps_intros]: "(\<And>s. g (f s) = g s) \<Longrightarrow> keeps g (kmod f)"
  by (simp add: keeps_def)

lemma keeps_when [keeps_intros]: "(b \<Longrightarrow> keeps g m) \<Longrightarrow> keeps g (kwhen b m)"
  by (simp add: keeps_def kwhen_def)

lemma keeps_if [keeps_intros]: "(b \<Longrightarrow> keeps g m) \<Longrightarrow> (\<not> b \<Longrightarrow> keeps g n) \<Longrightarrow> keeps g (if b then m else n)"
  by simp

lemma keeps_case_option [keeps_intros]:
  "keeps g m \<Longrightarrow> (\<And>x. keeps g (f x)) \<Longrightarrow> keeps g (case z of None \<Rightarrow> m | Some x \<Rightarrow> f x)"
  by (cases z) simp_all

lemma keeps_case_prod [keeps_intros]:
  "(\<And>x y. keeps g (f x y)) \<Longrightarrow> keeps g (case z of (x, y) \<Rightarrow> f x y)"
  by (cases z) simp

lemma keeps_seq [keeps_intros]: "keeps g (kseq [])" "keeps g m \<Longrightarrow> keeps g (kseq ms) \<Longrightarrow> keeps g (kseq (m # ms))"
  by (auto intro: keeps_intros)

lemma keeps_for [keeps_intros]: "(\<And>x. keeps g (f x)) \<Longrightarrow> keeps g (kfor xs f)"
  by (induction xs) (auto intro: keeps_intros)

lemma keeps_mono: "keeps g m \<Longrightarrow> (\<And>s t. g s = g t \<Longrightarrow> h s = h t) \<Longrightarrow> keeps h m"
  unfolding keeps_def by blast

section \<open>Searching a table\<close>

text \<open>The first index of a table whose entry satisfies a test, as the \<open>for\<close> loops find it.\<close>

primrec find_idx :: "('a \<Rightarrow> bool) \<Rightarrow> 'a list \<Rightarrow> nat option" where
  "find_idx P [] = None"
| "find_idx P (x # xs) = (if P x then Some 0 else map_option Suc (find_idx P xs))"

lemma find_idx_None: "find_idx P xs = None \<longleftrightarrow> (\<forall>x \<in> set xs. \<not> P x)"
  by (induction xs) auto

lemma find_idx_Some:
  "find_idx P xs = Some i \<longleftrightarrow> i < length xs \<and> P (xs ! i) \<and> (\<forall>j < i. \<not> P (xs ! j))"
proof (induction xs arbitrary: i)
  case Nil
  show ?case by simp
next
  case (Cons x xs)
  then show ?case
    by (cases i) (auto simp: less_Suc_eq_0_disj)
qed

lemma wp_mono: "wp m Q s \<Longrightarrow> (\<And>x t. Q x t \<Longrightarrow> R x t) \<Longrightarrow> wp m R s"
  by (auto simp: wp_def)

lemma wpI: "m s = Ret x t \<Longrightarrow> Q x t \<Longrightarrow> wp m Q s"
  by (auto simp: wp_def)

end
