(* ===== verification/Spinlock.thy ===== *)
theory Spinlock
  imports Xv6_Prelude
begin

text \<open>
  The spin locks of \<open>src/HW3/spinlock.c\<close> on a multiprocessor: per-CPU interrupt state
  (\<open>ncli\<close>, \<open>intena\<close>, the interrupt flag), the lock words, and the functions
  \<open>initlock\<close>, \<open>pushcli\<close>, \<open>popcli\<close>, \<open>holding\<close>, \<open>getcallerpcs\<close>. \<open>acquire\<close> and
  \<open>release\<close> are split at their atomic instructions, and \<open>lock_step\<close> interleaves them
  over any number of CPUs. The lemmas show mutual exclusion, that \<open>popcli\<close> never
  panics in \<open>release\<close>, that interrupts are off while a lock is held, and that the
  interleaving refines the abstract view of a lock as membership in the set of locks a
  CPU holds, which is how the other components use locks (\<open>Kcore\<close>).
\<close>

section \<open>State\<close>

text \<open>
  \<open>ncli\<close> is an \<open>int\<close> of 32 bits in the source and an unbounded integer here. A CPU that only
  runs \<open>acquire\<close> and \<open>release\<close> nests at most once per lock (\<open>ncli_bounded\<close> below), and a
  machine has far fewer than \<open>2^31 - 1\<close> locks, so the counter does not overflow.
\<close>

record cpu =
  ncli :: int
  intena :: bool
  intr :: bool

record spinlock =
  lname :: string
  locked :: u32
  lcpu :: "nat option"
  pcs :: "u32 list"

record mach =
  cpus :: "nat \<Rightarrow> cpu"
  locks :: "lockid \<Rightarrow> spinlock"
  stk :: "u32 \<Rightarrow> u32"

definition KERNBASE :: u32 where
  "KERNBASE = 0x80000000"

definition set_cpu :: "nat \<Rightarrow> cpu \<Rightarrow> 'z mach_scheme \<Rightarrow> 'z mach_scheme" where
  "set_cpu c x m = m\<lparr>cpus := (cpus m)(c := x)\<rparr>"

definition set_lock :: "lockid \<Rightarrow> spinlock \<Rightarrow> 'z mach_scheme \<Rightarrow> 'z mach_scheme" where
  "set_lock lk x m = m\<lparr>locks := (locks m)(lk := x)\<rparr>"

section \<open>The functions of spinlock.c\<close>

definition initlock :: "lockid \<Rightarrow> string \<Rightarrow> 'z mach_scheme \<Rightarrow> 'z mach_scheme" where
  "initlock lk name m =
     set_lock lk ((locks m lk)\<lparr>lname := name, locked := 0, lcpu := None\<rparr>) m"

definition holding :: "nat \<Rightarrow> lockid \<Rightarrow> 'z mach_scheme \<Rightarrow> bool" where
  "holding c lk m \<longleftrightarrow> locked (locks m lk) \<noteq> 0 \<and> lcpu (locks m lk) = Some c"

definition pushcli :: "nat \<Rightarrow> 'z mach_scheme \<Rightarrow> 'z mach_scheme" where
  "pushcli c m =
     (let x = cpus m c; eflags = intr x
      in set_cpu c (x\<lparr>intr := False, ncli := ncli x + 1,
                      intena := (if ncli x = 0 then eflags else intena x)\<rparr>) m)"

definition popcli :: "nat \<Rightarrow> ('z mach_scheme, unit) prog" where
  "popcli c m =
     (let x = cpus m c
      in if intr x then Panic ''popcli - interruptible''
         else if ncli x - 1 < 0 then Panic ''popcli''
         else Ret () (set_cpu c (x\<lparr>ncli := ncli x - 1,
                        intr := (ncli x - 1 = 0 \<and> intena x)\<rparr>) m))"

text \<open>
  \<open>getcallerpcs\<close> follows the frame-pointer chain for at most ten frames and pads with
  zeros. The stack is read through \<open>stk\<close>; the loop variable counts up to ten.
\<close>

function callerpcs_loop :: "(u32 \<Rightarrow> u32) \<Rightarrow> nat \<Rightarrow> u32 \<Rightarrow> u32 list" where
  "callerpcs_loop st i ebp =
     (if i < 10 \<and> \<not> (ebp = 0 \<or> ebp < KERNBASE \<or> ebp = 0xffffffff)
      then st (ebp + 4) # callerpcs_loop st (Suc i) (st ebp)
      else replicate (10 - i) 0)"
  by pat_completeness auto
termination
  by (relation "measure (\<lambda>(st, i, ebp). 10 - i)") auto

declare callerpcs_loop.simps [simp del]

definition getcallerpcs :: "(u32 \<Rightarrow> u32) \<Rightarrow> u32 \<Rightarrow> u32 list" where
  "getcallerpcs st v = callerpcs_loop st 0 (v - 8)"

lemma length_callerpcs_loop: "i \<le> 10 \<Longrightarrow> length (callerpcs_loop st i ebp) = 10 - i"
proof (induction st i ebp rule: callerpcs_loop.induct)
  case (1 st i ebp)
  show ?case
  proof (cases "i < 10 \<and> \<not> (ebp = 0 \<or> ebp < KERNBASE \<or> ebp = 0xffffffff)")
    case True
    with "1.IH" have "Suc (length (callerpcs_loop st (Suc i) (st ebp))) = 10 - i" by auto
    with True show ?thesis by (simp add: callerpcs_loop.simps [of st i ebp])
  next
    case False
    then show ?thesis by (subst callerpcs_loop.simps) (simp only: if_False length_replicate)
  qed
qed

lemma length_getcallerpcs: "length (getcallerpcs st v) = 10"
  by (simp add: getcallerpcs_def length_callerpcs_loop)

text \<open>
  \<open>acquire\<close>: \<open>pushcli\<close> and the \<open>holding\<close> check, then the spin on \<open>xchg\<close>, then the
  owner record. \<open>v\<close> is the address of the argument, from which the call stack is
  recorded. \<open>release\<close>: the \<open>holding\<close> check and the cleared owner, the \<open>xchg\<close>,
  \<open>popcli\<close>.
\<close>

definition acquire_enter :: "nat \<Rightarrow> lockid \<Rightarrow> ('z mach_scheme, unit) prog" where
  "acquire_enter c lk m =
     (let m1 = pushcli c m in if holding c lk m1 then Panic ''acquire'' else Ret () m1)"

definition xchg :: "lockid \<Rightarrow> u32 \<Rightarrow> 'z mach_scheme \<Rightarrow> u32 \<times> 'z mach_scheme" where
  "xchg lk new m =
     (locked (locks m lk), set_lock lk ((locks m lk)\<lparr>locked := new\<rparr>) m)"

definition acquire_record :: "nat \<Rightarrow> lockid \<Rightarrow> u32 \<Rightarrow> 'z mach_scheme \<Rightarrow> 'z mach_scheme" where
  "acquire_record c lk v m =
     set_lock lk ((locks m lk)\<lparr>lcpu := Some c, pcs := getcallerpcs (stk m) v\<rparr>) m"

definition release_enter :: "nat \<Rightarrow> lockid \<Rightarrow> ('z mach_scheme, unit) prog" where
  "release_enter c lk m =
     (if \<not> holding c lk m then Panic ''release''
      else Ret () (set_lock lk ((locks m lk)\<lparr>pcs := (pcs (locks m lk))[0 := 0],
                                             lcpu := None\<rparr>) m))"

section \<open>Interleaving\<close>

text \<open>
  Where each CPU is inside \<open>acquire\<close> or \<open>release\<close>; \<open>own\<close> lists the locks the code on
  the CPU has acquired and not yet started to release.
\<close>

datatype lockpc =
    Running | Spinning lockid u32 | Acquired lockid u32 | Releasing lockid | Popping

record locksys = mach +
  lpc :: "nat \<Rightarrow> lockpc"
  own :: "nat \<Rightarrow> lockid list"

inductive lock_step :: "locksys \<Rightarrow> locksys \<Rightarrow> bool" where
  call_acquire:
    "lpc s c = Running \<Longrightarrow> acquire_enter c lk s = Ret () t \<Longrightarrow>
     lock_step s (t\<lparr>lpc := (lpc t)(c := Spinning lk v)\<rparr>)"
| spin_fail:
    "lpc s c = Spinning lk v \<Longrightarrow> xchg lk 1 s = (old, t) \<Longrightarrow> old \<noteq> 0 \<Longrightarrow> lock_step s t"
| spin_win:
    "lpc s c = Spinning lk v \<Longrightarrow> xchg lk 1 s = (old, t) \<Longrightarrow> old = 0 \<Longrightarrow>
     lock_step s (t\<lparr>lpc := (lpc t)(c := Acquired lk v)\<rparr>)"
| record_owner:
    "lpc s c = Acquired lk v \<Longrightarrow> t = acquire_record c lk v s \<Longrightarrow>
     lock_step s (t\<lparr>lpc := (lpc t)(c := Running), own := (own t)(c := lk # own t c)\<rparr>)"
| call_release:
    "lpc s c = Running \<Longrightarrow> release_enter c lk s = Ret () t \<Longrightarrow>
     lock_step s (t\<lparr>lpc := (lpc t)(c := Releasing lk), own := (own t)(c := remove1 lk (own t c))\<rparr>)"
| release_xchg:
    "lpc s c = Releasing lk \<Longrightarrow> xchg lk 0 s = (old, t) \<Longrightarrow>
     lock_step s (t\<lparr>lpc := (lpc t)(c := Popping)\<rparr>)"
| release_pop:
    "lpc s c = Popping \<Longrightarrow> popcli c s = Ret () t \<Longrightarrow>
     lock_step s (t\<lparr>lpc := (lpc t)(c := Running)\<rparr>)"

definition lock_init :: "locksys \<Rightarrow> bool" where
  "lock_init s \<longleftrightarrow>
     (\<forall>c. lpc s c = Running \<and> own s c = [] \<and> ncli (cpus s c) = 0) \<and>
     (\<forall>lk. locked (locks s lk) = 0 \<and> lcpu (locks s lk) = None)"

inductive lock_reachable :: "locksys \<Rightarrow> bool" where
  init: "lock_init s \<Longrightarrow> lock_reachable s"
| step: "lock_reachable s \<Longrightarrow> lock_step s t \<Longrightarrow> lock_reachable t"

section \<open>Invariant\<close>

text \<open>A CPU claims a lock from the winning \<open>xchg\<close> to the releasing one.\<close>

definition claims :: "locksys \<Rightarrow> nat \<Rightarrow> lockid \<Rightarrow> bool" where
  "claims s c lk \<longleftrightarrow>
     lk \<in> set (own s c) \<or> (\<exists>v. lpc s c = Acquired lk v) \<or> lpc s c = Releasing lk"

definition in_flight :: "lockpc \<Rightarrow> int" where
  "in_flight p = (if p = Running then 0 else 1)"

definition excl_inv :: "locksys \<Rightarrow> bool" where
  "excl_inv s \<longleftrightarrow>
     (\<forall>lk. locked (locks s lk) \<noteq> 0 \<longleftrightarrow> (\<exists>c. claims s c lk)) \<and>
     (\<forall>lk c d. claims s c lk \<longrightarrow> claims s d lk \<longrightarrow> c = d) \<and>
     (\<forall>lk c. lcpu (locks s lk) = Some c \<longleftrightarrow> lk \<in> set (own s c)) \<and>
     (\<forall>c. distinct (own s c)) \<and>
     (\<forall>c lk v. lpc s c = Acquired lk v \<longrightarrow> lk \<notin> set (own s c)) \<and>
     (\<forall>c lk. lpc s c = Releasing lk \<longrightarrow> lk \<notin> set (own s c))"

definition cli_inv :: "locksys \<Rightarrow> bool" where
  "cli_inv s \<longleftrightarrow>
     (\<forall>c. ncli (cpus s c) = int (length (own s c)) + in_flight (lpc s c) \<and>
          (0 < ncli (cpus s c) \<longrightarrow> \<not> intr (cpus s c)))"

lemma cli_invD:
  assumes "cli_inv s"
  shows "ncli (cpus s c) = int (length (own s c)) + in_flight (lpc s c)"
    and "0 < ncli (cpus s c) \<Longrightarrow> \<not> intr (cpus s c)"
  using assms by (auto simp: cli_inv_def)

text \<open>A step changes at most one CPU, so the invariant is checked there only.\<close>

lemma cli_inv_upd:
  assumes "cli_inv s"
    and "\<And>d. d \<noteq> c \<Longrightarrow> cpus t d = cpus s d \<and> own t d = own s d \<and> lpc t d = lpc s d"
    and "ncli (cpus t c) = int (length (own t c)) + in_flight (lpc t c)"
    and "0 < ncli (cpus t c) \<Longrightarrow> \<not> intr (cpus t c)"
  shows "cli_inv t"
  unfolding cli_inv_def
proof
  fix d
  show "ncli (cpus t d) = int (length (own t d)) + in_flight (lpc t d) \<and>
        (0 < ncli (cpus t d) \<longrightarrow> \<not> intr (cpus t d))"
    using assms cli_invD [OF assms(1), of d] by (cases "d = c") auto
qed

lemmas lock_defs = set_cpu_def set_lock_def pushcli_def popcli_def holding_def
  acquire_enter_def release_enter_def acquire_record_def xchg_def Let_def

lemma lock_step_excl: "lock_step s t \<Longrightarrow> excl_inv s \<Longrightarrow> excl_inv t"
proof (induction rule: lock_step.induct)
  case (call_acquire s c lk t v)
  let ?t = "t\<lparr>lpc := (lpc t)(c := Spinning lk v)\<rparr>"
  have *: "locks t = locks s" "own t = own s" "lpc t = lpc s"
    using call_acquire(2) by (auto simp: lock_defs split: if_splits)
  have "claims ?t d l = claims s d l" for d l
    using call_acquire(1) * by (auto simp: claims_def)
  with call_acquire(3) * show ?case by (simp add: excl_inv_def)
next
  case (spin_fail s c lk v old t)
  have *: "locks t = (locks s)(lk := (locks s lk)\<lparr>locked := 1\<rparr>)" "own t = own s" "lpc t = lpc s"
    "locked (locks s lk) \<noteq> 0"
    using spin_fail(2,3) by (auto simp: lock_defs)
  have "claims t d l = claims s d l" for d l
    using * by (simp add: claims_def)
  with spin_fail(4) * show ?case by (auto simp: excl_inv_def)
next
  case (spin_win s c lk v old t)
  let ?t = "t\<lparr>lpc := (lpc t)(c := Acquired lk v)\<rparr>"
  have *: "locks t = (locks s)(lk := (locks s lk)\<lparr>locked := 1\<rparr>)" "own t = own s" "lpc t = lpc s"
    "locked (locks s lk) = 0"
    using spin_win(2,3) by (auto simp: lock_defs)
  have "claims ?t d l \<longleftrightarrow> claims s d l \<or> d = c \<and> l = lk" for d l
    using spin_win(1) * by (auto simp: claims_def)
  moreover have "\<not> claims s d lk" for d
    using spin_win(4) *(4) by (auto simp: excl_inv_def)
  moreover then have "lk \<notin> set (own s d)" for d
    by (simp add: claims_def)
  ultimately show ?case
    using spin_win(1,4) * by (auto simp: excl_inv_def)
next
  case (record_owner s c lk v t)
  let ?t = "t\<lparr>lpc := (lpc t)(c := Running), own := (own t)(c := lk # own t c)\<rparr>"
  have *: "locks t = (locks s)(lk := (locks s lk)\<lparr>lcpu := Some c, pcs := getcallerpcs (stk s) v\<rparr>)"
    "own t = own s" "lpc t = lpc s"
    using record_owner(2) by (auto simp: lock_defs)
  have "claims ?t d l = claims s d l" for d l
    using record_owner(1) * by (auto simp: claims_def)
  moreover have "claims s c lk"
    using record_owner(1) by (simp add: claims_def)
  moreover then have "lk \<notin> set (own s d)" for d
    using record_owner(1,3) by (cases "d = c") (auto simp: excl_inv_def claims_def)
  ultimately show ?case
    using record_owner(1,3) * by (auto simp: excl_inv_def)
next
  case (call_release s c lk t)
  let ?t = "t\<lparr>lpc := (lpc t)(c := Releasing lk), own := (own t)(c := remove1 lk (own t c))\<rparr>"
  have *: "locks t = (locks s)(lk := (locks s lk)\<lparr>pcs := (pcs (locks s lk))[0 := 0], lcpu := None\<rparr>)"
    "own t = own s" "lpc t = lpc s" "lcpu (locks s lk) = Some c"
    using call_release(2) by (auto simp: lock_defs split: if_splits)
  have lcpu: "lcpu (locks s lk) = Some d \<longleftrightarrow> lk \<in> set (own s d)" for d
    using call_release(3) by (simp add: excl_inv_def)
  have mine: "lk \<in> set (own s d) \<longleftrightarrow> c = d" for d
    using lcpu [of d] *(4) by simp
  have dist: "distinct (own s c)"
    using call_release(3) by (simp add: excl_inv_def)
  have "claims ?t d l = claims s d l" for d l
    using call_release(1) * mine dist by (auto simp: claims_def)
  then show ?case
    using call_release(1,3) * mine dist by (auto simp: excl_inv_def)
next
  case (release_xchg s c lk old t)
  let ?t = "t\<lparr>lpc := (lpc t)(c := Popping)\<rparr>"
  have *: "locks t = (locks s)(lk := (locks s lk)\<lparr>locked := 0\<rparr>)" "own t = own s" "lpc t = lpc s"
    using release_xchg(2) by (auto simp: lock_defs)
  have mine: "claims s c lk" "lk \<notin> set (own s c)"
    using release_xchg(1,3) by (auto simp: claims_def excl_inv_def)
  have "claims ?t d l \<longleftrightarrow> claims s d l \<and> l \<noteq> lk" for d l
  proof (cases "d = c")
    case True
    with release_xchg(1) * mine show ?thesis by (auto simp: claims_def)
  next
    case False
    with mine release_xchg(3) have "\<not> claims s d lk" by (auto simp: excl_inv_def)
    with False * show ?thesis by (auto simp: claims_def)
  qed
  with release_xchg(1,3) * show ?case by (auto simp: excl_inv_def)
next
  case (release_pop s c t)
  let ?t = "t\<lparr>lpc := (lpc t)(c := Running)\<rparr>"
  have *: "locks t = locks s" "own t = own s" "lpc t = lpc s"
    using release_pop(2) by (auto simp: lock_defs split: if_splits)
  have "claims ?t d l = claims s d l" for d l
    using release_pop(1) * by (auto simp: claims_def)
  with release_pop(3) * show ?case by (simp add: excl_inv_def)
qed

lemma init_inv: "lock_init s \<Longrightarrow> excl_inv s \<and> cli_inv s"
  by (simp add: lock_init_def excl_inv_def cli_inv_def claims_def in_flight_def)

lemma lock_step_cli:
  "lock_step s t \<Longrightarrow> excl_inv s \<Longrightarrow> cli_inv s \<Longrightarrow> cli_inv t"
proof (induction rule: lock_step.induct)
  case (call_acquire s c lk t v)
  have t: "t = pushcli c s"
    using call_acquire(2) by (auto simp: acquire_enter_def Let_def split: if_splits)
  show ?case
    using cli_invD [OF call_acquire(4), of c] call_acquire(1)
    by (intro cli_inv_upd [OF call_acquire(4), of c])
       (simp_all add: t pushcli_def set_cpu_def in_flight_def Let_def)
next
  case (spin_fail s c lk v old t)
  then show ?case
    using cli_invD [OF spin_fail(5), of c]
    by (intro cli_inv_upd [OF spin_fail(5), of c]) (auto simp: xchg_def set_lock_def)
next
  case (spin_win s c lk v old t)
  then show ?case
    using cli_invD [OF spin_win(5), of c]
    by (intro cli_inv_upd [OF spin_win(5), of c]) (auto simp: xchg_def set_lock_def in_flight_def)
next
  case (record_owner s c lk v t)
  then show ?case
    using cli_invD [OF record_owner(4), of c]
    by (intro cli_inv_upd [OF record_owner(4), of c])
       (auto simp: acquire_record_def set_lock_def in_flight_def)
next
  case (call_release s c lk t)
  have t: "cpus t = cpus s" "own t = own s" "lpc t = lpc s" "holding c lk s"
    using call_release(2) by (auto simp: release_enter_def set_lock_def split: if_splits)
  then have "lk \<in> set (own s c)"
    using call_release(3) by (auto simp: excl_inv_def holding_def)
  then have "int (length (own s c)) = int (length (remove1 lk (own s c))) + 1"
    using Suc_pred [OF length_pos_if_in_set [of lk "own s c"]] by (simp add: length_remove1)
  then show ?case
    using cli_invD [OF call_release(4), of c] call_release(1) t
    by (intro cli_inv_upd [OF call_release(4), of c]) (simp_all add: in_flight_def)
next
  case (release_xchg s c lk old t)
  then show ?case
    using cli_invD [OF release_xchg(4), of c]
    by (intro cli_inv_upd [OF release_xchg(4), of c]) (auto simp: xchg_def set_lock_def in_flight_def)
next
  case (release_pop s c t)
  let ?x = "cpus s c"
  have t: "t = set_cpu c (?x\<lparr>ncli := ncli ?x - 1, intr := (ncli ?x - 1 = 0 \<and> intena ?x)\<rparr>) s"
    using release_pop(2) by (auto simp: popcli_def Let_def split: if_splits)
  show ?case
    using cli_invD [OF release_pop(4), of c] release_pop(1)
    by (intro cli_inv_upd [OF release_pop(4), of c]) (simp_all add: t set_cpu_def in_flight_def)
qed

lemma reachable_inv: "lock_reachable s \<Longrightarrow> excl_inv s \<and> cli_inv s"
proof (induction rule: lock_reachable.induct)
  case (init s)
  then show ?case by (rule init_inv)
next
  case (step s t)
  then show ?case by (blast intro: lock_step_excl lock_step_cli)
qed

lemma ncli_bounded:
  assumes "lock_reachable s" and "finite L" and "set (own s c) \<subseteq> L"
  shows "0 \<le> ncli (cpus s c) \<and> ncli (cpus s c) \<le> int (card L) + 1"
proof -
  have "distinct (own s c)" and n: "ncli (cpus s c) = int (length (own s c)) + in_flight (lpc s c)"
    using reachable_inv [OF assms(1)] by (auto simp: excl_inv_def cli_inv_def)
  then have "length (own s c) \<le> card L"
    using card_mono [OF assms(2,3)] distinct_card by metis
  with n show ?thesis by (simp add: in_flight_def)
qed

section \<open>The abstract view: the set of locks a CPU holds\<close>

definition held_by :: "locksys \<Rightarrow> nat \<Rightarrow> lockid set" where
  "held_by s c = set (own s c)"

inductive held_step :: "(nat \<Rightarrow> lockid set) \<Rightarrow> (nat \<Rightarrow> lockid set) \<Rightarrow> bool" where
  held_acquire: "(\<And>d. lk \<notin> h d) \<Longrightarrow> held_step h (h(c := insert lk (h c)))"
| held_release: "lk \<in> h c \<Longrightarrow> held_step h (h(c := h c - {lk}))"

lemma claims_excl: "excl_inv s \<Longrightarrow> claims s c lk \<Longrightarrow> claims s d lk \<Longrightarrow> c = d"
  by (auto simp: excl_inv_def)

lemma held_claims: "lk \<in> held_by s c \<Longrightarrow> claims s c lk"
  by (simp add: held_by_def claims_def)

lemma holding_iff_held: "excl_inv s \<Longrightarrow> holding c lk s \<longleftrightarrow> lk \<in> held_by s c"
  by (auto simp: excl_inv_def holding_def held_by_def claims_def)

lemma lock_step_refines:
  assumes "lock_step s t" and inv: "excl_inv s"
  shows "held_by t = held_by s \<or> held_step (held_by s) (held_by t)"
  using assms(1) inv
proof (induction rule: lock_step.induct)
  case (record_owner s c lk v t)
  let ?t = "t\<lparr>lpc := (lpc t)(c := Running), own := (own t)(c := lk # own t c)\<rparr>"
  have "claims s c lk" "lk \<notin> held_by s c"
    using record_owner(1,3) by (auto simp: claims_def excl_inv_def held_by_def)
  then have "lk \<notin> held_by s d" for d
    using claims_excl [OF record_owner(3)] held_claims by metis
  then have "held_step (held_by s) ((held_by s)(c := insert lk (held_by s c)))"
    by (rule held_acquire)
  moreover have "held_by ?t = (held_by s)(c := insert lk (held_by s c))"
    using record_owner(2) by (auto simp: held_by_def lock_defs fun_eq_iff)
  ultimately show ?case by (simp only: simp_thms)
next
  case (call_release s c lk t)
  let ?t = "t\<lparr>lpc := (lpc t)(c := Releasing lk), own := (own t)(c := remove1 lk (own t c))\<rparr>"
  have own: "own t = own s" "holding c lk s" "distinct (own s c)"
    using call_release(2,3) by (auto simp: lock_defs excl_inv_def split: if_splits)
  then have "lk \<in> held_by s c"
    using call_release(3) holding_iff_held by blast
  then have "held_step (held_by s) ((held_by s)(c := held_by s c - {lk}))"
    by (rule held_release)
  moreover have "held_by ?t = (held_by s)(c := held_by s c - {lk})"
    using own by (auto simp: held_by_def fun_eq_iff)
  ultimately show ?case by (simp only: simp_thms)
next
  case (call_acquire s c lk t v)
  then have "own t = own s" by (auto simp: lock_defs split: if_splits)
  then show ?case by (simp add: held_by_def fun_eq_iff)
next
  case (release_pop s c t)
  then have "own t = own s" by (auto simp: lock_defs split: if_splits)
  then show ?case by (simp add: held_by_def fun_eq_iff)
qed (auto simp: xchg_def set_lock_def held_by_def fun_eq_iff)

section \<open>Crossed locks\<close>

text \<open>Two CPUs that each hold the lock the other one spins on.\<close>

definition crossed :: "locksys \<Rightarrow> nat \<Rightarrow> lockid \<Rightarrow> nat \<Rightarrow> lockid \<Rightarrow> bool" where
  "crossed s a la b lb \<longleftrightarrow>
     la \<in> held_by s a \<and> (\<exists>v. lpc s a = Spinning lb v) \<and>
     lb \<in> held_by s b \<and> (\<exists>v. lpc s b = Spinning la v)"

lemma held_locked: "excl_inv s \<Longrightarrow> lk \<in> held_by s c \<Longrightarrow> locked (locks s lk) \<noteq> 0"
  using held_claims by (auto simp: excl_inv_def)

lemma crossed_step:
  assumes "lock_step s t" and "excl_inv s" and "crossed s a la b lb"
  shows "crossed t a la b lb"
  using assms(1)
proof cases
  case (spin_win c lk v old t')
  then have "locked (locks s lk) = 0" by (simp add: xchg_def)
  then have "lk \<noteq> la" "lk \<noteq> lb"
    using held_locked [OF assms(2)] assms(3) by (auto simp: crossed_def)
  with spin_win assms(3) show ?thesis
    by (auto simp: crossed_def xchg_def set_lock_def held_by_def)
qed (use assms(3) in \<open>auto simp: crossed_def held_by_def lock_defs split: if_splits\<close>)

section \<open>Runs that exist\<close>

definition idle_locks :: locksys where
  "idle_locks = \<lparr>cpus = (\<lambda>_. \<lparr>ncli = 0, intena = False, intr = True\<rparr>),
     locks = (\<lambda>_. \<lparr>lname = [], locked = 0, lcpu = None, pcs = replicate 10 0\<rparr>),
     stk = (\<lambda>_. 0), lpc = (\<lambda>_. Running), own = (\<lambda>_. [])\<rparr>"

lemma idle_reachable: "lock_reachable idle_locks"
  by (rule lock_reachable.init) (simp add: lock_init_def idle_locks_def)

lemma spin_reachable:
  assumes "lock_reachable s" and "lpc s c = Running" and "lk \<notin> held_by s c"
  shows "\<exists>t. lock_reachable t \<and> own t = own s \<and> lpc t = (lpc s)(c := Spinning lk v) \<and> locks t = locks s"
proof -
  have "\<not> holding c lk s"
    using assms(1,3) reachable_inv holding_iff_held by blast
  then have "acquire_enter c lk s = Ret () (pushcli c s)"
    by (simp add: acquire_enter_def holding_def pushcli_def set_cpu_def Let_def)
  from lock_step.call_acquire [OF assms(2) this, of v] assms(1)
  have "lock_reachable ((pushcli c s)\<lparr>lpc := (lpc (pushcli c s))(c := Spinning lk v)\<rparr>)"
    by (blast intro: lock_reachable.step)
  then show ?thesis
    by (intro exI conjI, assumption) (simp_all add: pushcli_def set_cpu_def Let_def)
qed

lemma acquire_reachable:
  assumes "lock_reachable s" and "lpc s c = Running" and "locked (locks s lk) = 0"
  shows "\<exists>t. lock_reachable t \<and> own t = (own s)(c := lk # own s c) \<and> lpc t = lpc s \<and>
     (\<forall>l. l \<noteq> lk \<longrightarrow> locks t l = locks s l)"
proof -
  have "lk \<notin> held_by s c"
    using assms(1,3) reachable_inv held_locked by blast
  from spin_reachable [OF assms(1,2) this, of 0] obtain r where r: "lock_reachable r"
    "own r = own s" "lpc r = (lpc s)(c := Spinning lk 0)" "locks r = locks s"
    by blast
  let ?x = "snd (xchg lk 1 r)"
  let ?w = "?x\<lparr>lpc := (lpc ?x)(c := Acquired lk 0)\<rparr>"
  have "lock_step r ?w"
    using r assms(3) by (intro lock_step.spin_win [where old = 0]) (simp_all add: xchg_def)
  then have w: "lock_reachable ?w" "lpc ?w c = Acquired lk 0"
    using r(1) by (auto intro: lock_reachable.step)
  let ?y = "acquire_record c lk 0 ?w"
  let ?t = "?y\<lparr>lpc := (lpc ?y)(c := Running), own := (own ?y)(c := lk # own ?y c)\<rparr>"
  have "lock_step ?w ?t"
    using w(2) by (rule lock_step.record_owner) simp
  then have "lock_reachable ?t"
    using w(1) by (blast intro: lock_reachable.step)
  moreover have "own ?t = (own s)(c := lk # own s c)" "lpc ?t = lpc s"
    "\<forall>l. l \<noteq> lk \<longrightarrow> locks ?t l = locks s l"
    using r assms(2) by (auto simp: acquire_record_def xchg_def set_lock_def fun_eq_iff)
  ultimately show ?thesis by blast
qed

lemma idle_step: "\<exists>t. lock_reachable t \<and> own t = (\<lambda>_. [])(0 := [TicksLock]) \<and> lpc t = (\<lambda>_. Running) \<and>
    (\<forall>l. l \<noteq> TicksLock \<longrightarrow> locked (locks t l) = 0)"
  using acquire_reachable [OF idle_reachable, of 0 TicksLock] by (auto simp: idle_locks_def)

lemma crossed_reachable: "\<exists>t. lock_reachable t \<and> crossed t 0 TicksLock 1 PtableLock"
proof -
  obtain r where r: "lock_reachable r" "own r = (\<lambda>_. [])(0 := [TicksLock])" "lpc r = (\<lambda>_. Running)"
    "\<forall>l. l \<noteq> TicksLock \<longrightarrow> locked (locks r l) = 0"
    using idle_step by blast
  then obtain u where u: "lock_reachable u" "own u = (own r)(1 := [PtableLock])" "lpc u = (\<lambda>_. Running)"
    using acquire_reachable [OF r(1), of 1 PtableLock] by auto
  obtain v where v: "lock_reachable v" "own v = own u" "lpc v = (lpc u)(0 := Spinning PtableLock 0)"
    using spin_reachable [OF u(1), of 0 PtableLock 0] u r by (auto simp: held_by_def)
  obtain w where "lock_reachable w" "own w = own v" "lpc w = (lpc v)(1 := Spinning TicksLock 0)"
    using spin_reachable [OF v(1), of 1 TicksLock 0] v u r by (auto simp: held_by_def)
  with v u r show ?thesis
    by (intro exI [of _ w]) (simp add: crossed_def held_by_def)
qed

section \<open>Properties\<close>

text \<open>C2. Mutual exclusion: in every state the CPUs can reach by any interleaving of their
  \<open>acquire\<close> and \<open>release\<close> instructions, at most one CPU is between the winning exchange
  and the releasing one on a lock; in particular at most one holds it.\<close>

theorem mutual_exclusion:
  assumes "lock_reachable s"
  shows "(claims s c lk \<longrightarrow> claims s d lk \<longrightarrow> c = d) \<and>
         (lk \<in> set (own s c) \<longrightarrow> lk \<in> set (own s d) \<longrightarrow> c = d)"
  unfolding held_by_def [symmetric]
  using reachable_inv [OF assms] claims_excl held_claims by blast

theorem mutual_exclusion_witness:
  "\<exists>s. lock_reachable s \<and> TicksLock \<in> set (own s 0) \<and> (\<forall>d. TicksLock \<in> set (own s d) \<longrightarrow> 0 = d)"
proof -
  obtain s where s: "lock_reachable s" "own s = (\<lambda>_. [])(0 := [TicksLock])"
    using idle_step by blast
  with mutual_exclusion [OF s(1), of 0 TicksLock] show ?thesis by auto
qed

text \<open>C13. Interrupts: in every reachable state a CPU that holds a lock runs with interrupts off,
  its depth counter is the number of locks it holds plus one while it is inside
  \<open>acquire\<close> or \<open>release\<close>, and the \<open>popcli\<close> at the end of \<open>release\<close> does not panic.\<close>

theorem interrupts_off_while_locked:
  assumes "lock_reachable s"
  shows "(own s c \<noteq> [] \<longrightarrow> \<not> intr (cpus s c)) \<and>
     ncli (cpus s c) = int (length (own s c)) + (if lpc s c = Running then 0 else 1) \<and>
     (lpc s c = Popping \<longrightarrow> (\<exists>t. popcli c s = Ret () t))"
proof -
  have inv: "cli_inv s" using reachable_inv [OF assms] ..
  note d = cli_invD [OF inv, of c]
  have "0 < ncli (cpus s c)" if "own s c \<noteq> [] \<or> lpc s c = Popping"
    using that d(1) by (auto simp: in_flight_def)
  with d show ?thesis
    by (auto simp: in_flight_def popcli_def Let_def)
qed

theorem interrupts_off_while_locked_witness:
  "\<exists>s. lock_reachable s \<and> own s 0 = [TicksLock] \<and> \<not> intr (cpus s 0) \<and> ncli (cpus s 0) = 1"
proof -
  obtain s where s: "lock_reachable s" "own s = (\<lambda>_. [])(0 := [TicksLock])" "lpc s = (\<lambda>_. Running)"
    using idle_step by blast
  with interrupts_off_while_locked [OF s(1), of 0] show ?thesis by auto
qed

text \<open>C3. Refinement: seen through the set of locks each CPU holds, every step of the
  interleaving either changes nothing, or adds to one CPU's set a lock that is in no
  CPU's set, or removes a lock from the set of the CPU that holds it; and the panics of
  \<open>acquire\<close> and \<open>release\<close> are those of this view, on a lock already held and on a lock
  not held.\<close>

theorem spinlock_refines_held_sets:
  assumes "lock_reachable s"
  shows "(\<forall>t. lock_step s t \<longrightarrow> held_by t = held_by s \<or> held_step (held_by s) (held_by t)) \<and>
     (acquire_enter c lk s = Panic ''acquire'' \<longleftrightarrow> lk \<in> held_by s c) \<and>
     (release_enter c lk s = Panic ''release'' \<longleftrightarrow> lk \<notin> held_by s c)"
proof -
  have inv: "excl_inv s" using reachable_inv [OF assms] ..
  moreover have "holding c lk (pushcli c s) = holding c lk s"
    by (simp add: holding_def pushcli_def set_cpu_def Let_def)
  ultimately show ?thesis
    using lock_step_refines [OF _ inv] holding_iff_held [OF inv]
    by (auto simp: acquire_enter_def release_enter_def Let_def)
qed

theorem spinlock_refines_held_sets_witness:
  "\<exists>s. lock_reachable s \<and> acquire_enter 0 TicksLock s = Panic ''acquire'' \<and>
     release_enter 1 TicksLock s = Panic ''release''"
proof -
  obtain s where s: "lock_reachable s" "own s = (\<lambda>_. [])(0 := [TicksLock])"
    using idle_step by blast
  with spinlock_refines_held_sets [OF s(1), of 0 TicksLock]
    spinlock_refines_held_sets [OF s(1), of 1 TicksLock]
  show ?thesis by (auto simp: held_by_def)
qed

text \<open>C14. Crossed locks never resolve: from a reachable state in which two CPUs each hold the
  lock the other spins on, every later state is like that too. With the opposite lock
  orders of \<open>kill\<close> and the timer tick this is a deadlock of the kernel.\<close>

theorem crossed_forever:
  assumes "lock_reachable s" and "crossed s a la b lb" and "lock_step\<^sup>*\<^sup>* s t"
  shows "crossed t a la b lb"
proof -
  from assms(3) have "lock_reachable t \<and> crossed t a la b lb"
  proof (induction rule: rtranclp_induct)
    case base
    show ?case using assms(1,2) ..
  next
    case (step u v)
    then show ?case
      using reachable_inv crossed_step by (blast intro: lock_reachable.step)
  qed
  then show ?thesis ..
qed

theorem crossed_forever_witness:
  "\<exists>s. lock_reachable s \<and> (\<forall>t. lock_step\<^sup>*\<^sup>* s t \<longrightarrow> crossed t 0 TicksLock 1 PtableLock)"
  using crossed_reachable crossed_forever by blast

end
