(* ===== verification/Kcore.thy ===== *)
theory Kcore
  imports Xv6_Prelude
begin

text \<open>
  The process table and what every kernel path uses of it: \<open>struct proc\<close>
  (\<open>src/HW3/proc.h\<close>), locks as the set a CPU holds, and the scheduling half of
  \<open>src/HW3/proc.c\<close> (\<open>scheduler\<close>, \<open>sched\<close>, \<open>yield\<close>, \<open>sleep\<close>, \<open>wakeup\<close>, \<open>kill\<close>,
  \<open>update_stat\<close>) with the timer part of \<open>trap\<close> (\<open>src/HW3/trap.c\<close>).

  Each definition is the path one CPU runs. \<open>held\<close> are the locks this CPU holds and
  \<open>others\<close> the locks the other CPUs hold: \<open>acquire\<close> panics on a lock in \<open>held\<close>, spins
  on one in \<open>others\<close>, and otherwise takes it (theory \<open>Spinlock\<close> shows that
  \<open>spinlock.c\<close> implements this view). The counter \<open>ncli\<close> and the interrupt flag are kept
  per CPU in \<open>Spinlock\<close>, where every reachable state of a CPU outside \<open>acquire\<close> and
  \<open>release\<close> has \<open>ncli\<close> equal to the number of locks held and interrupts off while that
  number is positive; here both are read off the set \<open>held\<close>. The copy of \<open>intena\<close> that
  \<open>sched\<close> keeps on the kernel stack over \<open>swtch\<close> belongs to that per-CPU state and is not
  a field of this record.
  A path that calls \<open>sched\<close> ends with \<open>Swtch\<close> and the state it hands to the
  scheduler; what it does when it is switched back to is a definition of its own
  (\<open>sleep_resume\<close>, \<open>yield_resume\<close>).
\<close>

section \<open>Data\<close>

datatype procstate = UNUSED | EMBRYO | SLEEPING | RUNNABLE | RUNNING | ZOMBIE

text \<open>Sleep channels are addresses of kernel objects; each is named by its object.\<close>

datatype chan =
    BufChan nat | InodeChan nat | LogChan | ProcChan nat | TicksChan
  | PipeRChan u32 | PipeWChan u32 | InputChan

record trapframe =
  tf_edi :: u32
  tf_esi :: u32
  tf_ebp :: u32
  tf_ebx :: u32
  tf_edx :: u32
  tf_ecx :: u32
  tf_eax :: u32
  tf_gs :: u16
  tf_fs :: u16
  tf_es :: u16
  tf_ds :: u16
  tf_trapno :: u32
  tf_err :: u32
  tf_eip :: u32
  tf_cs :: u16
  tf_eflags :: u32
  tf_esp :: u32
  tf_ss :: u16

record kcontext =
  c_edi :: u32
  c_esi :: u32
  c_ebx :: u32
  c_ebp :: u32
  c_eip :: u32

record proc =
  p_sz :: u32
  p_pgdir :: u32
  p_kstack :: u32
  p_state :: procstate
  p_pid :: u32
  p_parent :: "nat option"
  p_tf :: trapframe
  p_context :: kcontext
  p_chan :: "chan option"
  p_killed :: bool
  p_ofile :: "nat option list"
  p_cwd :: "nat option"
  p_name :: string
  p_ctime :: u32
  p_ttime :: u32
  p_stime :: u32
  p_retime :: u32
  p_rutime :: u32

record kcore =
  held :: "lockid set"
  others :: "lockid set"
  procs :: "proc list"
  cur :: "nat option"
  initproc :: "nat option"
  nextpid :: u32
  ticks :: u32
  kpgdir :: u32
  cr3 :: u32
  ts_ss0 :: u16
  ts_esp0 :: u32

definition NPROC :: nat where "NPROC = 64"
definition NOFILE :: nat where "NOFILE = 16"
definition KSTACKSIZE :: u32 where "KSTACKSIZE = 4096"
definition KERNBASE_V :: u32 where "KERNBASE_V = 0x80000000"

definition v2p :: "u32 \<Rightarrow> u32" where
  "v2p a = a - KERNBASE_V"

definition p2v :: "u32 \<Rightarrow> u32" where
  "p2v a = a + KERNBASE_V"

lemma p2v_v2p [simp]: "p2v (v2p a) = a" and v2p_p2v [simp]: "v2p (p2v a) = a"
  by (simp_all add: p2v_def v2p_def)

definition upd_proc :: "nat \<Rightarrow> (proc \<Rightarrow> proc) \<Rightarrow> 'z kcore_scheme \<Rightarrow> 'z kcore_scheme" where
  "upd_proc i f s = s\<lparr>procs := (procs s)[i := f (procs s ! i)]\<rparr>"

text \<open>
  Dereferencing the per-CPU pointer \<open>proc\<close> while it is 0 faults in kernel mode, which
  \<open>trap\<close> turns into \<open>panic("trap")\<close>.
\<close>

definition the_proc :: "('z kcore_scheme, nat) prog" where
  "the_proc s = (case cur s of None \<Rightarrow> Panic ''trap'' | Some i \<Rightarrow> Ret i s)"

section \<open>Locks\<close>

definition acquire :: "lockid \<Rightarrow> ('z kcore_scheme, unit) prog" where
  "acquire lk s =
     (if lk \<in> held s then Panic ''acquire''
      else if lk \<in> others s then Spin lk s
      else Ret () (s\<lparr>held := insert lk (held s)\<rparr>))"

definition release :: "lockid \<Rightarrow> ('z kcore_scheme, unit) prog" where
  "release lk s =
     (if lk \<notin> held s then Panic ''release'' else Ret () (s\<lparr>held := held s - {lk}\<rparr>))"

definition lock_free :: "lockid \<Rightarrow> 'z kcore_scheme \<Rightarrow> bool" where
  "lock_free lk s \<longleftrightarrow> lk \<notin> held s \<and> lk \<notin> others s"

lemma acquire_free [simp]:
  "lock_free lk s \<Longrightarrow> acquire lk s = Ret () (s\<lparr>held := insert lk (held s)\<rparr>)"
  by (simp add: acquire_def lock_free_def)

lemma release_held [simp]:
  "lk \<in> held s \<Longrightarrow> release lk s = Ret () (s\<lparr>held := held s - {lk}\<rparr>)"
  by (simp add: release_def)

lemma lock_free_upd [simp]:
  "lock_free lk (s\<lparr>procs := x\<rparr>) = lock_free lk s"
  "lock_free lk (s\<lparr>cur := c\<rparr>) = lock_free lk s"
  "lock_free lk (s\<lparr>ticks := t\<rparr>) = lock_free lk s"
  "lock_free lk (s\<lparr>held := insert l (held s)\<rparr>) \<longleftrightarrow> lk \<noteq> l \<and> lock_free lk s"
  "lock_free lk (s\<lparr>held := held s - {l}\<rparr>) \<longleftrightarrow> lock_free lk s \<or> lk = l \<and> lk \<notin> others s"
  by (auto simp: lock_free_def)

lemma held_restore [simp]:
  "lock_free lk s \<Longrightarrow> held s - {lk} = held s"
  "lock_free lk s \<Longrightarrow> insert lk (held s) - {lk} = held s"
  by (auto simp: lock_free_def)

lemma wp_acquire [wp_simps]:
  "wp (acquire lk) Q s \<longleftrightarrow> lock_free lk s \<and> Q () (s\<lparr>held := insert lk (held s)\<rparr>)"
  by (simp add: wp_def acquire_def lock_free_def)

lemma wp_release [wp_simps]:
  "wp (release lk) Q s \<longleftrightarrow> lk \<in> held s \<and> Q () (s\<lparr>held := held s - {lk}\<rparr>)"
  by (simp add: wp_def release_def)

section \<open>Giving up the processor\<close>

text \<open>
  What \<open>sched\<close> reads of the CPU: \<open>cpu->ncli\<close>, the number of locks held, and the interrupt
  flag, off as soon as one lock is held.
\<close>

definition cpu_ncli :: "'z kcore_scheme \<Rightarrow> nat" where
  "cpu_ncli s = card (held s)"

definition fl_if :: "'z kcore_scheme \<Rightarrow> bool" where
  "fl_if s \<longleftrightarrow> held s = {}"

definition sched :: "('z kcore_scheme, unit) prog" where
  "sched =
     kbind (panic_if (\<lambda>s. PtableLock \<notin> held s) ''sched ptable.lock'') (\<lambda>_.
     kbind (panic_if (\<lambda>s. cpu_ncli s \<noteq> 1) ''sched locks'') (\<lambda>_.
     kbind the_proc (\<lambda>i.
     kbind (panic_if (\<lambda>s. p_state (procs s ! i) = RUNNING) ''sched running'') (\<lambda>_.
     kbind (panic_if fl_if ''sched interruptible'') (\<lambda>_.
     kswtch)))))"

definition yield :: "('z kcore_scheme, unit) prog" where
  "yield =
     kbind (acquire PtableLock) (\<lambda>_.
     kbind the_proc (\<lambda>i.
     kbind (kmod (upd_proc i (\<lambda>p. p\<lparr>p_state := RUNNABLE\<rparr>))) (\<lambda>_.
     sched)))"

definition yield_resume :: "('z kcore_scheme, unit) prog" where
  "yield_resume = release PtableLock"

definition sleep :: "chan option \<Rightarrow> lockid option \<Rightarrow> ('z kcore_scheme, unit) prog" where
  "sleep ch lk =
     kbind (kget cur) (\<lambda>c. case c of None \<Rightarrow> kpanic ''sleep'' | Some i \<Rightarrow>
       (case lk of None \<Rightarrow> kpanic ''sleep without lk'' | Some l \<Rightarrow>
          kseq [kwhen (l \<noteq> PtableLock) (kseq [acquire PtableLock, release l]),
                kmod (upd_proc i (\<lambda>p. p\<lparr>p_chan := ch, p_state := SLEEPING\<rparr>)),
                sched]))"

definition sleep_resume :: "lockid \<Rightarrow> ('z kcore_scheme, unit) prog" where
  "sleep_resume l =
     kbind the_proc (\<lambda>i.
     kseq [kmod (upd_proc i (\<lambda>p. p\<lparr>p_chan := None\<rparr>)),
           kwhen (l \<noteq> PtableLock) (kseq [release PtableLock, acquire l])])"

section \<open>Waking and killing\<close>

definition wake_one :: "chan option \<Rightarrow> proc \<Rightarrow> proc" where
  "wake_one ch p = (if p_state p = SLEEPING \<and> p_chan p = ch then p\<lparr>p_state := RUNNABLE\<rparr> else p)"

definition wakeup1 :: "chan option \<Rightarrow> 'z kcore_scheme \<Rightarrow> 'z kcore_scheme" where
  "wakeup1 ch s = s\<lparr>procs := map (wake_one ch) (procs s)\<rparr>"

definition wakeup :: "chan option \<Rightarrow> ('z kcore_scheme, unit) prog" where
  "wakeup ch = kseq [acquire PtableLock, kmod (wakeup1 ch), release PtableLock]"

text \<open>\<open>kill\<close> returns 0, or -1 when no entry of the table carries the pid.\<close>

definition kill :: "u32 \<Rightarrow> ('z kcore_scheme, int) prog" where
  "kill pid =
     kbind (acquire PtableLock) (\<lambda>_.
     kbind (kget (\<lambda>s. find_idx (\<lambda>p. p_pid p = pid) (procs s))) (\<lambda>r.
       case r of
         Some i \<Rightarrow>
           kbind (kseq [kmod (upd_proc i (\<lambda>p. p\<lparr>p_killed := True\<rparr>)),
                        acquire TicksLock,
                        kmod (\<lambda>s. upd_proc i (\<lambda>p. p\<lparr>p_ttime := ticks s\<rparr>) s),
                        release TicksLock,
                        kmod (upd_proc i (\<lambda>p. if p_state p = SLEEPING
                                              then p\<lparr>p_state := RUNNABLE\<rparr> else p)),
                        release PtableLock])
             (\<lambda>_. kret 0)
       | None \<Rightarrow> kbind (release PtableLock) (\<lambda>_. kret (-1))))"

section \<open>Statistics and the clock\<close>

definition stat_one :: "proc \<Rightarrow> proc" where
  "stat_one p =
     (if p_state p = RUNNING then p\<lparr>p_rutime := p_rutime p + 1\<rparr>
      else if p_state p = SLEEPING then p\<lparr>p_stime := p_stime p + 1\<rparr>
      else if p_state p = RUNNABLE then p\<lparr>p_retime := p_retime p + 1\<rparr>
      else p)"

definition update_stat :: "('z kcore_scheme, unit) prog" where
  "update_stat =
     kseq [acquire PtableLock,
           kmod (\<lambda>s. s\<lparr>procs := map stat_one (procs s)\<rparr>),
           release PtableLock]"

text \<open>The timer interrupt on CPU 0: \<open>trap\<close> with trap number \<open>T_IRQ0 + IRQ_TIMER\<close>.\<close>

definition timer_tick :: "('z kcore_scheme, unit) prog" where
  "timer_tick =
     kseq [acquire TicksLock,
           kmod (\<lambda>s. s\<lparr>ticks := ticks s + 1\<rparr>),
           update_stat,
           wakeup (Some TicksChan),
           release TicksLock]"

section \<open>The scheduler\<close>

text \<open>
  \<open>switchuvm\<close> and \<open>switchkvm\<close> (\<open>src/HW3/vm.c\<close>) on the task state and the page table
  register; the \<open>pushcli\<close>/\<open>popcli\<close> pair around \<open>switchuvm\<close> cancels.
\<close>

definition switchuvm :: "nat \<Rightarrow> ('z kcore_scheme, unit) prog" where
  "switchuvm i =
     kbind the_proc (\<lambda>c.
     kseq [kmod (\<lambda>s. s\<lparr>ts_ss0 := push_bit 3 2, ts_esp0 := p_kstack (procs s ! c) + KSTACKSIZE\<rparr>),
           panic_if (\<lambda>s. p_pgdir (procs s ! i) = 0) ''switchuvm: no pgdir'',
           kmod (\<lambda>s. s\<lparr>cr3 := v2p (p_pgdir (procs s ! i))\<rparr>)])"

definition switchkvm :: "('z kcore_scheme, unit) prog" where
  "switchkvm = kmod (\<lambda>s. s\<lparr>cr3 := v2p (kpgdir s)\<rparr>)"

text \<open>
  Running a slot: \<open>run i s\<close> is what process \<open>i\<close> does from \<open>swtch\<close> until it switches
  back, a parameter since it is the user program and the system calls it makes.
\<close>

definition dispatch_in :: "nat \<Rightarrow> ('z kcore_scheme, unit) prog" where
  "dispatch_in i =
     kseq [kmod (\<lambda>s. s\<lparr>cur := Some i\<rparr>),
           switchuvm i,
           kmod (upd_proc i (\<lambda>p. p\<lparr>p_state := RUNNING\<rparr>))]"

definition dispatch_out :: "('z kcore_scheme, unit) prog" where
  "dispatch_out = kseq [switchkvm, kmod (\<lambda>s. s\<lparr>cur := None\<rparr>)]"

definition dispatch :: "(nat \<Rightarrow> 'z kcore_scheme \<Rightarrow> 'z kcore_scheme) \<Rightarrow> nat \<Rightarrow> ('z kcore_scheme, unit) prog" where
  "dispatch run i = kseq [dispatch_in i, kmod (run i), dispatch_out]"

text \<open>
  The choice inside the loop of \<open>scheduler\<close>: \<open>first\<close> is declared inside the loop body,
  starts as 0 there, and is compared with \<open>p\<close> by creation time.
\<close>

definition pick_first :: "'z kcore_scheme \<Rightarrow> nat \<Rightarrow> nat" where
  "pick_first s p =
     (let first = None;
          first' = (case first of
                      Some f \<Rightarrow> if p_ctime (procs s ! p) < p_ctime (procs s ! f) then Some p else Some f
                    | None \<Rightarrow> Some p)
      in (case first' of Some f \<Rightarrow> f | None \<Rightarrow> p))"

lemma pick_self: "pick_first s p = p"
  by (simp add: pick_first_def)

function sched_loop ::
  "(nat \<Rightarrow> 'z kcore_scheme \<Rightarrow> 'z kcore_scheme) \<Rightarrow> nat \<Rightarrow> bool \<Rightarrow> ('z kcore_scheme, bool) prog" where
  "sched_loop run p found s =
     (if p < NPROC then
        (if p_state (procs s ! p) \<noteq> RUNNABLE then sched_loop run (Suc p) found s
         else (let q = pick_first s p
               in case dispatch run q s of
                    Ret _ t \<Rightarrow> sched_loop run (Suc q) True t
                  | Panic e \<Rightarrow> Panic e | Swtch t \<Rightarrow> Swtch t | Spin l t \<Rightarrow> Spin l t))
      else Ret found s)"
  by pat_completeness auto
termination
  by (relation "measure (\<lambda>(run, p, found, s). NPROC - p)") (auto simp: pick_self)

declare sched_loop.simps [simp del]

definition hlt :: "('s, unit) prog" where
  "hlt = kret ()"

text \<open>One iteration of the endless loop; the result is the new \<open>foundproc\<close>.\<close>

definition scheduler_round ::
  "(nat \<Rightarrow> 'z kcore_scheme \<Rightarrow> 'z kcore_scheme) \<Rightarrow> bool \<Rightarrow> ('z kcore_scheme, bool) prog" where
  "scheduler_round run foundproc =
     kbind (kwhen (\<not> foundproc) hlt) (\<lambda>_.
     kbind (acquire PtableLock) (\<lambda>_.
     kbind (sched_loop run 0 False) (\<lambda>found.
     kbind (release PtableLock) (\<lambda>_.
     kret found))))"

text \<open>The scheduler the source keeps in a comment above: plain round robin.\<close>

function rr_loop ::
  "(nat \<Rightarrow> 'z kcore_scheme \<Rightarrow> 'z kcore_scheme) \<Rightarrow> nat \<Rightarrow> bool \<Rightarrow> ('z kcore_scheme, bool) prog" where
  "rr_loop run p found s =
     (if p < NPROC then
        (if p_state (procs s ! p) \<noteq> RUNNABLE then rr_loop run (Suc p) found s
         else (case dispatch run p s of
                 Ret _ t \<Rightarrow> rr_loop run (Suc p) True t
               | Panic e \<Rightarrow> Panic e | Swtch t \<Rightarrow> Swtch t | Spin l t \<Rightarrow> Spin l t))
      else Ret found s)"
  by pat_completeness auto
termination
  by (relation "measure (\<lambda>(run, p, found, s). NPROC - p)") auto

declare rr_loop.simps [simp del]

section \<open>Evaluating the paths\<close>

lemma upd_proc_simps [simp]:
  "held (upd_proc i f s) = held s"
  "others (upd_proc i f s) = others s"
  "cur (upd_proc i f s) = cur s"
  "ticks (upd_proc i f s) = ticks s"
  "nextpid (upd_proc i f s) = nextpid s"
  "length (procs (upd_proc i f s)) = length (procs s)"
  "i < length (procs s) \<Longrightarrow> procs (upd_proc i f s) ! i = f (procs s ! i)"
  "j \<noteq> i \<Longrightarrow> procs (upd_proc i f s) ! j = procs s ! j"
  "lock_free lk (upd_proc i f s) = lock_free lk s"
  by (auto simp: upd_proc_def)

lemma the_proc_simps [simp]: "cur s = Some i \<Longrightarrow> the_proc s = Ret i s"
  "cur s = None \<Longrightarrow> the_proc s = Panic ''trap''"
  by (simp_all add: the_proc_def)

lemma sched_ok:
  assumes "held s = {PtableLock}" and "cur s = Some i" and "p_state (procs s ! i) \<noteq> RUNNING"
  shows "sched s = Swtch s"
  using assms by (simp add: sched_def cpu_ncli_def fl_if_def)

lemma sleep_eq:
  assumes "cur s = Some i" and "i < length (procs s)" and "l \<noteq> PtableLock"
    and "held s = {l}" and "PtableLock \<notin> others s"
  shows "sleep ch (Some l) s =
    Swtch (upd_proc i (\<lambda>p. p\<lparr>p_chan := ch, p_state := SLEEPING\<rparr>) (s\<lparr>held := {PtableLock}\<rparr>))"
proof -
  let ?t = "upd_proc i (\<lambda>p. p\<lparr>p_chan := ch, p_state := SLEEPING\<rparr>) (s\<lparr>held := {PtableLock}\<rparr>)"
  have free: "lock_free PtableLock s" using assms by (auto simp: lock_free_def)
  have "insert PtableLock {l} - {l} = {PtableLock}" using assms(3) by auto
  moreover have "sched ?t = Swtch ?t"
    using assms by (intro sched_ok [where i = i]) simp_all
  ultimately show ?thesis
    using assms free by (simp add: sleep_def kbind_def)
qed

lemma sleep_spins:
  assumes "cur s = Some i" and "l \<noteq> PtableLock" and "held s = {l}" and "PtableLock \<in> others s"
  shows "sleep ch (Some l) s = Spin PtableLock s"
  using assms by (simp add: sleep_def kbind_def acquire_def)

lemma wakeup1_simps [simp]:
  "held (wakeup1 ch s) = held s"
  "others (wakeup1 ch s) = others s"
  "cur (wakeup1 ch s) = cur s"
  "ticks (wakeup1 ch s) = ticks s"
  "length (procs (wakeup1 ch s)) = length (procs s)"
  "lock_free lk (wakeup1 ch s) = lock_free lk s"
  by (simp_all add: wakeup1_def)

lemma wakeup_free: "lock_free PtableLock s \<Longrightarrow> wakeup ch s = Ret () (wakeup1 ch s)"
  by (simp add: wakeup_def wakeup1_def)

text \<open>The paths of this theory leave the components layered above the core alone.\<close>

lemma keeps_more [keeps_intros]:
  "keeps kcore.more (acquire lk)" "keeps kcore.more (release lk)" "keeps kcore.more the_proc"
  by (auto simp: keeps_def acquire_def release_def the_proc_def split: if_splits option.splits)

lemma keeps_more_proc [keeps_intros]: "keeps kcore.more (kmod (upd_proc i f))"
  by (rule keeps_mod) (simp add: upd_proc_def)

lemma keeps_more_sched [keeps_intros]: "keeps kcore.more sched"
  unfolding sched_def by (intro keeps_intros)

lemma keeps_more_sleep [keeps_intros]: "keeps kcore.more (sleep ch lk)" "keeps kcore.more (sleep_resume l)"
  unfolding sleep_def sleep_resume_def by (intro keeps_intros)+

lemma keeps_more_wakeup [keeps_intros]: "keeps kcore.more (wakeup ch)"
  unfolding wakeup_def by (intro keeps_intros) (simp add: wakeup1_def)

section \<open>Concrete states\<close>

definition zero_tf :: trapframe where
  "zero_tf = \<lparr>tf_edi = 0, tf_esi = 0, tf_ebp = 0, tf_ebx = 0, tf_edx = 0, tf_ecx = 0, tf_eax = 0,
     tf_gs = 0, tf_fs = 0, tf_es = 0, tf_ds = 0, tf_trapno = 0, tf_err = 0, tf_eip = 0,
     tf_cs = 0, tf_eflags = 0, tf_esp = 0, tf_ss = 0\<rparr>"

definition zero_proc :: proc where
  "zero_proc = \<lparr>p_sz = 0, p_pgdir = 0, p_kstack = 0, p_state = UNUSED, p_pid = 0,
     p_parent = None, p_tf = zero_tf, p_context = \<lparr>c_edi = 0, c_esi = 0, c_ebx = 0, c_ebp = 0, c_eip = 0\<rparr>,
     p_chan = None, p_killed = False, p_ofile = replicate 16 None, p_cwd = None, p_name = [],
     p_ctime = 0, p_ttime = 0, p_stime = 0, p_retime = 0, p_rutime = 0\<rparr>"

text \<open>A state whose table starts with the given processes; the rest of the table is zeroed.\<close>

definition core_with :: "proc list \<Rightarrow> kcore" where
  "core_with ps = \<lparr>held = {}, others = {}, procs = ps @ replicate (64 - length ps) zero_proc,
     cur = None, initproc = None, nextpid = 1, ticks = 0, kpgdir = 0x80400000, cr3 = 0,
     ts_ss0 = 0, ts_esp0 = 0\<rparr>"

end
