(* ===== verification/Sched.thy ===== *)
theory Sched
  imports Kcore
begin

text \<open>
  Properties of the scheduling half of \<open>src/HW3/proc.c\<close> as modelled in \<open>Kcore\<close>: sleep
  and wakeup, kill, the per-process clocks that \<open>wait_stat\<close> reports, and the scheduler.
\<close>

section \<open>Sleep and wakeup\<close>

lemma wakeup_spins:
  "PtableLock \<notin> held s \<Longrightarrow> PtableLock \<in> others s \<Longrightarrow> wakeup ch s = Spin PtableLock s"
  by (simp add: wakeup_def kbind_def acquire_def)

lemma wakeup_wakes:
  assumes "i < length (procs s)" and "p_state (procs s ! i) = SLEEPING" and "p_chan (procs s ! i) = Some ch"
    and "PtableLock \<notin> held s" and "PtableLock \<notin> others s"
  shows "\<exists>u. wakeup (Some ch) s = Ret () u \<and> p_state (procs u ! i) = RUNNABLE"
  using assms by (simp add: wakeup_free lock_free_def wakeup1_def wake_one_def)

text \<open>C9. No lost wakeup: a process that sleeps on a channel under a lock \<open>l\<close> takes the process
  table lock before it gives up \<open>l\<close>. While another CPU has the process table lock it spins with
  \<open>l\<close> still held, so that a CPU that changes the condition under \<open>l\<close> and then calls
  \<open>wakeup\<close> waits for it. Otherwise it reaches the scheduler with \<open>l\<close> free, the process table
  lock held and itself asleep on the channel, no other process touched; and from then on a
  \<open>wakeup\<close> of the channel on any CPU waits while the process table lock is held and, once it is
  free, makes the process runnable.\<close>

theorem sleep_no_lost_wakeup:
  fixes s :: "'z kcore_scheme"
  assumes "cur s = Some i" and "i < length (procs s)" and "l \<noteq> PtableLock" and "held s = {l}"
  shows "if PtableLock \<in> others s
     then sleep (Some ch) (Some l) s = Spin PtableLock s \<and>
       (\<forall>w :: 'z kcore_scheme. held w = {} \<and> others w = held s \<longrightarrow> acquire l w = Spin l w)
     else \<exists>t. sleep (Some ch) (Some l) s = Swtch t \<and> held t = {PtableLock} \<and>
       p_state (procs t ! i) = SLEEPING \<and> p_chan (procs t ! i) = Some ch \<and>
       (\<forall>j. j \<noteq> i \<longrightarrow> procs t ! j = procs s ! j) \<and>
       (\<forall>w :: 'z kcore_scheme. PtableLock \<notin> held w \<and> procs w = procs t \<longrightarrow>
          (if PtableLock \<in> others w then wakeup (Some ch) w = Spin PtableLock w
           else \<exists>u. wakeup (Some ch) w = Ret () u \<and> p_state (procs u ! i) = RUNNABLE))"
proof (cases "PtableLock \<in> others s")
  case True
  with sleep_spins [OF assms(1,3,4)] assms(4) show ?thesis by (simp add: acquire_def)
next
  case False
  let ?t = "upd_proc i (\<lambda>p. p\<lparr>p_chan := Some ch, p_state := SLEEPING\<rparr>) (s\<lparr>held := {PtableLock}\<rparr>)"
  have t: "p_state (procs ?t ! i) = SLEEPING" "p_chan (procs ?t ! i) = Some ch" "i < length (procs ?t)"
    using assms(2) by simp_all
  have "if PtableLock \<in> others w then wakeup (Some ch) w = Spin PtableLock w
      else \<exists>u. wakeup (Some ch) w = Ret () u \<and> p_state (procs u ! i) = RUNNABLE"
    if "PtableLock \<notin> held w" "procs w = procs ?t" for w :: "'z kcore_scheme"
    using that wakeup_wakes [of i w ch] wakeup_spins [of w "Some ch"] t by simp
  moreover have "sleep (Some ch) (Some l) s = Swtch ?t" by (rule sleep_eq [OF assms False])
  moreover have "\<forall>j. j \<noteq> i \<longrightarrow> procs ?t ! j = procs s ! j" "held ?t = {PtableLock}" by simp_all
  ultimately show ?thesis
    using False t(1,2) by (simp only: if_False) blast
qed

theorem sleep_no_lost_wakeup_witness:
  "let s = (core_with [zero_proc\<lparr>p_state := RUNNING\<rparr>])\<lparr>held := {TicksLock}, cur := Some 0\<rparr>
   in (\<exists>t. sleep (Some TicksChan) (Some TicksLock) s = Swtch t \<and> p_state (procs t ! 0) = SLEEPING) \<and>
      sleep (Some TicksChan) (Some TicksLock) (s\<lparr>others := {PtableLock}\<rparr>)
        = Spin PtableLock (s\<lparr>others := {PtableLock}\<rparr>)"
proof -
  let ?s = "(core_with [zero_proc\<lparr>p_state := RUNNING\<rparr>])\<lparr>held := {TicksLock}, cur := Some 0\<rparr>"
  show ?thesis
    using sleep_no_lost_wakeup [of ?s 0 TicksLock TicksChan]
      sleep_no_lost_wakeup [of "?s\<lparr>others := {PtableLock}\<rparr>" 0 TicksLock TicksChan]
    by (auto simp: core_with_def)
qed

section \<open>Kill\<close>

text \<open>C33. Kill: when some entry of the table carries the pid, the first such entry is marked
  killed, its termination time becomes the current tick count, and it is made runnable if it
  was asleep; the result is 0. Otherwise the result is -1 and nothing changes.\<close>

theorem kill_spec:
  assumes "lock_free PtableLock s" and "lock_free TicksLock s"
  shows "kill pid s =
     (case find_idx (\<lambda>p. p_pid p = pid) (procs s) of
        None \<Rightarrow> Ret (-1) s
      | Some i \<Rightarrow> Ret 0 (upd_proc i (\<lambda>p. p\<lparr>p_killed := True, p_ttime := ticks s,
            p_state := (if p_state p = SLEEPING then RUNNABLE else p_state p)\<rparr>) s))"
proof (cases "find_idx (\<lambda>p. p_pid p = pid) (procs s)")
  case None
  with assms show ?thesis by (simp add: kill_def kbind_def lock_free_def)
next
  case (Some i)
  then have i: "i < length (procs s)" by (simp add: find_idx_Some)
  let ?H = "insert PtableLock (held s)"
  have "insert TicksLock ?H - {TicksLock} = ?H" "?H - {PtableLock} = held s"
    using assms by (auto simp: lock_free_def)
  with Some i assms show ?thesis
    by (simp add: kill_def kbind_def upd_proc_def)
qed

theorem kill_spec_witness:
  "kill 7 (core_with [zero_proc\<lparr>p_pid := 7, p_state := SLEEPING\<rparr>]) =
     Ret 0 (core_with [zero_proc\<lparr>p_pid := 7, p_state := RUNNABLE, p_killed := True\<rparr>])"
  using kill_spec [of "core_with [zero_proc\<lparr>p_pid := 7, p_state := SLEEPING\<rparr>]" 7]
  by (simp add: core_with_def lock_free_def upd_proc_def zero_proc_def)

section \<open>Clocks\<close>

text \<open>Everything the scheduling half of the kernel can do to a process table.\<close>

inductive kcore_step :: "'z kcore_scheme \<Rightarrow> 'z kcore_scheme \<Rightarrow> bool" where
  k_tick: "timer_tick s = Ret () t \<Longrightarrow> kcore_step s t"
| k_wakeup: "wakeup ch s = Ret () t \<Longrightarrow> kcore_step s t"
| k_kill: "kill pid s = Ret r t \<Longrightarrow> kcore_step s t"
| k_sleep: "sleep ch lk s = Swtch t \<Longrightarrow> kcore_step s t"
| k_yield: "yield s = Swtch t \<Longrightarrow> kcore_step s t"
| k_in: "p_state (procs s ! i) = RUNNABLE \<Longrightarrow> dispatch_in i s = Ret () t \<Longrightarrow> kcore_step s t"
| k_out: "dispatch_out s = Ret () t \<Longrightarrow> kcore_step s t"
| k_sleep_resume: "sleep_resume l s = Ret () t \<Longrightarrow> kcore_step s t"
| k_yield_resume: "yield_resume s = Ret () t \<Longrightarrow> kcore_step s t"

definition live :: "procstate \<Rightarrow> bool" where
  "live st \<longleftrightarrow> st = SLEEPING \<or> st = RUNNABLE \<or> st = RUNNING"

definition clock_sum :: "proc \<Rightarrow> u32" where
  "clock_sum p = p_stime p + p_retime p + p_rutime p"

text \<open>What the steps other than the tick leave alone.\<close>

definition clocks_kept :: "'z kcore_scheme \<Rightarrow> 'z kcore_scheme \<Rightarrow> bool" where
  "clocks_kept s t \<longleftrightarrow> ticks t = ticks s \<and> length (procs t) = length (procs s) \<and>
     (\<forall>i < length (procs s). clock_sum (procs t ! i) = clock_sum (procs s ! i))"

lemma clocks_kept_refl [simp]: "clocks_kept s s"
  by (simp add: clocks_kept_def)

lemma clocks_kept_trans: "clocks_kept s t \<Longrightarrow> clocks_kept t u \<Longrightarrow> clocks_kept s u"
  by (simp add: clocks_kept_def)

lemma clocks_kept_upd:
  "(\<And>p. clock_sum (f p) = clock_sum p) \<Longrightarrow> clocks_kept s (upd_proc i f s)"
  unfolding clocks_kept_def upd_proc_def
  by (cases "i < length (procs s)") (auto simp: nth_list_update)

lemma clock_sum_simps [simp]:
  "clock_sum (p\<lparr>p_state := x\<rparr>) = clock_sum p"
  "clock_sum (p\<lparr>p_chan := c\<rparr>) = clock_sum p"
  "clock_sum (p\<lparr>p_killed := k\<rparr>) = clock_sum p"
  "clock_sum (p\<lparr>p_ttime := x'\<rparr>) = clock_sum p"
  "clock_sum (wake_one ch p) = clock_sum p"
  by (simp_all add: clock_sum_def wake_one_def)

lemma clocks_kept_more [simp]:
  "clocks_kept s (t\<lparr>held := h\<rparr>) = clocks_kept s t"
  "clocks_kept s (t\<lparr>cur := c\<rparr>) = clocks_kept s t"
  "clocks_kept s (t\<lparr>cr3 := r\<rparr>) = clocks_kept s t"
  "clocks_kept s (t\<lparr>ts_ss0 := a, ts_esp0 := b\<rparr>) = clocks_kept s t"
  "clocks_kept s (t\<lparr>procs := map (wake_one ch) (procs t)\<rparr>) = clocks_kept s t"
  by (auto simp: clocks_kept_def)

lemma upd_proc_kept:
  "(\<And>p. clock_sum (f p) = clock_sum p) \<Longrightarrow> clocks_kept s t \<Longrightarrow> clocks_kept s (upd_proc i f t)"
  by (blast intro: clocks_kept_trans clocks_kept_upd)

lemma sched_state: "sched s = Swtch t \<Longrightarrow> t = s"
  by (auto simp: sched_def kbind_def the_proc_def split: if_splits option.splits outcome.splits)

lemma acquire_state: "acquire lk s = Ret () t \<Longrightarrow> t = s\<lparr>held := insert lk (held s)\<rparr>"
  by (auto simp: acquire_def split: if_splits)

lemma release_state: "release lk s = Ret () t \<Longrightarrow> t = s\<lparr>held := held s - {lk}\<rparr>"
  by (auto simp: release_def split: if_splits)

lemma acquire_not_Swtch [simp]: "acquire lk s \<noteq> Swtch t" and release_not_Swtch [simp]: "release lk s \<noteq> Swtch t"
  by (auto simp: acquire_def release_def)

lemma step_kept:
  "wakeup ch s = Ret () t \<Longrightarrow> clocks_kept s t"
  "kill pid s = Ret r t \<Longrightarrow> clocks_kept s t"
  "sleep ch lk s = Swtch t \<Longrightarrow> clocks_kept s t"
  "yield s = Swtch t \<Longrightarrow> clocks_kept s t"
  "dispatch_in i s = Ret () t \<Longrightarrow> clocks_kept s t"
  "dispatch_out s = Ret () t \<Longrightarrow> clocks_kept s t"
  "sleep_resume l s = Ret () t \<Longrightarrow> clocks_kept s t"
  "yield_resume s = Ret () t \<Longrightarrow> clocks_kept s t"
  subgoal by (auto simp: wakeup_def wakeup1_def kbind_eq_Ret dest!: acquire_state release_state)
  subgoal by (auto simp: kill_def kbind_eq_Ret split: option.splits
        dest!: acquire_state release_state intro!: upd_proc_kept)
  subgoal by (auto simp: sleep_def kbind_def split: option.splits outcome.splits if_splits
        dest!: acquire_state release_state sched_state intro!: upd_proc_kept)
  subgoal by (auto simp: yield_def kbind_def the_proc_def split: option.splits outcome.splits
        dest!: acquire_state sched_state intro!: upd_proc_kept)
  subgoal by (auto simp: dispatch_in_def switchuvm_def kbind_eq_Ret intro!: upd_proc_kept split: if_splits)
  subgoal by (auto simp: dispatch_out_def switchkvm_def kbind_eq_Ret)
  subgoal by (auto simp: sleep_resume_def kbind_eq_Ret the_proc_def split: option.splits if_splits
        dest!: acquire_state release_state intro!: upd_proc_kept)
  subgoal by (auto simp: yield_resume_def dest!: release_state)
  done

lemma timer_tick_eq:
  assumes "timer_tick s = Ret () t"
  shows "t = s\<lparr>ticks := ticks s + 1, procs := map (wake_one (Some TicksChan) \<circ> stat_one) (procs s)\<rparr>"
proof -
  have "TicksLock \<notin> held s" "PtableLock \<notin> held s"
    using assms
    by (auto simp: timer_tick_def update_stat_def kbind_eq_Ret acquire_def split: if_splits)
  then show ?thesis
    using assms
    by (auto simp: timer_tick_def update_stat_def wakeup_def wakeup1_def kbind_eq_Ret
        dest!: acquire_state release_state)
qed

lemma live_stat_one: "live (p_state p) \<Longrightarrow> clock_sum (stat_one p) = clock_sum p + 1"
  by (auto simp: live_def clock_sum_def stat_one_def)

lemma kcore_step_clock:
  assumes "kcore_step s t" and "i < length (procs s)" and "live (p_state (procs s ! i))"
  shows "length (procs t) = length (procs s) \<and>
     clock_sum (procs t ! i) - ticks t = clock_sum (procs s ! i) - ticks s"
  using assms(1)
proof cases
  case k_tick
  from timer_tick_eq [OF this] show ?thesis
    using assms(2,3) by (simp add: live_stat_one)
qed (use assms(2) in \<open>auto dest!: step_kept simp: clocks_kept_def\<close>)

text \<open>C17. Turnaround accounting: over any sequence of clock ticks, wakeups, kills, sleeps,
  yields and context switches through which a process stays asleep, ready or running, the
  sum of its sleeping, ready and running times grows by exactly the number of clock
  ticks that passed (modulo the 32-bit width of the counters).\<close>

theorem clock_accounting:
  assumes "(\<lambda>s t. kcore_step s t \<and> live (p_state (procs t ! i)))\<^sup>*\<^sup>* s t"
    and "i < length (procs s)" and "live (p_state (procs s ! i))"
  shows "clock_sum (procs t ! i) - clock_sum (procs s ! i) = ticks t - ticks s"
proof -
  have "length (procs t) = length (procs s) \<and> live (p_state (procs t ! i)) \<and>
     clock_sum (procs t ! i) - ticks t = clock_sum (procs s ! i) - ticks s"
    using assms(1)
  proof (induction rule: rtranclp_induct)
    case base
    show ?case using assms(3) by simp
  next
    case (step u v)
    then show ?case using kcore_step_clock [of u v i] assms(2) by simp
  qed
  then show ?thesis by (simp add: algebra_simps)
qed

theorem clock_accounting_witness:
  "let s = core_with [zero_proc\<lparr>p_state := RUNNABLE, p_retime := 5\<rparr>];
       t = core_with [zero_proc\<lparr>p_state := RUNNABLE, p_retime := 6\<rparr>]\<lparr>ticks := 1\<rparr>
   in timer_tick s = Ret () t \<and>
      clock_sum (procs t ! 0) - clock_sum (procs s ! 0) = ticks t - ticks s"
proof -
  let ?s = "core_with [zero_proc\<lparr>p_state := RUNNABLE, p_retime := 5\<rparr>]"
  let ?t = "core_with [zero_proc\<lparr>p_state := RUNNABLE, p_retime := 6\<rparr>]\<lparr>ticks := 1\<rparr>"
  have t: "timer_tick ?s = Ret () ?t"
    by (simp add: timer_tick_def update_stat_def wakeup_def wakeup1_def kbind_def acquire_def
        release_def core_with_def stat_one_def wake_one_def zero_proc_def)
  have "(\<lambda>s t. kcore_step s t \<and> live (p_state (procs t ! 0)))\<^sup>*\<^sup>* ?s ?t"
    using k_tick [OF t] by (intro r_into_rtranclp) (simp add: core_with_def live_def)
  then have "clock_sum (procs ?t ! 0) - clock_sum (procs ?s ! 0) = ticks ?t - ticks ?s"
    by (rule clock_accounting) (simp_all add: core_with_def live_def)
  with t show ?thesis unfolding Let_def by blast
qed

section \<open>The scheduler\<close>

text \<open>C19. The scheduler is round robin: although its loop compares creation times, each round
  does exactly what the round robin loop kept in the comment above it does, on every
  process table and for every behaviour of the processes it runs. The creation time
  never influences the choice.\<close>

theorem scheduler_is_round_robin: "sched_loop run p found s = rr_loop run p found s"
proof (induction run p found s rule: rr_loop.induct)
  case (1 run p found s)
  show ?case
    using "1.IH"
    by (subst sched_loop.simps, subst rr_loop.simps)
       (auto simp: pick_self split: outcome.splits)
qed

lemma sched_loop_idle:
  "(\<And>j. p \<le> j \<Longrightarrow> j < NPROC \<Longrightarrow> p_state (procs s ! j) \<noteq> RUNNABLE) \<Longrightarrow>
   sched_loop run p found s = Ret found s"
proof (induction "NPROC - p" arbitrary: p)
  case 0
  then show ?case by (subst sched_loop.simps) simp
next
  case (Suc n)
  have "sched_loop run (Suc p) found s = Ret found s"
    using Suc.hyps Suc.prems by (intro Suc.hyps(1)) auto
  with Suc.hyps(2) Suc.prems [of p] show ?case
    by (subst sched_loop.simps) simp
qed

text \<open>The state after one dispatch, for a slot that has a page directory.\<close>

definition entered :: "nat \<Rightarrow> 'z kcore_scheme \<Rightarrow> 'z kcore_scheme" where
  "entered i s = upd_proc i (\<lambda>p. p\<lparr>p_state := RUNNING\<rparr>)
     (s\<lparr>cur := Some i, ts_ss0 := push_bit 3 2, ts_esp0 := p_kstack (procs s ! i) + KSTACKSIZE,
        cr3 := v2p (p_pgdir (procs s ! i))\<rparr>)"

definition left_cpu :: "'z kcore_scheme \<Rightarrow> 'z kcore_scheme" where
  "left_cpu s = s\<lparr>cr3 := v2p (kpgdir s), cur := None\<rparr>"

lemma dispatch_eq:
  "p_pgdir (procs s ! i) \<noteq> 0 \<Longrightarrow> dispatch run i s = Ret () (left_cpu (run i (entered i s)))"
  by (simp add: dispatch_def dispatch_in_def dispatch_out_def switchuvm_def switchkvm_def
      kbind_def the_proc_def entered_def left_cpu_def)

definition ready :: "'z kcore_scheme \<Rightarrow> nat \<Rightarrow> bool" where
  "ready s i \<longleftrightarrow> p_state (procs s ! i) = RUNNABLE"

definition ready_mapped :: "'z kcore_scheme \<Rightarrow> bool" where
  "ready_mapped s \<longleftrightarrow> (\<forall>i < NPROC. ready s i \<longrightarrow> p_pgdir (procs s ! i) \<noteq> 0)"

lemma entered_simps [simp]:
  "j \<noteq> i \<Longrightarrow> ready (entered i s) j = ready s j"
  "j \<noteq> i \<Longrightarrow> procs (entered i s) ! j = procs s ! j"
  "length (procs (entered i s)) = length (procs s)"
  "kcore.more (entered i s) = kcore.more s"
  by (auto simp: entered_def ready_def upd_proc_def)

lemma left_cpu_simps [simp]:
  "ready (left_cpu s) j = ready s j"
  "ready_mapped (left_cpu s) = ready_mapped s"
  "procs (left_cpu s) = procs s"
  "kcore.more (left_cpu s) = kcore.more s"
  by (simp_all add: left_cpu_def ready_def ready_mapped_def)

lemma ready_mapped_entered:
  assumes "ready_mapped s" and "length (procs s) = NPROC" and "i < NPROC"
  shows "ready_mapped (entered i s)"
  unfolding ready_mapped_def
proof (intro allI impI)
  fix j assume "j < NPROC" and "ready (entered i s) j"
  moreover from this assms(2,3) have "j \<noteq> i"
    by (auto simp: ready_def entered_def)
  ultimately show "p_pgdir (procs (entered i s) ! j) \<noteq> 0"
    using assms(1) by (simp add: ready_mapped_def)
qed

text \<open>The scheduler has handed the CPU to slot \<open>i\<close>.\<close>

definition on_cpu :: "nat \<Rightarrow> 'z kcore_scheme \<Rightarrow> bool" where
  "on_cpu i s \<longleftrightarrow> length (procs s) = NPROC \<and> i < NPROC \<and> held s = {PtableLock} \<and> cur s = Some i \<and>
     p_state (procs s ! i) = RUNNING"

lemma on_cpu_entered:
  "length (procs s) = NPROC \<Longrightarrow> i < NPROC \<Longrightarrow> held s = {PtableLock} \<Longrightarrow> on_cpu i (entered i s)"
  by (simp add: on_cpu_def entered_def)

text \<open>What the scheduler relies on of the processes it runs.\<close>

definition obeys :: "(nat \<Rightarrow> 'z kcore_scheme \<Rightarrow> 'z kcore_scheme) \<Rightarrow> (nat \<Rightarrow> 'z \<Rightarrow> bool) \<Rightarrow> bool" where
  "obeys run did \<longleftrightarrow> (\<forall>i s. on_cpu i s \<longrightarrow>
     length (procs (run i s)) = NPROC \<and> held (run i s) = {PtableLock} \<and>
     (ready_mapped s \<longrightarrow> ready_mapped (run i s)) \<and> did i (kcore.more (run i s)) \<and>
     (\<forall>j. (j \<noteq> i \<and> ready s j \<longrightarrow> ready (run i s) j \<or> did j (kcore.more (run i s))) \<and>
          (did j (kcore.more s) \<longrightarrow> did j (kcore.more (run i s)))))"

text \<open>One dispatch of the loop.\<close>

lemma dispatch_runs:
  assumes "obeys run did" and "length (procs s) = NPROC" and "ready_mapped s" and "held s = {PtableLock}"
    and "p < NPROC" and "ready s p"
  shows "\<exists>t. dispatch run p s = Ret () t \<and> length (procs t) = NPROC \<and> ready_mapped t \<and>
     held t = {PtableLock} \<and> did p (kcore.more t) \<and>
     (\<forall>j. (j \<noteq> p \<and> ready s j \<longrightarrow> ready t j \<or> did j (kcore.more t)) \<and>
          (did j (kcore.more s) \<longrightarrow> did j (kcore.more t)))"
proof -
  let ?e = "entered p s"
  have on: "on_cpu p ?e" using assms by (intro on_cpu_entered)
  have "ready_mapped ?e" using ready_mapped_entered assms by blast
  with on assms(1) have "length (procs (run p ?e)) = NPROC \<and> held (run p ?e) = {PtableLock} \<and>
     ready_mapped (run p ?e) \<and> did p (kcore.more (run p ?e)) \<and>
     (\<forall>j. (j \<noteq> p \<and> ready ?e j \<longrightarrow> ready (run p ?e) j \<or> did j (kcore.more (run p ?e))) \<and>
          (did j (kcore.more ?e) \<longrightarrow> did j (kcore.more (run p ?e))))"
    by (simp only: obeys_def) blast
  moreover have "dispatch run p s = Ret () (left_cpu (run p ?e))"
    using assms by (intro dispatch_eq) (auto simp: ready_mapped_def)
  moreover have "held (left_cpu (run p ?e)) = held (run p ?e)" by (simp add: left_cpu_def)
  ultimately show ?thesis by simp
qed

lemma sched_loop_runs:
  assumes "obeys run did"
  shows "length (procs s) = NPROC \<Longrightarrow> ready_mapped s \<Longrightarrow> held s = {PtableLock} \<Longrightarrow>
    \<exists>b t. sched_loop run p found s = Ret b t \<and> held t = {PtableLock} \<and> (found \<longrightarrow> b) \<and>
      (\<forall>i < NPROC. (p \<le> i \<and> ready s i \<longrightarrow> b) \<and>
         ((p \<le> i \<and> ready s i) \<or> did i (kcore.more s) \<longrightarrow> did i (kcore.more t)))"
proof (induction "NPROC - p" arbitrary: p found s)
  case 0
  then show ?case by (subst sched_loop.simps) simp
next
  case (Suc n)
  then have p: "p < NPROC" and n: "n = NPROC - Suc p" by auto
  show ?case
  proof (cases "ready s p")
    case False
    then have "p \<le> i \<and> ready s i \<longleftrightarrow> Suc p \<le> i \<and> ready s i" for i
      by (auto simp: Suc_le_eq le_less)
    with False Suc.hyps(1) [OF n Suc.prems, of found] p show ?thesis
      by (subst sched_loop.simps) (auto simp: ready_def)
  next
    case True
    obtain t where d: "dispatch run p s = Ret () t" and t: "length (procs t) = NPROC" "ready_mapped t"
      "held t = {PtableLock}" "did p (kcore.more t)"
      and kept: "\<forall>j. (j \<noteq> p \<and> ready s j \<longrightarrow> ready t j \<or> did j (kcore.more t)) \<and>
          (did j (kcore.more s) \<longrightarrow> did j (kcore.more t))"
      using dispatch_runs [OF assms Suc.prems p True] by blast
    obtain u where u: "sched_loop run (Suc p) True t = Ret True u" "held u = {PtableLock}"
      and did: "\<forall>i < NPROC. (Suc p \<le> i \<and> ready t i) \<or> did i (kcore.more t) \<longrightarrow> did i (kcore.more u)"
      using Suc.hyps(1) [OF n t(1-3), of True] by auto
    have "sched_loop run p found s = Ret True u"
      using True p d u by (subst sched_loop.simps) (simp add: ready_def pick_self)
    moreover have "did i (kcore.more u)"
      if "i < NPROC" "(p \<le> i \<and> ready s i) \<or> did i (kcore.more s)" for i
    proof (cases "i = p")
      case True
      with t(4) did that(1) show ?thesis by blast
    next
      case False
      then have "Suc p \<le> i" if "p \<le> i" using that by simp
      with False that kept did show ?thesis by blast
    qed
    ultimately show ?thesis using u(2) by blast
  qed
qed

text \<open>C11. A round leaves nobody out. Running a process is a parameter, \<open>run\<close>, assumed to come back
  as \<open>sched\<close> makes it, with the process table lock and no other lock held; to keep the
  ready processes mapped; and to leave a process that is ready either ready or, if another CPU
  took it meanwhile, run. Then one round of the scheduler returns with the process table
  lock free again, it reports that it found a process when one was ready, and every process that was
  ready at its start has run. "Has run" is any effect on the rest of the kernel state
  that running process \<open>i\<close> brings about and running another process does not undo.\<close>

theorem round_runs_every_ready_process:
  assumes returns: "\<And>i s. on_cpu i s \<Longrightarrow> length (procs (run i s)) = NPROC \<and> held (run i s) = {PtableLock}"
    and keep: "\<And>i j s. on_cpu i s \<Longrightarrow> j \<noteq> i \<Longrightarrow> ready s j \<Longrightarrow>
      ready (run i s) j \<or> did j (kcore.more (run i s))"
    and mapped: "\<And>i s. on_cpu i s \<Longrightarrow> ready_mapped s \<Longrightarrow> ready_mapped (run i s)"
    and does: "\<And>i s. on_cpu i s \<Longrightarrow> did i (kcore.more (run i s))"
    and stays: "\<And>i j s. on_cpu j s \<Longrightarrow> did i (kcore.more s) \<Longrightarrow> did i (kcore.more (run j s))"
    and table: "length (procs s) = NPROC" and start: "ready_mapped s"
    and locks: "held s = {}" "PtableLock \<notin> others s"
  shows "\<exists>found t. scheduler_round run foundproc s = Ret found t \<and> held t = {} \<and>
     (\<forall>i < NPROC. ready s i \<longrightarrow> found \<and> did i (kcore.more t))"
proof -
  have "obeys run did"
    unfolding obeys_def using assms(1-5) by simp
  have "\<exists>b t. sched_loop run 0 False (s\<lparr>held := {PtableLock}\<rparr>) = Ret b t \<and> held t = {PtableLock} \<and>
      (\<forall>i < NPROC. ready s i \<longrightarrow> b \<and> did i (kcore.more t))"
    using sched_loop_runs [OF \<open>obeys run did\<close>, of "s\<lparr>held := {PtableLock}\<rparr>" 0 False] table start
    by (auto simp: ready_def ready_mapped_def)
  then show ?thesis
    using locks by (auto simp: scheduler_round_def hlt_def kbind_def lock_free_def)
qed

text \<open>A process that notes in the extension that it ran, and yields.\<close>

definition note_run :: "nat \<Rightarrow> nat list kcore_scheme \<Rightarrow> nat list kcore_scheme" where
  "note_run i s = kcore.more_update (\<lambda>l. l @ [i])
     (upd_proc i (\<lambda>p. p\<lparr>p_state := (if p_pgdir p = 0 then ZOMBIE else RUNNABLE)\<rparr>) s)"

definition two_ready :: "nat list kcore_scheme" where
  "two_ready = kcore.extend
     (core_with [zero_proc\<lparr>p_state := RUNNABLE, p_pgdir := 0x80500000, p_ctime := 9\<rparr>,
                 zero_proc\<lparr>p_state := RUNNABLE, p_pgdir := 0x80600000, p_ctime := 3\<rparr>]) []"

lemma two_ready_table:
  "length (procs two_ready) = NPROC" "ready_mapped two_ready"
  "held two_ready = {}" "others two_ready = {}"
  "i < NPROC \<Longrightarrow> ready two_ready i \<longleftrightarrow> i < 2"
  by (auto simp: two_ready_def core_with_def kcore.defs NPROC_def ready_mapped_def ready_def
      zero_proc_def nth_Cons' nth_append)

lemma note_run_facts:
  "length (procs (note_run i s)) = length (procs s)"
  "held (note_run i s) = held s"
  "j \<noteq> i \<Longrightarrow> ready (note_run i s) j = ready s j"
  "kcore.more (note_run i s) = kcore.more s @ [i]"
  by (simp_all add: note_run_def ready_def upd_proc_def)

lemma note_run_mapped: "ready_mapped s \<Longrightarrow> ready_mapped (note_run i s)"
  unfolding ready_mapped_def ready_def note_run_def upd_proc_def
  by (cases "i < length (procs s)") (auto simp: nth_list_update list_update_beyond not_less)

theorem round_runs_every_ready_process_witness:
  "\<exists>t. scheduler_round note_run True two_ready = Ret True t \<and> held t = {} \<and>
     0 \<in> set (kcore.more t) \<and> 1 \<in> set (kcore.more t)"
proof -
  have "\<exists>found t. scheduler_round note_run True two_ready = Ret found t \<and> held t = {} \<and>
     (\<forall>i < NPROC. ready two_ready i \<longrightarrow> found \<and> i \<in> set (kcore.more t))"
    by (rule round_runs_every_ready_process [of note_run "\<lambda>i l. i \<in> set l"])
       (auto simp: note_run_facts note_run_mapped two_ready_table on_cpu_def)
  then obtain found t where t: "scheduler_round note_run True two_ready = Ret found t" "held t = {}"
    and all: "\<forall>i < NPROC. ready two_ready i \<longrightarrow> found \<and> i \<in> set (kcore.more t)"
    by blast
  have "found \<and> i \<in> set (kcore.more t)" if "i < 2" for i
    using all [rule_format, of i] that by (simp add: two_ready_table NPROC_def)
  from this [of 0] this [of 1] have "found \<and> 0 \<in> set (kcore.more t)" "1 \<in> set (kcore.more t)" by simp_all
  with t show ?thesis by auto
qed

text \<open>
  Slot 0 of \<open>two_ready\<close> was created at tick 9, slot 1 at tick 3; the scheduler runs slot 0
  first. First come, first served, which the comparison of creation times in the source
  aims at, would run slot 1 first.
\<close>

theorem scheduler_not_fcfs:
  "\<exists>found t. sched_loop note_run 0 False two_ready = Ret found t \<and> kcore.more t = [0, 1] \<and>
     p_ctime (procs two_ready ! 1) < p_ctime (procs two_ready ! 0)"
proof -
  let ?t0 = "left_cpu (note_run 0 (entered 0 two_ready))"
  let ?t1 = "left_cpu (note_run 1 (entered 1 ?t0))"
  have r: "ready two_ready 0" "ready two_ready 1" "ready ?t0 1"
    by (simp_all add: two_ready_table NPROC_def note_run_facts)
  have pg: "p_pgdir (procs two_ready ! 0) \<noteq> 0" "p_pgdir (procs ?t0 ! 1) \<noteq> 0"
    by (simp_all add: two_ready_def core_with_def kcore.defs note_run_def upd_proc_def entered_def left_cpu_def)
  have idle: "p_state (procs ?t1 ! j) \<noteq> RUNNABLE" if "2 \<le> j" "j < NPROC" for j
    using that two_ready_table(5) [of j]
    by (simp add: note_run_def upd_proc_def entered_def ready_def)
  have "sched_loop note_run 2 True ?t1 = Ret True ?t1"
    by (rule sched_loop_idle) (use idle in simp)
  then have "sched_loop note_run 1 True ?t0 = Ret True ?t1"
    using r(3) dispatch_eq [OF pg(2), of note_run]
    by (subst sched_loop.simps) (simp add: NPROC_def ready_def pick_self numeral_2_eq_2)
  then have "sched_loop note_run 0 False two_ready = Ret True ?t1"
    using r(1) dispatch_eq [OF pg(1), of note_run]
    by (subst sched_loop.simps) (simp add: NPROC_def ready_def pick_self)
  moreover have "kcore.more ?t1 = [0, 1]"
    by (simp add: note_run_facts two_ready_def kcore.defs)
  moreover have "p_ctime (procs two_ready ! 1) < p_ctime (procs two_ready ! 0)"
    by (simp add: two_ready_def core_with_def kcore.defs)
  ultimately show ?thesis by blast
qed

section \<open>Lock order\<close>

text \<open>C21. Opposite lock orders: \<open>kill\<close> of an existing pid, run while another CPU holds the
  ticks lock, spins on the ticks lock holding the process table lock; the timer tick, run
  while another CPU holds the process table lock, spins on the process table lock holding
  the ticks lock. Two CPUs running them can therefore each wait for the other.\<close>

theorem kill_and_tick_lock_order:
  assumes "held s = {}" and "others s = {TicksLock}" and "p \<in> set (procs s)" and "p_pid p = pid"
    and "held r = {}" and "others r = {PtableLock}"
  shows "\<exists>s' r'. kill pid s = Spin TicksLock s' \<and> held s' = {PtableLock} \<and>
     timer_tick r = Spin PtableLock r' \<and> held r' = {TicksLock}"
proof -
  obtain i where "find_idx (\<lambda>p. p_pid p = pid) (procs s) = Some i"
    using assms(3,4) find_idx_None [of "\<lambda>p. p_pid p = pid" "procs s"] by auto
  then have "kill pid s = Spin TicksLock (upd_proc i (\<lambda>p. p\<lparr>p_killed := True\<rparr>) (s\<lparr>held := {PtableLock}\<rparr>))"
    using assms(1,2) by (simp add: kill_def kbind_def acquire_def)
  moreover have "timer_tick r = Spin PtableLock (r\<lparr>held := {TicksLock}, ticks := ticks r + 1\<rparr>)"
    using assms(5,6) by (simp add: timer_tick_def update_stat_def kbind_def acquire_def)
  ultimately show ?thesis by simp
qed

theorem kill_and_tick_lock_order_witness:
  "\<exists>s' r'. kill 7 ((core_with [zero_proc\<lparr>p_pid := 7\<rparr>])\<lparr>others := {TicksLock}\<rparr>) = Spin TicksLock s' \<and>
     held s' = {PtableLock} \<and>
     timer_tick ((core_with [])\<lparr>others := {PtableLock}\<rparr>) = Spin PtableLock r' \<and> held r' = {TicksLock}"
  by (rule kill_and_tick_lock_order [where p = "zero_proc\<lparr>p_pid := 7\<rparr>"])
     (simp_all add: core_with_def)

end
