(* ===== verification/Cstring.thy ===== *)
theory Cstring
  imports Xv6_Prelude
begin

text \<open>
  Byte memory and \<open>src/HW3/string.c\<close>. Memory is a function from 32-bit addresses to
  bytes; words are little endian. The routines are translated with their pointers as
  32-bit addresses that wrap around. The loops over a count recurse on the count; the
  loop of \<open>strlen\<close>, which has no bound, is a partial function.
\<close>

type_synonym memory = "u32 \<Rightarrow> u8"

named_theorems mem_simps \<open>what a memory operation leaves at an address\<close>

section \<open>Words in memory\<close>

definition load32 :: "memory \<Rightarrow> u32 \<Rightarrow> u32" where
  "load32 m a = ucast (m a) OR push_bit 8 (ucast (m (a + 1)))
     OR push_bit 16 (ucast (m (a + 2))) OR push_bit 24 (ucast (m (a + 3)))"

definition store32 :: "memory \<Rightarrow> u32 \<Rightarrow> u32 \<Rightarrow> memory" where
  "store32 m a v = m(a := ucast v, a + 1 := ucast (drop_bit 8 v),
     a + 2 := ucast (drop_bit 16 v), a + 3 := ucast (drop_bit 24 v))"

text \<open>Bytes of memory in a row.\<close>

fun load_bytes :: "memory \<Rightarrow> u32 \<Rightarrow> nat \<Rightarrow> u8 list" where
  "load_bytes m a 0 = []"
| "load_bytes m a (Suc n) = m a # load_bytes m (a + 1) n"

fun store_bytes :: "memory \<Rightarrow> u32 \<Rightarrow> u8 list \<Rightarrow> memory" where
  "store_bytes m a [] = m"
| "store_bytes m a (x # xs) = store_bytes (m(a := x)) (a + 1) xs"

lemma load32_bytes:
  "ucast (ucast v :: u8) OR push_bit 8 (ucast (ucast (drop_bit 8 v) :: u8))
     OR push_bit 16 (ucast (ucast (drop_bit 16 v) :: u8))
     OR push_bit 24 (ucast (ucast (drop_bit 24 v) :: u8)) = (v :: u32)"
proof (rule bit_word_eqI)
  fix n
  assume "n < LENGTH(32)"
  then consider "n < 8" | "8 \<le> n" "n < 16" | "16 \<le> n" "n < 24" | "24 \<le> n" "n < 32" by fastforce
  then show "bit ((ucast (ucast v :: u8) :: u32) OR push_bit 8 (ucast (ucast (drop_bit 8 v) :: u8))
     OR push_bit 16 (ucast (ucast (drop_bit 16 v) :: u8))
     OR push_bit 24 (ucast (ucast (drop_bit 24 v) :: u8))) n = bit v n"
    by cases (auto simp: bit_simps)
qed

lemma load32_store32 [simp]: "load32 (store32 m a v) a = v"
  by (simp add: load32_def store32_def load32_bytes)

lemma offset_lt4: "unat (x :: u32) < 4 \<longleftrightarrow> x = 0 \<or> x = 1 \<or> x = 2 \<or> x = 3"
  by (auto simp: word_less_nat_alt [symmetric] unat_arith_simps) 

lemma store32_other: "4 \<le> unat (b - a) \<Longrightarrow> store32 m a v b = m b"
  by (auto simp: store32_def)

lemma load32_cong: "(\<And>i. unat i < 4 \<Longrightarrow> m (a + i) = m' (a + i)) \<Longrightarrow> load32 m a = load32 m' a"
proof -
  assume eq: "\<And>i. unat i < 4 \<Longrightarrow> m (a + i) = m' (a + i)"
  have "m a = m' a" using eq [of 0] by simp
  then show ?thesis using eq [of 1] eq [of 2] eq [of 3] by (simp add: load32_def)
qed

text \<open>Splitting a disk address over byte-wide registers, and what the pieces put together are.\<close>

lemma less_8_cases: "n < 8 \<Longrightarrow> n = 0 \<or> n = 1 \<or> n = 2 \<or> n = 3 \<or> n = 4 \<or> n = 5 \<or> n = 6 \<or> n = (7::nat)"
  by arith

lemma drive_decode:
  fixes s d :: u32
  defines "r \<equiv> (ucast (0xE0 OR push_bit 4 (d AND 1) OR (drop_bit 24 s AND 0x0F)) :: u8)"
  shows "ucast (r AND 0x0F) = drop_bit 24 s AND 0x0F" and "ucast (drop_bit 4 r AND 1) = d AND 1"
proof -
  have m: "0x0F = (mask 4 :: u8)" "0x0F = (mask 4 :: u32)" "1 = (mask 1 :: u8)" "1 = (mask 1 :: u32)"
    by (simp_all add: mask_eq_exp_minus_1)
  have b: "bit r n \<longleftrightarrow> n < 8 \<and> (n = 5 \<or> n = 6 \<or> n = 7 \<or> n = 4 \<and> bit d 0 \<or> n < 4 \<and> bit s (24 + n))" for n
  proof (cases "n < 8")
    case True
    from less_8_cases [OF True] show ?thesis unfolding r_def by (elim disjE) (simp_all add: bit_simps)
  qed (simp add: r_def bit_simps)
  show "ucast (r AND 0x0F) = drop_bit 24 s AND 0x0F"
    unfolding m by (rule bit_word_eqI) (auto simp: bit_simps b)
  show "ucast (drop_bit 4 r AND 1) = d AND 1"
    unfolding m by (rule bit_word_eqI) (auto simp: bit_simps b)
qed

lemma lba_decode:
  fixes s :: u32
  shows "ucast (ucast (s AND 0xFF) :: u8) OR push_bit 8 (ucast (ucast (drop_bit 8 s AND 0xFF) :: u8)) OR
    push_bit 16 (ucast (ucast (drop_bit 16 s AND 0xFF) :: u8)) OR push_bit 24 (drop_bit 24 s AND 0x0F) = s AND mask 28"
proof -
  have m: "0x0F = (mask 4 :: u32)" "0xFF = (mask 8 :: u32)" by (simp_all add: mask_eq_exp_minus_1)
  show ?thesis unfolding m
  proof (rule bit_word_eqI)
    fix n
    assume "n < LENGTH(32)"
    then consider "n < 8" | "8 \<le> n" "n < 16" | "16 \<le> n" "n < 24" | "24 \<le> n" "n < 32" by fastforce
    then show "bit ((ucast (ucast (s AND mask 8) :: u8) :: u32) OR push_bit 8 (ucast (ucast (drop_bit 8 s AND mask 8) :: u8)) OR
    push_bit 16 (ucast (ucast (drop_bit 16 s AND mask 8) :: u8)) OR push_bit 24 (drop_bit 24 s AND mask 4)) n = bit (s AND mask 28) n"
      by cases (auto simp: bit_simps)
  qed
qed
section \<open>Addresses in a range\<close>

lemma unat_diff_Suc: "a \<noteq> d \<Longrightarrow> unat (a - d) = Suc (unat (a - (d + 1)))" for a d :: u32
  using unat_minus_one [of "a - d"] unat_gt_0 [of "a - d"] by (simp add: diff_diff_eq)

lemma range_step: "a \<noteq> d \<Longrightarrow> unat (a - d) < Suc k \<longleftrightarrow> unat (a - (d + 1)) < k" for a d :: u32
  using unat_diff_Suc [of a d] by simp

lemma unat_of_nat32: "k < 2 ^ 32 \<Longrightarrow> unat (of_nat k :: u32) = k"
  by (simp add: unat_of_nat)

lemma unat_le32: "unat (n :: u32) \<le> 2 ^ 32"
  using unsigned_less [of n, where 'a = nat] by simp

lemma range_last: "unat (a - d) < Suc k \<longleftrightarrow> unat (a - d) < k \<or> a = d + of_nat k"
  if "k < 2 ^ 32" for a d :: u32
proof -
  have "unat (a - d) = k \<longleftrightarrow> a - d = of_nat k"
    using unat_of_nat32 [OF that] by (metis of_nat_unat ucast_id)
  then show ?thesis by (auto simp: algebra_simps less_Suc_eq)
qed

section \<open>memset\<close>

text \<open>\<open>rep stosb\<close> and \<open>rep stosl\<close> (\<open>src/HW3/x86.h\<close>): the count is the number of units.\<close>

fun stosb :: "memory \<Rightarrow> u32 \<Rightarrow> u8 \<Rightarrow> nat \<Rightarrow> memory" where
  "stosb m d c 0 = m"
| "stosb m d c (Suc n) = stosb (m(d := c)) (d + 1) c n"

fun stosl :: "memory \<Rightarrow> u32 \<Rightarrow> u32 \<Rightarrow> nat \<Rightarrow> memory" where
  "stosl m d v 0 = m"
| "stosl m d v (Suc n) = stosl (store32 m d v) (d + 4) v n"

definition memset :: "memory \<Rightarrow> u32 \<Rightarrow> u32 \<Rightarrow> u32 \<Rightarrow> memory" where
  "memset m dst c n =
     (if dst mod 4 = 0 \<and> n mod 4 = 0 then
        (let c = c AND 0xFF
         in stosl m dst (push_bit 24 c OR push_bit 16 c OR push_bit 8 c OR c) (unat (n div 4)))
      else stosb m dst (ucast c) (unat n))"

lemma stosb_at [mem_simps]: "stosb m d c k a = (if unat (a - d) < k then c else m a)"
proof (induction k arbitrary: m d)
  case (Suc k)
  then show ?case by (cases "a = d") (simp_all add: range_step)
qed simp

lemma store32_rep:
  fixes c :: u32
  defines "b \<equiv> (ucast c :: u8)" and "e \<equiv> c AND 0xFF"
  shows "store32 m d (push_bit 24 e OR push_bit 16 e OR push_bit 8 e OR e) =
    m(d := b, d + 1 := b, d + 2 := b, d + 3 := b)"
proof -
  have m: "0xFF = (mask 8 :: u32)" by (simp add: mask_eq_exp_minus_1)
  let ?v = "push_bit 24 e OR push_bit 16 e OR push_bit 8 e OR e"
  have "ucast ?v = b" "ucast (drop_bit 8 ?v) = b" "ucast (drop_bit 16 ?v) = b" "ucast (drop_bit 24 ?v) = b"
    unfolding b_def e_def m by (rule bit_word_eqI, auto simp: bit_simps)+
  then show ?thesis by (simp add: store32_def)
qed

lemma stosl_stosb:
  assumes "\<And>m d. store32 m d v = m(d := b, d + 1 := b, d + 2 := b, d + 3 := b)"
  shows "stosl m d v k = stosb m d b (4 * k)"
proof (induction k arbitrary: m d)
  case (Suc k)
  have "stosb m d b (4 * Suc k) = stosb (store32 m d v) (d + 4) b (4 * k)"
    unfolding assms by (simp add: numeral_eq_Suc add.assoc)
  then show ?case
    using Suc by simp
qed simp

lemma memset_at [mem_simps]: "memset m dst c n a = (if a - dst < n then ucast c else m a)"
proof -
  have "4 * unat (n div 4) = unat n" if "n mod 4 = 0"
  proof -
    have "unat n mod 4 = 0" using arg_cong [OF that, of unat] by (simp add: unat_mod)
    then show ?thesis using mult_div_mod_eq [of 4 "unat n"] by (simp add: unat_div)
  qed
  then show ?thesis
    by (simp only: memset_def Let_def stosl_stosb [OF store32_rep] stosb_at word_less_nat_alt split: if_split)
       metis
qed

section \<open>memmove and memcpy\<close>

fun copy_fwd :: "memory \<Rightarrow> u32 \<Rightarrow> u32 \<Rightarrow> nat \<Rightarrow> memory" where
  "copy_fwd m d s 0 = m"
| "copy_fwd m d s (Suc n) = copy_fwd (m(d := m s)) (d + 1) (s + 1) n"

fun copy_bwd :: "memory \<Rightarrow> u32 \<Rightarrow> u32 \<Rightarrow> nat \<Rightarrow> memory" where
  "copy_bwd m d s 0 = m"
| "copy_bwd m d s (Suc n) = copy_bwd (m(d - 1 := m (s - 1))) (d - 1) (s - 1) n"

definition memmove :: "memory \<Rightarrow> u32 \<Rightarrow> u32 \<Rightarrow> u32 \<Rightarrow> memory" where
  "memmove m dst src n =
     (if src < dst \<and> dst < src + n then copy_bwd m (dst + n) (src + n) (unat n)
      else copy_fwd m dst src (unat n))"

definition memcpy :: "memory \<Rightarrow> u32 \<Rightarrow> u32 \<Rightarrow> u32 \<Rightarrow> memory" where
  "memcpy m dst src n = memmove m dst src n"

text \<open>
  Copying upwards is right when the destination does not start strictly inside the
  source range, copying downwards when the source does not start strictly inside the
  destination range; both in arithmetic modulo \<open>2 ^ 32\<close>.
\<close>

lemma copy_fwd_at:
  "copy_fwd m d s k a = (if unat (a - d) < k then m (s + (a - d)) else m a)"
  if "d = s \<or> k \<le> unat (d - s)" and "k \<le> 2 ^ 32"
  using that
proof (induction k arbitrary: m d s)
  case (Suc k)
  let ?m = "m(d := m s)"
  have ih: "copy_fwd ?m (d + 1) (s + 1) k a =
      (if unat (a - (d + 1)) < k then ?m (s + 1 + (a - (d + 1))) else ?m a)"
    using Suc.prems by (intro Suc.IH) auto
  show ?case
  proof (cases "a = d")
    case True
    have "unat (- 1 :: u32) = 2 ^ 32 - 1" by (simp add: unsigned_minus_1_eq_mask mask_eq_exp_minus_1)
    with True ih Suc.prems show ?thesis by simp
  next
    case False
    have "?m (s + (a - d)) = m (s + (a - d))" if "unat (a - d) < Suc k"
    proof (cases "s + (a - d) = d")
      case True
      then have "a - d = d - s" by (simp add: algebra_simps)
      with that Suc.prems have "d = s" by auto
      then show ?thesis by simp
    qed simp
    with False ih range_step [OF False, of k] show ?thesis
      by (simp add: algebra_simps)
  qed
qed simp

lemma copy_bwd_at:
  "copy_bwd m (d + of_nat k) (s + of_nat k) k a = (if unat (a - d) < k then m (s + (a - d)) else m a)"
  if "d = s \<or> k \<le> unat (s - d)" and "k \<le> 2 ^ 32"
  using that
proof (induction k arbitrary: m)
  case (Suc k)
  let ?m = "m(d + of_nat k := m (s + of_nat k))"
  have "copy_bwd m (d + of_nat (Suc k)) (s + of_nat (Suc k)) (Suc k) a =
      copy_bwd ?m (d + of_nat k) (s + of_nat k) k a"
    by (simp add: algebra_simps)
  also have "\<dots> = (if unat (a - d) < k then ?m (s + (a - d)) else ?m a)"
    using Suc.prems by (intro Suc.IH) auto
  finally have eq: "copy_bwd m (d + of_nat (Suc k)) (s + of_nat (Suc k)) (Suc k) a = \<dots>" .
  have "?m (s + (a - d)) = m (s + (a - d))" if "unat (a - d) < k"
  proof (cases "s + (a - d) = d + of_nat k")
    case True
    have "unat (s - d) \<le> k"
    proof -
      have "s - d = of_nat k - (a - d)" using True by (simp add: algebra_simps)
      moreover have "unat (of_nat k - (a - d)) \<le> k"
        using that Suc.prems unat_of_nat32 [of k] unat_sub [of "a - d" "of_nat k"]
        by (simp add: word_le_nat_alt)
      ultimately show ?thesis by (simp only:)
    qed
    with Suc.prems have "d = s" by auto
    then show ?thesis by simp
  qed simp
  with eq range_last [of k a d] Suc.prems show ?case by auto
qed simp

lemma memmove_at [mem_simps]:
  assumes "unat src + unat n \<le> 2 ^ 32" and "unat dst + unat n \<le> 2 ^ 32"
  shows "memmove m dst src n a = (if a - dst < n then m (src + (a - dst)) else m a)"
proof (cases "src < dst \<and> dst < src + n")
  case True
  have "unat n \<le> unat (src - dst)"
    using True assms unat_sub [of dst src]
    by (simp add: unat_sub_if' word_less_nat_alt unat_word_ariths)
  then show ?thesis
    using True copy_bwd_at [of dst src "unat n" m a] unat_le32 [of n]
    by (simp add: memmove_def word_less_nat_alt)
next
  case False
  have "dst = src \<or> unat n \<le> unat (dst - src)"
    using False assms by (auto simp: unat_sub_if' word_less_nat_alt unat_word_ariths word_unat_eq_iff mod_if split: if_splits)
  then show ?thesis
    using False copy_fwd_at [of dst src "unat n" m a] unat_le32 [of n]
    by (auto simp: memmove_def word_less_nat_alt)
qed

section \<open>Comparison\<close>

text \<open>\<open>*s1 - *s2\<close> on unsigned bytes promotes to \<open>int\<close>.\<close>

definition byte_diff :: "u8 \<Rightarrow> u8 \<Rightarrow> int" where
  "byte_diff a b = uint a - uint b"

lemma byte_diff_0 [simp]: "byte_diff a b = 0 \<longleftrightarrow> a = b"
  by (simp add: byte_diff_def word_uint_eq_iff)

fun memcmp_loop :: "memory \<Rightarrow> u32 \<Rightarrow> u32 \<Rightarrow> nat \<Rightarrow> int" where
  "memcmp_loop m a b 0 = 0"
| "memcmp_loop m a b (Suc n) =
     (if m a \<noteq> m b then byte_diff (m a) (m b) else memcmp_loop m (a + 1) (b + 1) n)"

definition memcmp :: "memory \<Rightarrow> u32 \<Rightarrow> u32 \<Rightarrow> u32 \<Rightarrow> int" where
  "memcmp m v1 v2 n = memcmp_loop m v1 v2 (unat n)"

fun strncmp_loop :: "memory \<Rightarrow> u32 \<Rightarrow> u32 \<Rightarrow> nat \<Rightarrow> int" where
  "strncmp_loop m p q 0 = 0"
| "strncmp_loop m p q (Suc n) =
     (if m p \<noteq> 0 \<and> m p = m q then strncmp_loop m (p + 1) (q + 1) n
      else byte_diff (m p) (m q))"

definition strncmp :: "memory \<Rightarrow> u32 \<Rightarrow> u32 \<Rightarrow> u32 \<Rightarrow> int" where
  "strncmp m p q n = strncmp_loop m p q (unat n)"

section \<open>Copying strings\<close>

fun zero_fill :: "memory \<Rightarrow> u32 \<Rightarrow> nat \<Rightarrow> memory" where
  "zero_fill m s 0 = m"
| "zero_fill m s (Suc n) = zero_fill (m(s := 0)) (s + 1) n"

fun strncpy_loop :: "memory \<Rightarrow> u32 \<Rightarrow> u32 \<Rightarrow> nat \<Rightarrow> memory" where
  "strncpy_loop m s t 0 = m"
| "strncpy_loop m s t (Suc n) =
     (let m' = m(s := m t)
      in if m t \<noteq> 0 then strncpy_loop m' (s + 1) (t + 1) n else zero_fill m' (s + 1) n)"

definition strncpy :: "memory \<Rightarrow> u32 \<Rightarrow> u32 \<Rightarrow> int \<Rightarrow> memory" where
  "strncpy m s t n = strncpy_loop m s t (nat n)"

fun safestrcpy_loop :: "memory \<Rightarrow> u32 \<Rightarrow> u32 \<Rightarrow> nat \<Rightarrow> memory" where
  "safestrcpy_loop m s t 0 = m(s := 0)"
| "safestrcpy_loop m s t (Suc n) =
     (let m' = m(s := m t)
      in if m t \<noteq> 0 then safestrcpy_loop m' (s + 1) (t + 1) n else m'(s + 1 := 0))"

definition safestrcpy :: "memory \<Rightarrow> u32 \<Rightarrow> u32 \<Rightarrow> int \<Rightarrow> memory" where
  "safestrcpy m s t n = (if n \<le> 0 then m else safestrcpy_loop m s t (nat (n - 1)))"

partial_function (option) strlen_loop :: "memory \<Rightarrow> u32 \<Rightarrow> u32 \<Rightarrow> u32 option" where
  "strlen_loop m s n = (if m (s + n) = 0 then Some n else strlen_loop m s (n + 1))"

definition strlen :: "memory \<Rightarrow> u32 \<Rightarrow> u32 option" where
  "strlen m s = strlen_loop m s 0"

section \<open>Strings\<close>

text \<open>The bytes \<open>xs\<close>, none of them 0, followed by a 0 byte.\<close>

fun cstr_at :: "memory \<Rightarrow> u32 \<Rightarrow> u8 list \<Rightarrow> bool" where
  "cstr_at m a [] \<longleftrightarrow> m a = 0"
| "cstr_at m a (x # xs) \<longleftrightarrow> m a = x \<and> x \<noteq> 0 \<and> cstr_at m (a + 1) xs"

lemma cstr_at_cong:
  "(\<And>i. i \<le> length xs \<Longrightarrow> m (a + of_nat i) = m' (a + of_nat i)) \<Longrightarrow> cstr_at m a xs = cstr_at m' a xs"
proof (induction xs arbitrary: a)
  case Nil
  from Nil [of 0] show ?case by simp
next
  case (Cons x xs)
  have "m (a + 1 + of_nat i) = m' (a + 1 + of_nat i)" if "i \<le> length xs" for i
    using Cons.prems [of "Suc i"] that by (simp add: algebra_simps)
  from Cons.IH [OF this] Cons.prems [of 0] show ?case by simp
qed

lemma memcmp_zero:
  "memcmp_loop m a b n = 0 \<longleftrightarrow> (\<forall>i<n. m (a + of_nat i) = m (b + of_nat i))"
proof (induction n arbitrary: a b)
  case (Suc n)
  then show ?case
    by (auto simp: less_Suc_eq_0_disj algebra_simps)
qed simp

lemma strncmp_zero:
  "cstr_at m p xs \<Longrightarrow> cstr_at m q ys \<Longrightarrow> strncmp_loop m p q n = 0 \<longleftrightarrow> take n xs = take n ys"
proof (induction n arbitrary: p q xs ys)
  case (Suc n)
  show ?case
  proof (cases xs; cases ys)
    fix x xs' y ys'
    assume "xs = x # xs'" "ys = y # ys'"
    with Suc.prems Suc.IH [of "p + 1" xs' "q + 1" ys'] show ?thesis by auto
  qed (use Suc.prems in auto)
qed simp

lemma strlen_loop_cstr:
  "cstr_at m (s + n) xs \<Longrightarrow> strlen_loop m s n = Some (n + of_nat (length xs))"
proof (induction xs arbitrary: n)
  case Nil
  then show ?case by (subst strlen_loop.simps) simp
next
  case (Cons x xs)
  then have "cstr_at m (s + (n + 1)) xs" by (simp add: algebra_simps)
  from Cons.IH [OF this] Cons.prems show ?case
    by (subst strlen_loop.simps) (simp add: algebra_simps)
qed

lemma strlen_cstr: "cstr_at m s xs \<Longrightarrow> strlen m s = Some (of_nat (length xs))"
  using strlen_loop_cstr [of m s 0 xs] by (simp add: strlen_def)

lemma before_range: "k < 2 ^ 32 \<Longrightarrow> k \<le> unat (s - (s + 1))" for s :: u32
  by (simp add: unsigned_minus_1_eq_mask mask_eq_exp_minus_1)

lemma safestrcpy_frame: "Suc n \<le> unat (a - s) \<Longrightarrow> safestrcpy_loop m s t n a = m a"
proof (induction n arbitrary: m s t)
  case (Suc n)
  then have "a \<noteq> s" by auto
  with Suc.prems have le: "Suc n \<le> unat (a - (s + 1))" by (simp add: unat_diff_Suc)
  then have "a \<noteq> s + 1" by auto
  with \<open>a \<noteq> s\<close> Suc.IH [OF le] show ?case by (simp add: Let_def)
qed auto

lemma safestrcpy_loop_cstr:
  assumes "cstr_at m t xs" and "\<And>i. i \<le> length xs \<Longrightarrow> Suc n \<le> unat (t + of_nat i - s)" and "Suc n < 2 ^ 32"
  shows "cstr_at (safestrcpy_loop m s t n) s (take n xs)"
  using assms
proof (induction n arbitrary: m s t xs)
  case (Suc n)
  let ?m = "m(s := m t)"
  show ?case
  proof (cases xs)
    case Nil
    with Suc.prems(1) show ?thesis by (simp add: Let_def)
  next
    case (Cons x ys)
    have far: "Suc (Suc n) \<le> unat (t + 1 + of_nat i - s)" if "i \<le> length ys" for i
      using Suc.prems(2) [of "Suc i"] that Cons by (simp add: algebra_simps)
    then have "t + 1 + of_nat i \<noteq> s" if "i \<le> length ys" for i
      using that by fastforce
    then have src: "cstr_at ?m (t + 1) ys"
      using Suc.prems(1) Cons cstr_at_cong [of ys ?m "t + 1" m] by simp
    have away: "Suc n \<le> unat (t + 1 + of_nat i - (s + 1))" if "i \<le> length ys" for i
      using Suc.prems(2) [of i] that Cons by (simp add: algebra_simps)
    have "cstr_at (safestrcpy_loop ?m (s + 1) (t + 1) n) (s + 1) (take n ys)"
      using Suc.prems(3) by (intro Suc.IH [OF src away]) simp_all
    moreover have "safestrcpy_loop ?m (s + 1) (t + 1) n s = m t"
      using Suc.prems(3) before_range [of "Suc n" s] by (subst safestrcpy_frame) simp_all
    ultimately show ?thesis
      using Suc.prems(1) Cons by (simp add: Let_def)
  qed
qed simp

section \<open>Properties\<close>

text \<open>C28. \<open>memmove\<close> copies overlapping ranges correctly: whenever neither range runs past the
  end of the address space, every destination byte gets the old value of its source byte
  and every other byte is unchanged, for every overlap of the two ranges.\<close>

theorem memmove_overlap:
  assumes "unat src + unat n \<le> 2 ^ 32" and "unat dst + unat n \<le> 2 ^ 32"
  shows "memmove m dst src n = (\<lambda>a. if a - dst < n then m (src + (a - dst)) else m a)"
  using memmove_at [OF assms] by (rule ext)

theorem memmove_overlap_witness:
  "memmove (\<lambda>a. ucast a) 12 10 4 13 = 11 \<and> memmove (\<lambda>a. ucast a) 12 10 4 15 = 13 \<and>
   memmove (\<lambda>a. ucast a) 10 12 4 10 = 12"
  using memmove_overlap [of 10 4 12 "\<lambda>a. ucast a"] memmove_overlap [of 12 4 10 "\<lambda>a. ucast a"]
  by simp

text \<open>C35. \<open>safestrcpy\<close> always terminates the copy: given a destination of \<open>n > 0\<close> bytes away
  from the source string, it leaves there the source string cut to \<open>n - 1\<close> bytes, 0
  terminated, and writes no byte outside the \<open>n\<close> bytes of the destination.\<close>

theorem safestrcpy_terminated:
  assumes "cstr_at m t xs" and "0 < n" and "n < 2 ^ 31"
    and "\<And>i. i \<le> length xs \<Longrightarrow> n \<le> int (unat (t + of_nat i - s))"
  shows "cstr_at (safestrcpy m s t n) s (take (nat n - 1) xs) \<and>
     (\<forall>a. n \<le> int (unat (a - s)) \<longrightarrow> safestrcpy m s t n a = m a)"
proof -
  have k: "Suc (nat n - 1) = nat n" using assms(2) by simp
  have "cstr_at (safestrcpy_loop m s t (nat n - 1)) s (take (nat n - 1) xs)"
    using assms k by (intro safestrcpy_loop_cstr) (auto simp: nat_le_iff)
  moreover have "safestrcpy_loop m s t (nat n - 1) a = m a" if "n \<le> int (unat (a - s))" for a
    using that k by (intro safestrcpy_frame) (simp add: nat_le_iff)
  moreover have "safestrcpy m s t n = safestrcpy_loop m s t (nat n - 1)"
    using assms(2) by (simp add: safestrcpy_def nat_diff_distrib')
  ultimately show ?thesis by simp
qed

theorem safestrcpy_terminated_witness:
  "cstr_at (safestrcpy ((\<lambda>_. 0)(100 := 65, 101 := 66, 102 := 67)) 200 100 3) 200 [65, 66]"
proof -
  have "3 \<le> int (unat (100 + of_nat i - 200 :: u32))" if "i \<le> length [65, 66, 67 :: u8]" for i
  proof -
    from that have "i = 0 \<or> i = 1 \<or> i = 2 \<or> i = 3" by auto
    then show ?thesis by auto
  qed
  with safestrcpy_terminated [of "(\<lambda>_. 0)(100 := 65, 101 := 66, 102 := 67)" 100 "[65, 66, 67]" 3 200]
  show ?thesis by simp
qed

end
