(* ===== verification/Kalloc.thy ===== *)
theory Kalloc
  imports Kcore Cstring
begin

text \<open>
  The physical page allocator \<open>src/HW3/kalloc.c\<close>: kernel memory, the free list threaded
  through the first word of each free page, \<open>kinit1\<close>, \<open>kinit2\<close>, \<open>freerange\<close>, \<open>kfree\<close> and
  \<open>kalloc\<close>. \<open>kend\<close> and \<open>kdata\<close> are the linker symbols \<open>end\<close> and \<open>data\<close>, fixed by the build. The locale
  \<open>page_allocator\<close> is the contract the callers of the allocator rely on.
\<close>

section \<open>State\<close>

record kphys = kcore +
  mem :: memory
  kend :: u32
  kdata :: u32
  kmem_use_lock :: bool
  kmem_freelist :: u32

definition PGSIZE :: u32 where "PGSIZE = 4096"
definition PHYSTOP :: u32 where "PHYSTOP = 0xE000000"

definition PGROUNDUP :: "u32 \<Rightarrow> u32" where
  "PGROUNDUP sz = (sz + PGSIZE - 1) AND NOT (PGSIZE - 1)"

definition PGROUNDDOWN :: "u32 \<Rightarrow> u32" where
  "PGROUNDDOWN a = a AND NOT (PGSIZE - 1)"

section \<open>Operations\<close>

definition kmem_acquire :: "('z kphys_scheme, unit) prog" where
  "kmem_acquire = kbind (kget kmem_use_lock) (\<lambda>u. kwhen u (acquire KmemLock))"

definition kmem_release :: "('z kphys_scheme, unit) prog" where
  "kmem_release = kbind (kget kmem_use_lock) (\<lambda>u. kwhen u (release KmemLock))"

definition kfree :: "u32 \<Rightarrow> ('z kphys_scheme, unit) prog" where
  "kfree v =
     kseq [panic_if (\<lambda>s. v mod PGSIZE \<noteq> 0 \<or> v < kend s \<or> PHYSTOP \<le> v2p v) ''kfree'',
           kmod (\<lambda>s. s\<lparr>mem := memset (mem s) v 1 PGSIZE\<rparr>),
           kmem_acquire,
           kmod (\<lambda>s. s\<lparr>mem := store32 (mem s) v (kmem_freelist s)\<rparr>),
           kmod (\<lambda>s. s\<lparr>kmem_freelist := v\<rparr>),
           kmem_release]"

definition kalloc :: "('z kphys_scheme, u32) prog" where
  "kalloc =
     kbind kmem_acquire (\<lambda>_.
     kbind (kget kmem_freelist) (\<lambda>r.
     kbind (kwhen (r \<noteq> 0) (kmod (\<lambda>s. s\<lparr>kmem_freelist := load32 (mem s) r\<rparr>))) (\<lambda>_.
     kbind kmem_release (\<lambda>_.
     kret r))))"

text \<open>A page \<open>kfree\<close> accepts.\<close>

definition page_ok :: "u32 \<Rightarrow> u32 \<Rightarrow> bool" where
  "page_ok e v \<longleftrightarrow> v mod PGSIZE = 0 \<and> e \<le> v \<and> v2p v < PHYSTOP"

lemma aligned_unat: "v mod PGSIZE = 0 \<longleftrightarrow> unat v mod 4096 = 0"
proof -
  have "unat (v mod PGSIZE) = unat v mod 4096" by (simp add: PGSIZE_def unat_mod)
  then show ?thesis by (metis unat_eq_0)
qed

lemma kfree_Ret_page: "kfree v s = Ret x t \<Longrightarrow> page_ok (kend s) v"
  by (auto simp: kfree_def kbind_eq_Ret page_ok_def not_less split: if_splits)

lemma page_ok_bounds: "page_ok e v \<Longrightarrow> 0x80000000 \<le> unat v \<and> unat v + 4096 \<le> 0x8E000000"
proof -
  assume ok: "page_ok e v"
  then have "v2p v < 0xE000000" "unat v mod 4096 = 0"
    using aligned_unat [of v] by (simp_all add: page_ok_def PHYSTOP_def PGSIZE_def)
  moreover from this(1) have "unat v < 0x8E000000 \<and> 0x80000000 \<le> unat v"
    using unsigned_less [of v, where 'a = nat]
    by (simp add: v2p_def KERNBASE_V_def word_less_nat_alt unat_sub_if' split: if_splits)
  ultimately show ?thesis by (auto simp: mod_eq_0_iff_dvd elim!: dvdE)
qed

lemma page_ok_nonzero: "page_ok e v \<Longrightarrow> v \<noteq> 0"
  using page_ok_bounds [of e v] by auto

text \<open>
  The loop of \<open>freerange\<close>. It ends because \<open>kfree\<close> panics on an address at the end of
  the address space, before \<open>p\<close> could wrap around.
\<close>

function freerange_loop :: "u32 \<Rightarrow> u32 \<Rightarrow> ('z kphys_scheme, unit) prog" where
  "freerange_loop p vend s =
     (if p + PGSIZE \<le> vend then
        (case kfree p s of
           Ret _ t \<Rightarrow> freerange_loop (p + PGSIZE) vend t
         | Panic e \<Rightarrow> Panic e | Swtch t \<Rightarrow> Swtch t | Spin l t \<Rightarrow> Spin l t)
      else Ret () s)"
  by pat_completeness auto
termination
proof (relation "measure (\<lambda>(p, vend, s). 2 ^ 32 - unat p)", simp)
  fix p vend :: u32 and s t :: "'z kphys_scheme" and x
  assume "kfree p s = Ret x t"
  from page_ok_bounds [OF kfree_Ret_page [OF this]]
  show "((p + PGSIZE, vend, t), (p, vend, s)) \<in> measure (\<lambda>(p, vend, s). 2 ^ 32 - unat p)"
    by (auto simp: PGSIZE_def unat_word_ariths intro!: diff_less_mono2)
qed

declare freerange_loop.simps [simp del]

definition freerange :: "u32 \<Rightarrow> u32 \<Rightarrow> ('z kphys_scheme, unit) prog" where
  "freerange vstart vend = freerange_loop (PGROUNDUP vstart) vend"

definition kinit1 :: "u32 \<Rightarrow> u32 \<Rightarrow> ('z kphys_scheme, unit) prog" where
  "kinit1 vstart vend =
     kseq [kmod (\<lambda>s. s\<lparr>kmem_use_lock := False\<rparr>), freerange vstart vend]"

definition kinit2 :: "u32 \<Rightarrow> u32 \<Rightarrow> ('z kphys_scheme, unit) prog" where
  "kinit2 vstart vend =
     kseq [freerange vstart vend, kmod (\<lambda>s. s\<lparr>kmem_use_lock := True\<rparr>)]"

section \<open>The contract of the allocator\<close>

text \<open>
  A client's history with an allocator: it allocates, frees pages it owns, and writes
  into pages it owns.
\<close>

inductive page_run ::
  "('s, 'p) prog \<Rightarrow> ('p \<Rightarrow> ('s, unit) prog) \<Rightarrow> 'p \<Rightarrow> ('p \<Rightarrow> 's \<Rightarrow> 's \<Rightarrow> bool) \<Rightarrow> 's \<Rightarrow> 's \<Rightarrow> 'p list \<Rightarrow> bool"
  for alloc free null wr s0 where
  start: "page_run alloc free null wr s0 s0 []"
| got: "page_run alloc free null wr s0 s ps \<Longrightarrow> alloc s = Ret p t \<Longrightarrow> p \<noteq> null \<Longrightarrow>
    page_run alloc free null wr s0 t (p # ps)"
| none: "page_run alloc free null wr s0 s ps \<Longrightarrow> alloc s = Ret null t \<Longrightarrow>
    page_run alloc free null wr s0 t ps"
| freed: "page_run alloc free null wr s0 s ps \<Longrightarrow> p \<in> set ps \<Longrightarrow> free p s = Ret () t \<Longrightarrow>
    page_run alloc free null wr s0 t (remove1 p ps)"
| wrote: "page_run alloc free null wr s0 s ps \<Longrightarrow> p \<in> set ps \<Longrightarrow> wr p s t \<Longrightarrow>
    page_run alloc free null wr s0 t ps"

locale page_allocator =
  fixes alloc :: "('s, 'p) prog"
    and free :: "'p \<Rightarrow> ('s, unit) prog"
    and null :: 'p
    and wr :: "'p \<Rightarrow> 's \<Rightarrow> 's \<Rightarrow> bool"
    and page :: "'p \<Rightarrow> bool"
    and inv :: "'s \<Rightarrow> 'p list \<Rightarrow> bool"
  assumes inv_pages: "inv s xs \<Longrightarrow> distinct xs \<and> (\<forall>x\<in>set xs. page x) \<and> null \<notin> set xs"
    and alloc_some: "inv s (x # xs) \<Longrightarrow> \<exists>t. alloc s = Ret x t \<and> inv t xs"
    and alloc_none: "inv s [] \<Longrightarrow> \<exists>t. alloc s = Ret null t \<and> inv t []"
    and free_ok: "inv s xs \<Longrightarrow> page x \<Longrightarrow> x \<notin> set xs \<Longrightarrow> \<exists>t. free x s = Ret () t \<and> inv t (x # xs)"
    and wr_ok: "inv s xs \<Longrightarrow> page x \<Longrightarrow> x \<notin> set xs \<Longrightarrow> wr x s t \<Longrightarrow> inv t xs"
begin

lemma run_owned:
  assumes "page_run alloc free null wr s0 s ps" and "inv s0 xs"
  shows "\<exists>ys. inv s ys \<and> distinct (ys @ ps) \<and> set ys \<union> set ps = set xs"
  using assms(1)
proof induction
  case start
  show ?case using assms(2) inv_pages by (intro exI [of _ xs]) auto
next
  case (got s ps p t)
  then obtain ys where ys: "inv s ys" "distinct (ys @ ps)" "set ys \<union> set ps = set xs" by blast
  have "ys \<noteq> []" using got.hyps alloc_none [of s] ys(1) by auto
  then obtain z zs where "ys = z # zs" by (cases ys) auto
  with ys got.hyps alloc_some [of s z zs] have "p = z" "inv t zs" by auto
  with ys \<open>ys = z # zs\<close> show ?case by (intro exI [of _ zs]) auto
next
  case (none s ps t)
  then obtain ys where ys: "inv s ys" "distinct (ys @ ps)" "set ys \<union> set ps = set xs" by blast
  moreover have "ys = []"
  proof (rule ccontr)
    assume "ys \<noteq> []"
    then obtain z zs where "ys = z # zs" by (cases ys) auto
    with ys(1) none.hyps alloc_some [of s z zs] inv_pages [of s ys] show False by auto
  qed
  ultimately show ?case using alloc_none [of s] none.hyps by (intro exI [of _ ys]) auto
next
  case (freed s ps p t)
  then obtain ys where ys: "inv s ys" "distinct (ys @ ps)" "set ys \<union> set ps = set xs" by blast
  then have "page p" "p \<notin> set ys" using freed.hyps inv_pages [OF assms(2)] by auto
  with ys freed.hyps free_ok [of s ys p] have "inv t (p # ys)" by auto
  with ys freed.hyps show ?case by (intro exI [of _ "p # ys"]) auto
next
  case (wrote s ps p t)
  then obtain ys where ys: "inv s ys" "distinct (ys @ ps)" "set ys \<union> set ps = set xs" by blast
  then have "page p" "p \<notin> set ys" using wrote.hyps inv_pages [OF assms(2)] by auto
  with ys wrote.hyps wr_ok show ?case by blast
qed

text \<open>An allocation fails only when the client owns every page.\<close>

lemma run_fails_only_when_full:
  assumes "page_run alloc free null wr s0 s ps" and "inv s0 xs"
  shows "\<exists>p t. alloc s = Ret p t \<and> (p = null \<longleftrightarrow> set ps = set xs)"
proof -
  obtain ys where ys: "inv s ys" "distinct (ys @ ps)" "set ys \<union> set ps = set xs"
    using run_owned [OF assms] by blast
  show ?thesis
  proof (cases ys)
    case Nil
    with ys alloc_none show ?thesis by auto
  next
    case (Cons z zs)
    with ys alloc_some [of s z zs] inv_pages [of s ys] show ?thesis by fastforce
  qed
qed

end

section \<open>The free list\<close>

fun freelist_at :: "memory \<Rightarrow> u32 \<Rightarrow> u32 list \<Rightarrow> bool" where
  "freelist_at m p [] \<longleftrightarrow> p = 0"
| "freelist_at m p (x # xs) \<longleftrightarrow> p = x \<and> x \<noteq> 0 \<and> freelist_at m (load32 m x) xs"

text \<open>\<open>kmem_inv e s xs\<close>: the free list holds the pages \<open>xs\<close>, in this order, all above \<open>e\<close>.\<close>

definition kmem_inv :: "u32 \<Rightarrow> 'z kphys_scheme \<Rightarrow> u32 list \<Rightarrow> bool" where
  "kmem_inv e s xs \<longleftrightarrow> kend s = e \<and> freelist_at (mem s) (kmem_freelist s) xs \<and> distinct xs \<and>
     (\<forall>x\<in>set xs. page_ok e x) \<and> (kmem_use_lock s \<longrightarrow> lock_free KmemLock s)"

text \<open>A write into one page.\<close>

definition page_write :: "u32 \<Rightarrow> 'z kphys_scheme \<Rightarrow> 'z kphys_scheme \<Rightarrow> bool" where
  "page_write p s t \<longleftrightarrow> (\<exists>m. t = s\<lparr>mem := m\<rparr> \<and> (\<forall>a. \<not> a - p < PGSIZE \<longrightarrow> m a = mem s a))"

lemma page_offset:
  assumes "x mod PGSIZE = 0" and "a - x < PGSIZE"
  shows "unat a div 4096 = unat x div 4096"
proof -
  have x: "unat x mod 4096 = 0" using assms(1) aligned_unat by simp
  moreover have "unat x < 2 ^ 32" using unsigned_less [of x, where 'a = nat] by simp
  ultimately have "unat x + 4096 \<le> 2 ^ 32" by (auto simp: mod_eq_0_iff_dvd elim!: dvdE)
  moreover have o: "unat (a - x) < 4096" using assms(2) by (simp add: PGSIZE_def word_less_nat_alt)
  ultimately have "unat (x + (a - x)) = unat x + unat (a - x)"
    by (subst unat_word_ariths) simp
  then have "unat a = unat x + unat (a - x)" by simp
  with x o show ?thesis by (simp add: div_add1_eq)
qed

lemma pages_disjoint:
  assumes "x mod PGSIZE = 0" and "y mod PGSIZE = 0" and "a - x < PGSIZE" and "a - y < PGSIZE"
  shows "x = y"
proof -
  have "unat x div 4096 = unat y div 4096" "unat x mod 4096 = 0" "unat y mod 4096 = 0"
    using assms page_offset [of x a] page_offset [of y a] aligned_unat by auto
  then have "unat x = unat y" using div_mult_mod_eq [of "unat x" 4096] div_mult_mod_eq [of "unat y" 4096] by simp
  then show ?thesis by (simp add: word_unat_eq_iff)
qed

lemma freelist_at_cong:
  assumes "freelist_at m p xs" and "\<And>x a. x \<in> set xs \<Longrightarrow> a - x < PGSIZE \<Longrightarrow> m' a = m a"
  shows "freelist_at m' p xs"
  using assms
proof (induction xs arbitrary: p)
  case (Cons x xs)
  have "unat i < 4 \<Longrightarrow> x + i - x < PGSIZE" for i
    by (simp add: PGSIZE_def word_less_nat_alt)
  then have "load32 m' x = load32 m x"
    using Cons.prems(2) [of x] by (intro load32_cong) auto
  moreover have "freelist_at m' (load32 m x) xs"
    using Cons.prems(1) Cons.prems(2) by (intro Cons.IH) auto
  ultimately show ?case using Cons.prems(1) by simp
qed simp

lemma freelist_outside:
  assumes "freelist_at m p xs" and "\<forall>x\<in>set xs. page_ok e x" and "page_ok e v" and "v \<notin> set xs"
    and "\<And>a. \<not> a - v < PGSIZE \<Longrightarrow> m' a = m a"
  shows "freelist_at m' p xs"
proof (rule freelist_at_cong [OF assms(1)])
  fix x a
  assume x: "x \<in> set xs" "a - x < PGSIZE"
  have "\<not> a - v < PGSIZE"
    using x assms(2-4) pages_disjoint [of x v a] by (auto simp: page_ok_def)
  then show "m' a = m a" by (rule assms(5))
qed

lemma lock_free_kphys [simp]:
  "lock_free lk (s\<lparr>mem := m\<rparr>) = lock_free lk s"
  "lock_free lk (s\<lparr>kmem_freelist := p\<rparr>) = lock_free lk s"
  "lock_free lk (s\<lparr>kmem_use_lock := u\<rparr>) = lock_free lk s"
  by (simp_all add: lock_free_def)

lemma kalloc_eq:
  assumes "kmem_use_lock s \<longrightarrow> lock_free KmemLock s"
  shows "kalloc s = Ret (kmem_freelist s)
    (if kmem_freelist s = 0 then s else s\<lparr>kmem_freelist := load32 (mem s) (kmem_freelist s)\<rparr>)"
  using assms by (cases "kmem_use_lock s") (simp_all add: prog_simps kalloc_def kmem_acquire_def kmem_release_def)

definition freed :: "u32 \<Rightarrow> 'z kphys_scheme \<Rightarrow> 'z kphys_scheme" where
  "freed v s = s\<lparr>mem := store32 (memset (mem s) v 1 PGSIZE) v (kmem_freelist s), kmem_freelist := v\<rparr>"

lemma kfree_eq:
  assumes "kmem_use_lock s \<longrightarrow> lock_free KmemLock s" and "page_ok (kend s) v"
  shows "kfree v s = Ret () (freed v s)"
proof -
  have "\<not> (v mod PGSIZE \<noteq> 0 \<or> v < kend s \<or> PHYSTOP \<le> v2p v)"
    using assms(2) by (auto simp: page_ok_def)
  with assms(1) show ?thesis
    by (cases "kmem_use_lock s") (simp_all add: prog_simps kfree_def kmem_acquire_def kmem_release_def freed_def)
qed

lemma freed_outside: "\<not> a - v < PGSIZE \<Longrightarrow> mem (freed v s) a = mem s a"
proof -
  assume a: "\<not> a - v < PGSIZE"
  then have "4 \<le> unat (a - v)" by (simp add: PGSIZE_def word_less_nat_alt)
  with a show ?thesis by (simp add: freed_def store32_other memset_at)
qed

lemma freed_simps [simp]:
  "kend (freed v s) = kend s" "kmem_freelist (freed v s) = v" "kmem_use_lock (freed v s) = kmem_use_lock s"
  "lock_free lk (freed v s) = lock_free lk s" "load32 (mem (freed v s)) v = kmem_freelist s"
  "held (freed v s) = held s" "others (freed v s) = others s" "procs (freed v s) = procs s"
  by (simp_all add: freed_def)

lemma kmem_inv_freed:
  assumes "kmem_inv e s xs" and "page_ok e v" and "v \<notin> set xs"
  shows "kmem_inv e (freed v s) (v # xs)"
proof -
  have "freelist_at (mem (freed v s)) (kmem_freelist s) xs"
    by (rule freelist_outside [of "mem s" _ _ e v])
       (use assms in \<open>simp_all add: kmem_inv_def freed_outside\<close>)
  then show ?thesis
    using assms page_ok_nonzero [OF assms(2)] by (simp add: kmem_inv_def)
qed

interpretation km: page_allocator kalloc kfree 0 page_write "page_ok e" "kmem_inv e :: 'z kphys_scheme \<Rightarrow> _" for e
proof
  fix s :: "'z kphys_scheme" and xs
  assume inv: "kmem_inv e s xs"
  then show "distinct xs \<and> (\<forall>x\<in>set xs. page_ok e x) \<and> 0 \<notin> set xs"
    using page_ok_nonzero [of e 0] by (auto simp: kmem_inv_def)
  fix x
  assume x: "page_ok e x" "x \<notin> set xs"
  then show "\<exists>t. kfree x s = Ret () t \<and> kmem_inv e t (x # xs)"
    using inv kmem_inv_freed [OF inv x] kfree_eq [of s x] by (simp add: kmem_inv_def)
  fix t
  assume "page_write x s t"
  then obtain m where t: "t = s\<lparr>mem := m\<rparr>" and m: "\<And>a. \<not> a - x < PGSIZE \<Longrightarrow> m a = mem s a"
    unfolding page_write_def by blast
  have "freelist_at m (kmem_freelist s) xs"
    by (rule freelist_outside [of "mem s" _ _ e x]) (use inv x m in \<open>simp_all add: kmem_inv_def\<close>)
  with t inv show "kmem_inv e t xs" by (simp add: kmem_inv_def)
next
  fix s :: "'z kphys_scheme" and x xs
  assume "kmem_inv e s (x # xs)"
  then show "\<exists>t. kalloc s = Ret x t \<and> kmem_inv e t xs"
    by (auto simp: kmem_inv_def kalloc_eq lock_free_def)
next
  fix s :: "'z kphys_scheme"
  assume "kmem_inv e s []"
  then show "\<exists>t. kalloc s = Ret 0 t \<and> kmem_inv e t []"
    by (auto simp: kmem_inv_def kalloc_eq)
qed

section \<open>Filling the free list at boot\<close>

lemma unat_rounddown: "unat (PGROUNDDOWN a) = unat a div 4096 * 4096"
proof -
  have m: "PGSIZE - 1 = mask 12" by (simp add: PGSIZE_def mask_eq_exp_minus_1)
  have "PGROUNDDOWN a = push_bit 12 (drop_bit 12 a)"
    unfolding PGROUNDDOWN_def m by (rule bit_word_eqI) (auto simp: bit_simps)
  then have "unat (PGROUNDDOWN a) = take_bit 32 (unat a div 4096 * 4096)"
    by (simp add: push_bit_eq_mult drop_bit_eq_div unat_word_ariths unat_div mult.commute
        take_bit_eq_mod mod_mult_right_eq)
  moreover have "unat a div 4096 * 4096 \<le> unat a" by simp
  then have "unat a div 4096 * 4096 < 2 ^ 32"
    using unsigned_less [of a, where 'a = nat] by simp
  ultimately show ?thesis by (simp add: take_bit_nat_eq_self)
qed

lemma PGROUNDUP_down: "PGROUNDUP a = PGROUNDDOWN (a + 4095)"
  by (simp add: PGROUNDUP_def PGROUNDDOWN_def PGSIZE_def algebra_simps)

lemma rounddown_aligned [simp]: "PGROUNDDOWN a mod PGSIZE = 0" "PGROUNDUP a mod PGSIZE = 0"
  using aligned_unat by (auto simp: unat_rounddown PGROUNDUP_down)

lemma unat_roundup:
  "unat a + 4095 < 2 ^ 32 \<Longrightarrow> unat (PGROUNDUP a) = (unat a + 4095) div 4096 * 4096"
  by (simp add: PGROUNDUP_down unat_rounddown unat_word_ariths)

fun pages_from :: "u32 \<Rightarrow> nat \<Rightarrow> u32 list" where
  "pages_from p 0 = []"
| "pages_from p (Suc n) = p # pages_from (p + PGSIZE) n"

lemma pages_from_set:
  assumes "unat p + 4096 * n < 2 ^ 32" and "unat p mod 4096 = 0"
  shows "v \<in> set (pages_from p n) \<longleftrightarrow> v mod PGSIZE = 0 \<and> unat p \<le> unat v \<and> unat v < unat p + 4096 * n"
  using assms
proof (induction n arbitrary: p)
  case (Suc n)
  have "unat (p + PGSIZE) = unat p + 4096"
    using Suc.prems by (simp add: PGSIZE_def unat_word_ariths)
  moreover have "unat p = unat v \<or> unat p + 4096 \<le> unat v" if "unat p \<le> unat v" "v mod PGSIZE = 0"
    using that Suc.prems(2) aligned_unat [of v] by (auto simp: mod_eq_0_iff_dvd elim!: dvdE)
  ultimately show ?case
    using Suc.IH [of "p + PGSIZE"] Suc.prems aligned_unat [of v]
    by (auto simp: word_unat_eq_iff)
qed simp

lemma freerange_loop_pages:
  assumes "kmem_inv e s xs" and "unat e \<le> unat p" and "0x80000000 \<le> unat p" and "unat p mod 4096 = 0"
    and "unat vend = unat p + 4096 * n + r" and "r < 4096" and "unat vend \<le> 0x8E000000"
    and "\<forall>x\<in>set xs. unat x < unat p"
  shows "\<exists>t. freerange_loop p vend s = Ret () t \<and> kmem_inv e t (rev (pages_from p n) @ xs) \<and>
    held t = held s \<and> others t = others s \<and> kmem_use_lock t = kmem_use_lock s"
  using assms
proof (induction n arbitrary: p s xs)
  case 0
  then have "\<not> p + PGSIZE \<le> vend"
    by (simp add: word_le_nat_alt PGSIZE_def unat_word_ariths)
  with 0 show ?case by (simp add: freerange_loop.simps [of p])
next
  case (Suc n)
  have u: "unat (p + PGSIZE) = unat p + 4096"
    using Suc.prems(5,7) by (simp add: PGSIZE_def unat_word_ariths)
  have "unat (v2p p) < unat PHYSTOP"
    using Suc.prems(3,5,7) by (simp add: v2p_def KERNBASE_V_def PHYSTOP_def unat_sub_if')
  then have ok: "page_ok e p"
    using Suc.prems(2,4) aligned_unat [of p] by (simp add: page_ok_def word_le_nat_alt word_less_nat_alt)
  have new: "p \<notin> set xs" using Suc.prems(8) by auto
  have "\<exists>t. freerange_loop (p + PGSIZE) vend (freed p s) = Ret () t \<and>
      kmem_inv e t (rev (pages_from (p + PGSIZE) n) @ p # xs) \<and>
      held t = held (freed p s) \<and> others t = others (freed p s) \<and> kmem_use_lock t = kmem_use_lock (freed p s)"
    by (rule Suc.IH [OF kmem_inv_freed [OF Suc.prems(1) ok new]])
       (use Suc.prems u in auto)
  moreover have "kfree p s = Ret () (freed p s)"
    using Suc.prems(1) ok by (intro kfree_eq) (auto simp: kmem_inv_def)
  moreover have "p + PGSIZE \<le> vend"
    using Suc.prems(5) u by (simp add: word_le_nat_alt)
  ultimately show ?case
    by (simp add: freerange_loop.simps [of p])
qed

lemma freerange_pages:
  assumes "kmem_inv e s xs" and "unat e \<le> unat a" and "0x80000000 \<le> unat a" and "unat a \<le> unat vend"
    and "unat vend mod 4096 = 0" and "unat vend \<le> 0x8E000000" and "\<forall>x\<in>set xs. unat x < unat a"
  shows "\<exists>t ys. freerange a vend s = Ret () t \<and> kmem_inv e t ys \<and> held t = held s \<and> others t = others s \<and> kmem_use_lock t = kmem_use_lock s \<and>
    (\<forall>v. v \<in> set ys \<longleftrightarrow> v \<in> set xs \<or> v mod PGSIZE = 0 \<and> unat a \<le> unat v \<and> unat v < unat vend)"
proof -
  define p where "p = PGROUNDUP a"
  have p: "unat p = (unat a + 4095) div 4096 * 4096"
    unfolding p_def using assms(4,6) by (intro unat_roundup) simp
  have ap: "unat a \<le> unat p" "unat p mod 4096 = 0" unfolding p by auto
  obtain k where k: "unat vend = 4096 * k" using assms(5) by (auto simp: mod_eq_0_iff_dvd)
  define n where "n = k - (unat a + 4095) div 4096"
  have le: "(unat a + 4095) div 4096 \<le> k" using assms(4) k by linarith
  then have n: "unat vend = unat p + 4096 * n + 0" using k p by (simp add: n_def algebra_simps)
  have ex: "\<exists>t. freerange_loop p vend s = Ret () t \<and> kmem_inv e t (rev (pages_from p n) @ xs) \<and>
    held t = held s \<and> others t = others s \<and> kmem_use_lock t = kmem_use_lock s"
    by (rule freerange_loop_pages [OF assms(1) _ _ ap(2) n]) (use assms ap in fastforce)+
  have eq: "v mod PGSIZE = 0 \<and> unat p \<le> unat v \<longleftrightarrow> v mod PGSIZE = 0 \<and> unat a \<le> unat v" for v
    using ap p aligned_unat [of v] by (auto simp: mod_eq_0_iff_dvd elim!: dvdE)
  have lt: "unat p + 4096 * n < 2 ^ 32" using n assms(6) by simp
  have "v \<in> set (rev (pages_from p n) @ xs) \<longleftrightarrow>
      v \<in> set xs \<or> v mod PGSIZE = 0 \<and> unat a \<le> unat v \<and> unat v < unat vend" for v
    unfolding set_append set_rev Un_iff pages_from_set [OF lt ap(2)] using eq [of v] n by (metis add_0_right)
  with ex show ?thesis unfolding freerange_def p_def [symmetric] by blast
qed

section \<open>Properties\<close>

lemma kmem_inv_use_lock:
  "kmem_inv e s xs \<Longrightarrow> (u \<Longrightarrow> lock_free KmemLock s) \<Longrightarrow> kmem_inv e (s\<lparr>kmem_use_lock := u\<rparr>) xs"
  by (simp add: kmem_inv_def)

lemma page_ok_iff:
  assumes "0x80000000 \<le> unat e"
  shows "page_ok e v \<longleftrightarrow> v mod PGSIZE = 0 \<and> unat e \<le> unat v \<and> unat v < 0x8E000000"
proof -
  have "v2p v < PHYSTOP \<longleftrightarrow> unat v < 0x8E000000" if "unat e \<le> unat v"
    using that assms by (simp add: word_less_nat_alt v2p_def KERNBASE_V_def PHYSTOP_def unat_sub_if'
        less_diff_conv2)
  then show ?thesis unfolding page_ok_def word_le_nat_alt by blast
qed

text \<open>C25. Filling the free list: \<open>kinit1\<close>, called by \<open>main\<close> on the memory from the end of the
  kernel to 4 MB with an empty list, puts exactly the whole pages of that range on the list.
  \<open>kinit2\<close>, called on the memory from 4 MB to \<open>PHYSTOP\<close> in any later state, whatever
  pages below 4 MB have been taken from the list meanwhile, adds exactly the
  pages of its range to those left on the list and turns locking on. The list is well formed, each
  page on it once, and no call panics.\<close>

theorem kinit_frees_every_page:
  fixes s :: "'z kphys_scheme"
  assumes "kmem_inv e s []" and "0x80000000 \<le> e" and "e \<le> 0x80400000"
  shows "(\<exists>t xs. kinit1 e (p2v 0x400000) s = Ret () t \<and> held t = held s \<and> others t = others s \<and> \<not> kmem_use_lock t \<and>
        kmem_inv e t xs \<and>
        (\<forall>v. v \<in> set xs \<longleftrightarrow> page_ok e v \<and> v < p2v 0x400000)) \<and>
     (\<forall>(u :: 'z kphys_scheme) ys. kmem_inv e u ys \<and> (\<forall>v \<in> set ys. v < p2v 0x400000) \<and> lock_free KmemLock u \<longrightarrow>
        (\<exists>w zs. kinit2 (p2v 0x400000) (p2v PHYSTOP) u = Ret () w \<and> kmem_use_lock w \<and> kmem_inv e w zs \<and>
           (\<forall>v. v \<in> set zs \<longleftrightarrow> v \<in> set ys \<or> page_ok e v \<and> p2v 0x400000 \<le> v)))"
proof -
  have b: "unat (p2v 0x400000) = 0x80400000" "unat (p2v PHYSTOP) = 0x8E000000"
    by (simp_all add: p2v_def KERNBASE_V_def PHYSTOP_def)
  have e: "kend s = e" "0x80000000 \<le> unat e" "unat e \<le> 0x80400000"
    using assms by (simp_all add: kmem_inv_def word_le_nat_alt)
  have below: "(0x80400000 :: nat) < 0x8E000000" by simp
  let ?s = "s\<lparr>kmem_use_lock := False\<rparr>"
  obtain t xs where t: "freerange e (p2v 0x400000) ?s = Ret () t" "kmem_inv e t xs" "kmem_use_lock t = kmem_use_lock ?s"
    "held t = held ?s" "others t = others ?s"
    "\<forall>v. v \<in> set xs \<longleftrightarrow> v \<in> set [] \<or> v mod PGSIZE = 0 \<and> unat e \<le> unat v \<and> unat v < 0x80400000"
    using freerange_pages [OF kmem_inv_use_lock [OF assms(1), of False], of e "p2v 0x400000"] b e by auto
  have "v \<in> set xs \<longleftrightarrow> page_ok e v \<and> v < p2v 0x400000" for v
    unfolding page_ok_iff [OF e(2)] word_less_nat_alt b t(6) [rule_format] list.set empty_iff
    using less_trans [of "unat v" "0x80400000" "0x8E000000", OF _ below] by blast
  with t(1-5) have 1: "\<exists>t xs. kinit1 e (p2v 0x400000) s = Ret () t \<and> held t = held s \<and> others t = others s \<and> \<not> kmem_use_lock t \<and>
        kmem_inv e t xs \<and>
        (\<forall>v. v \<in> set xs \<longleftrightarrow> page_ok e v \<and> v < p2v 0x400000)"
    by (intro exI [of _ t] exI [of _ xs]) (simp add: kinit1_def)
  have 2: "\<exists>w zs. kinit2 (p2v 0x400000) (p2v PHYSTOP) u = Ret () w \<and> kmem_use_lock w \<and> kmem_inv e w zs \<and>
           (\<forall>v. v \<in> set zs \<longleftrightarrow> v \<in> set ys \<or> page_ok e v \<and> p2v 0x400000 \<le> v)"
    if u: "kmem_inv e u ys" "\<forall>v \<in> set ys. v < p2v 0x400000" "lock_free KmemLock u" for u :: "'z kphys_scheme" and ys
  proof -
    have "\<forall>v \<in> set ys. unat v < unat (p2v 0x400000)" using u(2) by (simp add: word_less_nat_alt)
    then obtain w zs where w: "freerange (p2v 0x400000) (p2v PHYSTOP) u = Ret () w" "kmem_inv e w zs"
      "held w = held u" "others w = others u"
      "\<forall>v. v \<in> set zs \<longleftrightarrow> v \<in> set ys \<or> v mod PGSIZE = 0 \<and> 0x80400000 \<le> unat v \<and> unat v < 0x8E000000"
      using freerange_pages [OF u(1), of "p2v 0x400000" "p2v PHYSTOP"] b e by auto
    have "lock_free KmemLock w" using w(3,4) u(3) by (simp add: lock_free_def)
    then have "kmem_inv e (w\<lparr>kmem_use_lock := True\<rparr>) zs" by (intro kmem_inv_use_lock [OF w(2)])
    moreover have "v \<in> set zs \<longleftrightarrow> v \<in> set ys \<or> page_ok e v \<and> p2v 0x400000 \<le> v" for v
      unfolding page_ok_iff [OF e(2)] word_le_nat_alt b w(5) [rule_format]
      using order_trans [OF e(3), of "unat v"] by blast
    ultimately show ?thesis
      by (intro exI [of _ "w\<lparr>kmem_use_lock := True\<rparr>"] exI [of _ zs]) (simp add: kinit2_def w(1))
  qed
  show ?thesis by (rule conjI [OF 1], intro allI impI, elim conjE, rule 2, assumption+)
qed

definition boot_phys :: kphys where
  "boot_phys = \<lparr>held = {}, others = {}, procs = [], cur = None, initproc = None, nextpid = 1, ticks = 0,
     kpgdir = 0, cr3 = 0, ts_ss0 = 0, ts_esp0 = 0,
     mem = (\<lambda>_. 0), kend = 0x80115000, kdata = 0x80109000, kmem_use_lock = False, kmem_freelist = 0\<rparr>"

lemma boot_phys_inv: "kmem_inv 0x80115000 boot_phys []" "lock_free KmemLock boot_phys"
  by (simp_all add: kmem_inv_def boot_phys_def lock_free_def)

theorem kinit_frees_every_page_witness:
  "\<exists>t p u w zs. kinit1 0x80115000 (p2v 0x400000) boot_phys = Ret () t \<and> kalloc t = Ret p u \<and> p \<noteq> 0 \<and>
     kinit2 (p2v 0x400000) (p2v PHYSTOP) u = Ret () w \<and> kmem_inv 0x80115000 w zs \<and>
     p \<notin> set zs \<and> 0x8DFFF000 \<in> set zs \<and> 0x80114000 \<notin> set zs"
proof -
  have "(0x80000000 :: u32) \<le> 0x80115000" "(0x80115000 :: u32) \<le> 0x80400000" by simp_all
  note k = kinit_frees_every_page [OF boot_phys_inv(1) this]
  have h: "held boot_phys = {}" "others boot_phys = {}" by (simp_all add: boot_phys_def)
  obtain t xs where t: "kinit1 0x80115000 (p2v 0x400000) boot_phys = Ret () t" "held t = {}" "others t = {}"
    "\<not> kmem_use_lock t" "kmem_inv 0x80115000 t xs" "\<forall>v. v \<in> set xs \<longleftrightarrow> page_ok 0x80115000 v \<and> v < p2v 0x400000"
    using conjunct1 [OF k] unfolding h by blast
  have "0x80115000 \<in> set xs"
    using t(6) by (simp add: page_ok_def PGSIZE_def PHYSTOP_def v2p_def p2v_def KERNBASE_V_def)
  then obtain p ys where xs: "xs = p # ys" by (cases xs) auto
  obtain u where u: "kalloc t = Ret p u" "kmem_inv 0x80115000 u ys"
    using km.alloc_some [of _ t p ys] t(5) xs by blast
  have d: "p \<notin> set ys" "p \<noteq> 0" "\<forall>v \<in> set ys. v < p2v 0x400000" "p < p2v 0x400000" "page_ok 0x80115000 p"
    using km.inv_pages [OF t(5)] t(6) xs by auto
  have "lock_free KmemLock u"
    using u(1) t(2-4) by (auto simp: kalloc_eq lock_free_def split: if_splits)
  with conjunct2 [OF k] u(2) d(3) obtain w zs where w: "kinit2 (p2v 0x400000) (p2v PHYSTOP) u = Ret () w" "kmem_inv 0x80115000 w zs"
    "\<forall>v. v \<in> set zs \<longleftrightarrow> v \<in> set ys \<or> page_ok 0x80115000 v \<and> p2v 0x400000 \<le> v"
    by blast
  have "p \<notin> set zs" using w(3) d(1,4) by auto
  moreover have "0x8DFFF000 \<in> set zs"
    using w(3) by (simp add: page_ok_def PGSIZE_def PHYSTOP_def v2p_def p2v_def KERNBASE_V_def)
  moreover have "0x80114000 \<notin> set zs"
    using w(3) km.inv_pages [OF u(2)] by (auto simp: page_ok_def)
  ultimately show ?thesis using t(1) u(1) d(2) w(1,2) by blast
qed

text \<open>C4. Pages have one owner: over every history of allocations, frees of owned pages and
  arbitrary writes into owned pages, the pages handed out and the pages on the free list
  stay distinct and together are the pages there were at the start; nothing is handed out
  twice or lost, and \<open>kalloc\<close> returns 0 exactly when the client owns every page.\<close>

theorem page_ownership:
  assumes "kmem_inv e s0 xs" and "page_run kalloc kfree 0 page_write s0 s ps"
  shows "(\<exists>ys. kmem_inv e s ys \<and> distinct (ys @ ps) \<and> set ys \<union> set ps = set xs) \<and>
    (\<exists>p t. kalloc s = Ret p t \<and> (p = 0 \<longleftrightarrow> set ps = set xs))"
  using km.run_owned [OF assms(2,1)] km.run_fails_only_when_full [OF assms(2,1)] by blast

definition one_page :: kphys where
  "one_page = boot_phys\<lparr>kmem_freelist := 0x80400000\<rparr>"

lemma one_page_inv: "kmem_inv 0x80115000 one_page [0x80400000]"
  by (simp add: kmem_inv_def one_page_def boot_phys_def load32_def lock_free_def page_ok_def PGSIZE_def
      PHYSTOP_def v2p_def KERNBASE_V_def)

theorem page_ownership_witness:
  "\<exists>t. kalloc one_page = Ret 0x80400000 t \<and> (\<exists>u. kalloc t = Ret 0 u)"
proof -
  obtain t where t: "kalloc one_page = Ret 0x80400000 t"
    using one_page_inv by (auto simp: kmem_inv_def kalloc_eq)
  then have "page_run kalloc kfree 0 page_write one_page t [0x80400000]"
    using page_run.got [OF page_run.start] by fastforce
  from page_ownership [OF one_page_inv this] t show ?thesis by auto
qed

end
