(* ===== verification/Vm.thy ===== *)
theory Vm
  imports Kalloc
begin

text \<open>
  Page tables, \<open>src/HW3/vm.c\<close>, on the kernel memory of theory \<open>Kalloc\<close>: a page directory and
  its page tables are pages of that memory, an entry is a little-endian word. The address
  space a page table gives is read off memory by \<open>pte_of\<close>, the walk the hardware does.
  \<open>loaduvm\<close>, which reads a file, is in theory \<open>Exec\<close>. Console messages are not modelled.
\<close>

section \<open>Entries\<close>

definition PDX :: "u32 \<Rightarrow> u32" where "PDX va = drop_bit 22 va AND 0x3FF"
definition PTX :: "u32 \<Rightarrow> u32" where "PTX va = drop_bit 12 va AND 0x3FF"

definition PTE_P :: u32 where "PTE_P = 1"
definition PTE_W :: u32 where "PTE_W = 2"
definition PTE_U :: u32 where "PTE_U = 4"

definition PTE_ADDR :: "u32 \<Rightarrow> u32" where "PTE_ADDR pte = pte AND NOT 0xFFF"
definition PTE_FLAGS :: "u32 \<Rightarrow> u32" where "PTE_FLAGS pte = pte AND 0xFFF"

definition NPDENTRIES :: nat where "NPDENTRIES = 1024"
definition NPTENTRIES :: u32 where "NPTENTRIES = 1024"

definition EXTMEM :: u32 where "EXTMEM = 0x100000"
definition DEVSPACE :: u32 where "DEVSPACE = 0xFE000000"
definition KERNLINK :: u32 where "KERNLINK = KERNBASE_V + EXTMEM"

text \<open>\<open>&pgdir[i]\<close> and \<open>&pgtab[i]\<close>.\<close>

definition entry :: "u32 \<Rightarrow> u32 \<Rightarrow> u32" where "entry p i = p + 4 * i"

text \<open>The walk of the paging hardware: the present page table entry of an address.\<close>

definition pte_of :: "memory \<Rightarrow> u32 \<Rightarrow> u32 \<Rightarrow> u32 option" where
  "pte_of m pgdir va =
     (let pde = load32 m (entry pgdir (PDX va)) in
      if pde AND PTE_P = 0 then None
      else (let pte = load32 m (entry (p2v (PTE_ADDR pde)) (PTX va)) in
            if pte AND PTE_P = 0 then None else Some pte))"

section \<open>Building page tables\<close>

definition walkpgdir :: "u32 \<Rightarrow> u32 \<Rightarrow> bool \<Rightarrow> ('z kphys_scheme, u32) prog" where
  "walkpgdir pgdir va alloc =
     kbind (kget (\<lambda>s. load32 (mem s) (entry pgdir (PDX va)))) (\<lambda>pde.
       if pde AND PTE_P \<noteq> 0 then kret (entry (p2v (PTE_ADDR pde)) (PTX va))
       else if \<not> alloc then kret 0
       else kbind kalloc (\<lambda>pgtab.
         if pgtab = 0 then kret 0
         else
           kbind (kmod (\<lambda>s. s\<lparr>mem := memset (mem s) pgtab 0 PGSIZE\<rparr>)) (\<lambda>_.
           kbind (kmod (\<lambda>s. s\<lparr>mem := store32 (mem s) (entry pgdir (PDX va)) (v2p pgtab OR PTE_P OR PTE_W OR PTE_U)\<rparr>)) (\<lambda>_.
           kret (entry pgtab (PTX va))))))"

text \<open>
  The loop of \<open>mappages\<close>: both \<open>a\<close> and \<open>last\<close> are multiples of the page size, so that the test
  \<open>last - a < PGSIZE\<close> is the test \<open>a == last\<close> of the code.
\<close>

function mappages_loop :: "u32 \<Rightarrow> u32 \<Rightarrow> u32 \<Rightarrow> u32 \<Rightarrow> u32 \<Rightarrow> ('z kphys_scheme, int) prog" where
  "mappages_loop pgdir a lastp pa perm =
     kbind (walkpgdir pgdir a True) (\<lambda>pte.
       if pte = 0 then kret (-1)
       else
         kbind (panic_if (\<lambda>s. load32 (mem s) pte AND PTE_P \<noteq> 0) ''remap'') (\<lambda>_.
         kbind (kmod (\<lambda>s. s\<lparr>mem := store32 (mem s) pte (pa OR perm OR PTE_P)\<rparr>)) (\<lambda>_.
           if lastp - a < PGSIZE then kret 0
           else mappages_loop pgdir (a + PGSIZE) lastp (pa + PGSIZE) perm)))"
  by pat_completeness auto
termination
proof (relation "measure (\<lambda>(pgdir, a, lastp, pa, perm). unat (lastp - a))", simp)
  fix a lastp :: u32
  assume "\<not> lastp - a < PGSIZE"
  then have "unat (lastp - (a + PGSIZE)) < unat (lastp - a)"
    using unat_sub [of PGSIZE "lastp - a"] by (simp add: PGSIZE_def not_less diff_diff_eq word_le_nat_alt)
  then show "((pgdir, a + PGSIZE, lastp, pa + PGSIZE, perm), pgdir, a, lastp, pa, perm)
      \<in> measure (\<lambda>(pgdir, a, lastp, pa, perm). unat (lastp - a))" for pgdir pa perm by simp
qed

declare mappages_loop.simps [simp del]

definition mappages :: "u32 \<Rightarrow> u32 \<Rightarrow> u32 \<Rightarrow> u32 \<Rightarrow> u32 \<Rightarrow> ('z kphys_scheme, int) prog" where
  "mappages pgdir va sz pa perm =
     mappages_loop pgdir (PGROUNDDOWN va) (PGROUNDDOWN (va + sz - 1)) pa perm"

text \<open>The kernel's part of every page table; \<open>kd\<close> is the linker symbol \<open>data\<close>.\<close>

record kmap_entry =
  virt :: u32
  phys_start :: u32
  phys_end :: u32
  km_perm :: u32

definition kmap :: "u32 \<Rightarrow> kmap_entry list" where
  "kmap kd =
     [\<lparr>virt = KERNBASE_V, phys_start = 0, phys_end = EXTMEM, km_perm = PTE_W\<rparr>,
      \<lparr>virt = KERNLINK, phys_start = v2p KERNLINK, phys_end = v2p kd, km_perm = 0\<rparr>,
      \<lparr>virt = kd, phys_start = v2p kd, phys_end = PHYSTOP, km_perm = PTE_W\<rparr>,
      \<lparr>virt = DEVSPACE, phys_start = DEVSPACE, phys_end = 0, km_perm = PTE_W\<rparr>]"

fun map_all :: "u32 \<Rightarrow> kmap_entry list \<Rightarrow> ('z kphys_scheme, u32) prog" where
  "map_all pgdir [] = kret pgdir"
| "map_all pgdir (k # ks) =
     kbind (mappages pgdir (virt k) (phys_end k - phys_start k) (phys_start k) (km_perm k)) (\<lambda>r.
       if r < 0 then kret 0 else map_all pgdir ks)"

definition setupkvm :: "('z kphys_scheme, u32) prog" where
  "setupkvm =
     kbind kalloc (\<lambda>pgdir.
       if pgdir = 0 then kret 0
       else
         kbind (kmod (\<lambda>s. s\<lparr>mem := memset (mem s) pgdir 0 PGSIZE\<rparr>)) (\<lambda>_.
         kbind (panic_if (\<lambda>s. p2v PHYSTOP > DEVSPACE) ''PHYSTOP too high'') (\<lambda>_.
         kbind (kget kdata) (\<lambda>kd. map_all pgdir (kmap kd)))))"

definition kvmalloc :: "('z kphys_scheme, unit) prog" where
  "kvmalloc = kbind setupkvm (\<lambda>p. kbind (kmod (\<lambda>s. s\<lparr>kpgdir := p\<rparr>)) (\<lambda>_. switchkvm))"

text \<open>
  \<open>inituvm\<close> runs on the kernel page table, which maps nothing at address 0: a failed
  allocation faults in \<open>memset\<close>.
\<close>

definition inituvm :: "u32 \<Rightarrow> u32 \<Rightarrow> u32 \<Rightarrow> ('z kphys_scheme, unit) prog" where
  "inituvm pgdir init sz =
     kbind (panic_if (\<lambda>s. sz \<ge> PGSIZE) ''inituvm: more than a page'') (\<lambda>_.
     kbind kalloc (\<lambda>m.
       if m = 0 then kpanic ''trap''
       else
         kbind (kmod (\<lambda>s. s\<lparr>mem := memset (mem s) m 0 PGSIZE\<rparr>)) (\<lambda>_.
         kbind (mappages pgdir 0 PGSIZE (v2p m) (PTE_W OR PTE_U)) (\<lambda>_.
         kmod (\<lambda>s. s\<lparr>mem := memmove (mem s) m init sz\<rparr>)))))"

section \<open>Growing and shrinking\<close>

text \<open>No caller passes a size above \<open>KERNBASE\<close>; the bound in the loops makes them total.\<close>

function deallocuvm_loop :: "u32 \<Rightarrow> u32 \<Rightarrow> u32 \<Rightarrow> ('z kphys_scheme, unit) prog" where
  "deallocuvm_loop pgdir a oldsz =
     (if a < oldsz \<and> oldsz \<le> KERNBASE_V then
        kbind (walkpgdir pgdir a False) (\<lambda>pte.
          if pte = 0 then deallocuvm_loop pgdir (a + (NPTENTRIES - 1) * PGSIZE + PGSIZE) oldsz
          else
            kbind (kget (\<lambda>s. load32 (mem s) pte)) (\<lambda>v.
            kbind (if v AND PTE_P \<noteq> 0 then
                     kbind (panic_if (\<lambda>s. PTE_ADDR v = 0) ''kfree'') (\<lambda>_.
                     kbind (kfree (p2v (PTE_ADDR v))) (\<lambda>_.
                     kmod (\<lambda>s. s\<lparr>mem := store32 (mem s) pte 0\<rparr>)))
                   else kret ()) (\<lambda>_.
            deallocuvm_loop pgdir (a + PGSIZE) oldsz)))
      else kret ())"
  by pat_completeness auto
termination
  by (relation "measure (\<lambda>(pgdir, a, oldsz). 2 ^ 32 - unat a)")
     (auto simp: PGSIZE_def NPTENTRIES_def KERNBASE_V_def word_less_nat_alt word_le_nat_alt unat_word_ariths
       intro!: diff_less_mono2)

declare deallocuvm_loop.simps [simp del]

definition deallocuvm :: "u32 \<Rightarrow> u32 \<Rightarrow> u32 \<Rightarrow> ('z kphys_scheme, u32) prog" where
  "deallocuvm pgdir oldsz newsz =
     (if newsz \<ge> oldsz then kret oldsz
      else kbind (deallocuvm_loop pgdir (PGROUNDUP newsz) oldsz) (\<lambda>_. kret newsz))"

function allocuvm_loop :: "u32 \<Rightarrow> u32 \<Rightarrow> u32 \<Rightarrow> u32 \<Rightarrow> ('z kphys_scheme, u32) prog" where
  "allocuvm_loop pgdir a oldsz newsz =
     (if a < newsz \<and> newsz < KERNBASE_V then
        kbind kalloc (\<lambda>m.
          if m = 0 then kbind (deallocuvm pgdir newsz oldsz) (\<lambda>_. kret 0)
          else
            kbind (kmod (\<lambda>s. s\<lparr>mem := memset (mem s) m 0 PGSIZE\<rparr>)) (\<lambda>_.
            kbind (mappages pgdir a PGSIZE (v2p m) (PTE_W OR PTE_U)) (\<lambda>_.
            allocuvm_loop pgdir (a + PGSIZE) oldsz newsz)))
      else kret newsz)"
  by pat_completeness auto
termination
  by (relation "measure (\<lambda>(pgdir, a, oldsz, newsz). 2 ^ 32 - unat a)")
     (auto simp: PGSIZE_def KERNBASE_V_def word_less_nat_alt word_le_nat_alt unat_word_ariths intro!: diff_less_mono2)

declare allocuvm_loop.simps [simp del]

definition allocuvm :: "u32 \<Rightarrow> u32 \<Rightarrow> u32 \<Rightarrow> ('z kphys_scheme, u32) prog" where
  "allocuvm pgdir oldsz newsz =
     (if newsz \<ge> KERNBASE_V then kret 0
      else if newsz < oldsz then kret oldsz
      else allocuvm_loop pgdir (PGROUNDUP oldsz) oldsz newsz)"

definition freevm :: "u32 \<Rightarrow> ('z kphys_scheme, unit) prog" where
  "freevm pgdir =
     kseq [panic_if (\<lambda>s. pgdir = 0) ''freevm: no pgdir'',
           kbind (deallocuvm pgdir KERNBASE_V 0) (\<lambda>_. kret ()),
           kfor [0..<NPDENTRIES] (\<lambda>i.
             kbind (kget (\<lambda>s. load32 (mem s) (entry pgdir (of_nat i)))) (\<lambda>pde.
             kwhen (pde AND PTE_P \<noteq> 0) (kfree (p2v (PTE_ADDR pde))))),
           kfree pgdir]"

definition clearpteu :: "u32 \<Rightarrow> u32 \<Rightarrow> ('z kphys_scheme, unit) prog" where
  "clearpteu pgdir uva =
     kbind (walkpgdir pgdir uva False) (\<lambda>pte.
     kbind (panic_if (\<lambda>s. pte = 0) ''clearpteu'') (\<lambda>_.
     kmod (\<lambda>s. s\<lparr>mem := store32 (mem s) pte (load32 (mem s) pte AND NOT PTE_U)\<rparr>)))"

section \<open>Copying\<close>

text \<open>The loop of \<open>copyuvm\<close> answers whether every page was copied.\<close>

function copyuvm_loop :: "u32 \<Rightarrow> u32 \<Rightarrow> u32 \<Rightarrow> u32 \<Rightarrow> ('z kphys_scheme, bool) prog" where
  "copyuvm_loop pgdir d i sz =
     (if i < sz \<and> sz \<le> KERNBASE_V then
        kbind (walkpgdir pgdir i False) (\<lambda>pte.
        kbind (panic_if (\<lambda>s. pte = 0) ''copyuvm: pte should exist'') (\<lambda>_.
        kbind (panic_if (\<lambda>s. load32 (mem s) pte AND PTE_P = 0) ''copyuvm: page not present'') (\<lambda>_.
        kbind (kget (\<lambda>s. load32 (mem s) pte)) (\<lambda>v.
        kbind kalloc (\<lambda>m.
          if m = 0 then kret False
          else
            kbind (kmod (\<lambda>s. s\<lparr>mem := memmove (mem s) m (p2v (PTE_ADDR v)) PGSIZE\<rparr>)) (\<lambda>_.
            kbind (mappages d i PGSIZE (v2p m) (PTE_FLAGS v)) (\<lambda>r.
              if r < 0 then kret False else copyuvm_loop pgdir d (i + PGSIZE) sz)))))))
      else kret True)"
  by pat_completeness auto
termination
  by (relation "measure (\<lambda>(pgdir, d, i, sz). 2 ^ 32 - unat i)")
     (auto simp: PGSIZE_def KERNBASE_V_def word_less_nat_alt word_le_nat_alt unat_word_ariths intro!: diff_less_mono2)

declare copyuvm_loop.simps [simp del]

definition copyuvm :: "u32 \<Rightarrow> u32 \<Rightarrow> ('z kphys_scheme, u32) prog" where
  "copyuvm pgdir sz =
     kbind setupkvm (\<lambda>d.
       if d = 0 then kret 0
       else kbind (copyuvm_loop pgdir d 0 sz) (\<lambda>ok.
         if ok then kret d else kbind (freevm d) (\<lambda>_. kret 0)))"

text \<open>
  \<open>uva2ka\<close> does not test the result of \<open>walkpgdir\<close>: with no page table for the address it
  reads the word at virtual address 0, through the page table in use (\<open>cr3\<close>); if nothing is
  mapped there the kernel faults, and \<open>trap\<close> panics.
\<close>

definition kload32 :: "u32 \<Rightarrow> ('z kphys_scheme, u32) prog" where
  "kload32 a s =
     (if a \<ge> KERNBASE_V then Ret (load32 (mem s) a) s
      else (case pte_of (mem s) (p2v (cr3 s)) a of
              None \<Rightarrow> Panic ''trap''
            | Some pte \<Rightarrow> Ret (load32 (mem s) (p2v (PTE_ADDR pte) + (a AND 0xFFF))) s))"

definition uva2ka :: "u32 \<Rightarrow> u32 \<Rightarrow> ('z kphys_scheme, u32) prog" where
  "uva2ka pgdir uva =
     kbind (walkpgdir pgdir uva False) (\<lambda>pte.
     kbind (kload32 pte) (\<lambda>v.
       if v AND PTE_P = 0 then kret 0
       else if v AND PTE_U = 0 then kret 0
       else kret (p2v (PTE_ADDR v))))"

lemma rounddown_offset: "a - PGROUNDDOWN a < PGSIZE" "PGROUNDDOWN a \<le> a"
proof -
  have u: "unat (PGROUNDDOWN a) = unat a div 4096 * 4096" by (rule unat_rounddown)
  then show le: "PGROUNDDOWN a \<le> a" by (simp add: word_le_nat_alt)
  have "unat (a - PGROUNDDOWN a) = unat a mod 4096"
    using unat_sub [OF le] u by (simp add: minus_div_mult_eq_mod)
  then show "a - PGROUNDDOWN a < PGSIZE" by (simp add: word_less_nat_alt PGSIZE_def)
qed

text \<open>The bytes \<open>copyout\<close> takes from the buffer \<open>p\<close> are its argument.\<close>

function copyout :: "u32 \<Rightarrow> u32 \<Rightarrow> u8 list \<Rightarrow> ('z kphys_scheme, int) prog" where
  "copyout pgdir va buf =
     (if buf \<noteq> [] then
        (let va0 = PGROUNDDOWN va in
         kbind (uva2ka pgdir va0) (\<lambda>pa0.
           if pa0 = 0 then kret (-1)
           else
             (let n = min (unat (PGSIZE - (va - va0))) (length buf) in
              kbind (kmod (\<lambda>s. s\<lparr>mem := store_bytes (mem s) (pa0 + (va - va0)) (take n buf)\<rparr>)) (\<lambda>_.
              copyout pgdir (va0 + PGSIZE) (drop n buf)))))
      else kret 0)"
  by pat_completeness auto
termination
proof (relation "measure (\<lambda>(pgdir, va, buf). length buf)", simp)
  fix pgdir va va0 :: u32 and buf :: "u8 list" and n
  assume l: "buf \<noteq> []" and v: "va0 = PGROUNDDOWN va" and n: "n = min (unat (PGSIZE - (va - va0))) (length buf)"
  have "va - va0 < PGSIZE" unfolding v by (rule rounddown_offset)
  then have "0 < PGSIZE - (va - va0)" by (simp add: word_less_nat_alt unat_sub_if' PGSIZE_def)
  then have "0 < n" using l n by (simp add: word_less_nat_alt)
  then show "((pgdir, va0 + PGSIZE, drop n buf), pgdir, va, buf) \<in> measure (\<lambda>(pgdir, va, buf). length buf)" using l by simp
qed

declare copyout.simps [simp del]

section \<open>Segments\<close>

record segdesc =
  lim_15_0 :: u32
  base_15_0 :: u32
  base_23_16 :: u32
  sd_type :: u32
  sd_s :: u32
  sd_dpl :: u32
  sd_p :: u32
  lim_19_16 :: u32
  sd_avl :: u32
  sd_rsv1 :: u32
  sd_db :: u32
  sd_g :: u32
  base_31_24 :: u32

definition SEG :: "u32 \<Rightarrow> u32 \<Rightarrow> u32 \<Rightarrow> u32 \<Rightarrow> segdesc" where
  "SEG ty base lim dpl =
     \<lparr>lim_15_0 = drop_bit 12 lim AND 0xFFFF, base_15_0 = base AND 0xFFFF, base_23_16 = drop_bit 16 base AND 0xFF,
      sd_type = ty, sd_s = 1, sd_dpl = dpl, sd_p = 1, lim_19_16 = drop_bit 28 lim, sd_avl = 0, sd_rsv1 = 0,
      sd_db = 1, sd_g = 1, base_31_24 = drop_bit 24 base\<rparr>"

definition SEG16 :: "u32 \<Rightarrow> u32 \<Rightarrow> u32 \<Rightarrow> u32 \<Rightarrow> segdesc" where
  "SEG16 ty base lim dpl =
     \<lparr>lim_15_0 = lim AND 0xFFFF, base_15_0 = base AND 0xFFFF, base_23_16 = drop_bit 16 base AND 0xFF,
      sd_type = ty, sd_s = 1, sd_dpl = dpl, sd_p = 1, lim_19_16 = drop_bit 16 lim, sd_avl = 0, sd_rsv1 = 0,
      sd_db = 1, sd_g = 0, base_31_24 = drop_bit 24 base\<rparr>"

definition STA_X :: u32 where "STA_X = 8"
definition STA_W :: u32 where "STA_W = 2"
definition STA_R :: u32 where "STA_R = 2"
definition DPL_USER :: u32 where "DPL_USER = 3"

text \<open>The descriptors \<open>seginit\<close> stores at the indices 1 to 5 of the table; \<open>c\<close> is the address of \<open>c->cpu\<close>.\<close>

definition seginit :: "u32 \<Rightarrow> segdesc list \<Rightarrow> segdesc list" where
  "seginit c gdt =
     gdt[1 := SEG (STA_X OR STA_R) 0 0xFFFFFFFF 0,
         2 := SEG STA_W 0 0xFFFFFFFF 0,
         4 := SEG (STA_X OR STA_R) 0 0xFFFFFFFF DPL_USER,
         5 := SEG STA_W 0 0xFFFFFFFF DPL_USER,
         3 := SEG STA_W c 8 0]"

section \<open>Words of page tables\<close>

lemma and_mask_mod: "x AND 0xFFF = x mod PGSIZE" "x AND 0x3FF = x mod 1024" for x :: u32
proof -
  have m: "0xFFF = (mask 12 :: u32)" "0x3FF = (mask 10 :: u32)" by (simp_all add: mask_eq_exp_minus_1)
  show "x AND 0xFFF = x mod PGSIZE" "x AND 0x3FF = x mod 1024"
    unfolding m take_bit_eq_mask [symmetric] by (simp_all add: take_bit_eq_mod PGSIZE_def)
qed

lemma unat_PDX: "unat (PDX a) = unat a div 4194304 mod 1024"
  and unat_PTX: "unat (PTX a) = unat a div 4096 mod 1024"
  by (simp_all add: PDX_def PTX_def and_mask_mod unat_mod drop_bit_eq_div unat_div)

lemma index_lt [simp]: "PDX a < 1024" "PTX a < 1024"
  by (simp_all add: word_less_nat_alt unat_PDX unat_PTX)

lemma same_page: "PDX a = PDX b \<and> PTX a = PTX b \<longleftrightarrow> PGROUNDDOWN a = PGROUNDDOWN b"
proof -
  have h: "x div 4096 = y div 4096 \<longleftrightarrow> x div 4194304 mod 1024 = y div 4194304 mod 1024 \<and> x div 4096 mod 1024 = y div 4096 mod 1024"
    if "x < 2 ^ 32" "y < 2 ^ 32" for x y :: nat
  proof -
    have "x div 4194304 = x div 4096 div 1024" "y div 4194304 = y div 4096 div 1024" by (simp_all add: div_mult2_eq [symmetric])
    moreover have "x div 4194304 < 1024" "y div 4194304 < 1024" using that by (simp_all add: less_mult_imp_div_less)
    ultimately show ?thesis by (metis div_mult_mod_eq mod_less)
  qed
  show ?thesis
    unfolding word_unat_eq_iff unat_PDX unat_PTX unat_rounddown
    using h [of "unat a" "unat b"] unsigned_less [of a, where 'a = nat] unsigned_less [of b, where 'a = nat] by auto
qed

lemma PGROUNDDOWN_aligned: "a mod PGSIZE = 0 \<Longrightarrow> PGROUNDDOWN a = a"
proof -
  assume "a mod PGSIZE = 0"
  then have "unat a mod 4096 = 0" using aligned_unat by simp
  then have "unat a div 4096 * 4096 = unat a" using div_mult_mod_eq [of "unat a" 4096] by simp
  then show ?thesis by (simp add: word_unat_eq_iff unat_rounddown)
qed

lemma unat_entry:
  assumes "p mod PGSIZE = 0" and "i < 1024"
  shows "unat (entry p i) = unat p + 4 * unat i"
proof -
  have "unat p mod 4096 = 0" "unat p < 2 ^ 32" using assms(1) aligned_unat unsigned_less [of p, where 'a = nat] by simp_all
  then have "unat p + 4096 \<le> 2 ^ 32" by (auto simp: mod_eq_0_iff_dvd elim!: dvdE)
  moreover have "unat i < 1024" using assms(2) by (simp add: word_less_nat_alt)
  ultimately show ?thesis by (simp add: entry_def unat_word_ariths)
qed

lemma entry_in_page: "p mod PGSIZE = 0 \<Longrightarrow> i < 1024 \<Longrightarrow> unat k < 4 \<Longrightarrow> entry p i + k - p < PGSIZE"
proof -
  assume p: "p mod PGSIZE = 0" and i: "i < 1024" and k: "unat k < 4"
  have "unat i < 1024" using i by (simp add: word_less_nat_alt)
  then have "unat (4 * i + k) = 4 * unat i + unat k" "4 * unat i + unat k < 4096" using k by (simp_all add: unat_word_ariths)
  then show ?thesis by (simp add: entry_def word_less_nat_alt PGSIZE_def)
qed

lemma entry_eq:
  assumes "p mod PGSIZE = 0" and "q mod PGSIZE = 0" and "i < 1024" and "j < 1024"
  shows "entry p i = entry q j \<longleftrightarrow> p = q \<and> i = j"
proof
  assume e: "entry p i = entry q j"
  have "entry p i + 0 - p < PGSIZE" "entry p i + 0 - q < PGSIZE"
    using entry_in_page [OF assms(1,3), of 0] entry_in_page [OF assms(2,4), of 0] by (simp_all add: e)
  then have "p = q" using pages_disjoint [OF assms(1,2)] by simp
  moreover have "4 * unat i = 4 * unat j" using e unat_entry [OF assms(1,3)] unat_entry [OF assms(2,4)] \<open>p = q\<close> by simp
  ultimately show "p = q \<and> i = j" by (simp add: word_unat_eq_iff)
qed simp

lemma entry_mod4: "p mod PGSIZE = 0 \<Longrightarrow> i < 1024 \<Longrightarrow> unat (entry p i) mod 4 = 0"
proof -
  assume p: "p mod PGSIZE = 0" and i: "i < 1024"
  have "unat p mod 4096 = 0" using p aligned_unat by simp
  then have "unat p mod 4 = 0" by (auto simp: mod_eq_0_iff_dvd dvd_def)
  then show ?thesis by (simp add: unat_entry [OF p i] mod_add_left_eq [symmetric])
qed

lemma load_store_word:
  assumes "unat a mod 4 = 0" and "unat b mod 4 = 0" and "a \<noteq> b"
  shows "load32 (store32 m a v) b = load32 m b"
proof (rule load32_cong)
  fix k :: u32 assume k: "unat k < 4"
  obtain x y where xy: "unat a = 4 * x" "unat b = 4 * y" using assms(1,2) by (meson dvdE mod_eq_0_iff_dvd)
  have bound: "unat a < 2 ^ 32" "unat b < 2 ^ 32" using unsigned_less [of a, where 'a = nat] unsigned_less [of b, where 'a = nat] by simp_all
  have ne: "x \<noteq> y" using assms(3) xy by (auto simp: word_unat_eq_iff)
  have d: "unat (b - a) = (if x \<le> y then 4 * (y - x) else 2 ^ 32 - 4 * (x - y))"
    using xy bound by (auto simp: unat_sub_if' word_le_nat_alt)
  have "4 \<le> unat (b - a)" "unat (b - a) + 4 \<le> 2 ^ 32" using d ne xy bound by (auto split: if_splits)
  moreover from this(2) k have "unat (b - a + k) = unat (b - a) + unat k" by (simp add: unat_word_ariths)
  ultimately have "4 \<le> unat (b - a + k)" by linarith
  then have "4 \<le> unat (b + k - a)" by (simp only: diff_add_eq)
  then show "store32 m a v (b + k) = m (b + k)" by (rule store32_other)
qed

lemma load_store_entry:
  assumes "p mod PGSIZE = 0" and "q mod PGSIZE = 0" and "i < 1024" and "j < 1024"
  shows "load32 (store32 m (entry p i) v) (entry q j) = (if p = q \<and> i = j then v else load32 m (entry q j))"
  using load_store_word [OF entry_mod4 [OF assms(1,3)] entry_mod4 [OF assms(2,4)], of m v] entry_eq [OF assms] by auto

lemma load_entry_cong:
  assumes "q mod PGSIZE = 0" and "j < 1024" and "\<And>a. a - q < PGSIZE \<Longrightarrow> m' a = m a"
  shows "load32 m' (entry q j) = load32 m (entry q j)"
  by (rule load32_cong) (use entry_in_page [OF assms(1,2)] assms(3) in auto)

lemma store_entry_outside:
  assumes "p mod PGSIZE = 0" and "i < 1024" and "\<not> a - p < PGSIZE"
  shows "store32 m (entry p i) v a = m a"
proof -
  have "4 \<le> unat (a - entry p i)"
  proof (rule ccontr)
    assume "\<not> ?thesis"
    then have "entry p i + (a - entry p i) - p < PGSIZE" by (intro entry_in_page assms) simp
    then show False using assms(3) by simp
  qed
  then show ?thesis by (rule store32_other)
qed

lemma load_zero_page: "q mod PGSIZE = 0 \<Longrightarrow> j < 1024 \<Longrightarrow> load32 (memset m q 0 PGSIZE) (entry q j) = 0"
proof -
  assume q: "q mod PGSIZE = 0" and j: "j < 1024"
  have "memset m q 0 PGSIZE (entry q j + k) = 0" if "unat k < 4" for k
    using entry_in_page [OF q j that] by (simp add: memset_at)
  from this [of 0] this [of 1] this [of 2] this [of 3] show ?thesis by (simp add: load32_def)
qed

lemma PTE_ADDR_or: "y mod PGSIZE = 0 \<Longrightarrow> f < PGSIZE \<Longrightarrow> PTE_ADDR (y OR f) = y"
proof -
  assume y: "y mod PGSIZE = 0" and f: "f < PGSIZE"
  have y0: "y AND 0xFFF = 0" using y by (simp add: and_mask_mod)
  have "f mod PGSIZE = f" using f by (simp add: word_unat_eq_iff unat_mod word_less_nat_alt)
  then have f0: "f AND 0xFFF = f" by (simp add: and_mask_mod)
  have "y AND NOT 0xFFF = y" by (rule bit_word_eqI) (use y0 in \<open>auto simp: bit_simps bit_eq_iff\<close>)
  moreover have "f AND NOT 0xFFF = 0"
    using f0 by (metis and.assoc bit.conj_cancel_right bit.conj_zero_right)
  ultimately show ?thesis by (simp add: PTE_ADDR_def bit.conj_disj_distrib2)
qed

section \<open>Well-formed page tables\<close>

definition pde :: "memory \<Rightarrow> u32 \<Rightarrow> u32 \<Rightarrow> u32" where
  "pde m pgdir i = load32 m (entry pgdir i)"

definition tab :: "memory \<Rightarrow> u32 \<Rightarrow> u32 \<Rightarrow> u32" where
  "tab m pgdir i = p2v (PTE_ADDR (pde m pgdir i))"

definition has_tab :: "memory \<Rightarrow> u32 \<Rightarrow> u32 \<Rightarrow> bool" where
  "has_tab m pgdir i \<longleftrightarrow> i < 1024 \<and> pde m pgdir i AND PTE_P \<noteq> 0"

text \<open>The pages a page table is made of.\<close>

definition pt_pages :: "memory \<Rightarrow> u32 \<Rightarrow> u32 set" where
  "pt_pages m pgdir = insert pgdir (tab m pgdir ` {i. has_tab m pgdir i})"

text \<open>
  \<open>pt_inv e s pgdir xs\<close>: the free list holds the pages \<open>xs\<close>; the directory and its tables are
  distinct pages above \<open>e\<close>, none of them free.
\<close>

definition pt_inv :: "u32 \<Rightarrow> 'z kphys_scheme \<Rightarrow> u32 \<Rightarrow> u32 list \<Rightarrow> bool" where
  "pt_inv e s pgdir xs \<longleftrightarrow> kmem_inv e s xs \<and> (\<forall>p \<in> pt_pages (mem s) pgdir. page_ok e p \<and> p \<notin> set xs) \<and>
     inj_on (tab (mem s) pgdir) {i. has_tab (mem s) pgdir i} \<and> (\<forall>i. has_tab (mem s) pgdir i \<longrightarrow> tab (mem s) pgdir i \<noteq> pgdir)"

lemma pte_of_tab:
  "pte_of m pgdir va = (if has_tab m pgdir (PDX va) \<and> load32 m (entry (tab m pgdir (PDX va)) (PTX va)) AND PTE_P \<noteq> 0
     then Some (load32 m (entry (tab m pgdir (PDX va)) (PTX va))) else None)"
  by (simp add: pte_of_def has_tab_def tab_def pde_def Let_def)

lemma pt_invD:
  assumes "pt_inv e s pgdir xs"
  shows "kmem_inv e s xs" "page_ok e pgdir" "pgdir \<notin> set xs"
    "has_tab (mem s) pgdir i \<Longrightarrow> page_ok e (tab (mem s) pgdir i) \<and> tab (mem s) pgdir i \<notin> set xs \<and> tab (mem s) pgdir i \<noteq> pgdir"
    "has_tab (mem s) pgdir i \<Longrightarrow> has_tab (mem s) pgdir j \<Longrightarrow> tab (mem s) pgdir i = tab (mem s) pgdir j \<Longrightarrow> i = j"
  using assms by (auto simp: pt_inv_def pt_pages_def inj_on_def)

lemma page_ok_aligned: "page_ok e p \<Longrightarrow> p mod PGSIZE = 0"
  by (simp add: page_ok_def)

text \<open>What stays of a page table when memory changes outside its pages.\<close>

lemma pt_cong:
  assumes "page_ok e pgdir" and "\<And>a. a - pgdir < PGSIZE \<Longrightarrow> m' a = m a"
  shows "has_tab m' pgdir i = has_tab m pgdir i" "has_tab m pgdir i \<Longrightarrow> tab m' pgdir i = tab m pgdir i"
    "pt_pages m' pgdir = pt_pages m pgdir"
proof -
  have e: "pde m' pgdir i = pde m pgdir i" if "i < 1024" for i
    unfolding pde_def using load_entry_cong [OF page_ok_aligned [OF assms(1)] that assms(2)] .
  then show h: "has_tab m' pgdir i = has_tab m pgdir i" for i by (auto simp: has_tab_def)
  show t: "has_tab m pgdir i \<Longrightarrow> tab m' pgdir i = tab m pgdir i" for i using e by (simp add: tab_def has_tab_def)
  show "pt_pages m' pgdir = pt_pages m pgdir" unfolding pt_pages_def h using t by (intro arg_cong [where f = "insert pgdir"] image_cong) auto
qed

lemma pt_inv_cong:
  assumes "pt_inv e s pgdir xs" and "kmem_inv e t ys" and "set ys \<subseteq> set xs"
    and "\<And>a. a - pgdir < PGSIZE \<Longrightarrow> mem t a = mem s a"
  shows "pt_inv e t pgdir ys"
proof -
  note d = pt_invD [OF assms(1)]
  have c: "has_tab (mem t) pgdir i = has_tab (mem s) pgdir i"
      "has_tab (mem s) pgdir i \<Longrightarrow> tab (mem t) pgdir i = tab (mem s) pgdir i" "pt_pages (mem t) pgdir = pt_pages (mem s) pgdir" for i
    using pt_cong [where m' = "mem t" and m = "mem s", OF d(2) assms(4)] by auto
  have h: "has_tab (mem t) pgdir = has_tab (mem s) pgdir" using c(1) by blast
  have "inj_on (tab (mem t) pgdir) {i. has_tab (mem t) pgdir i}"
    using d(5) c(2) unfolding c(1) inj_on_def by auto
  then show ?thesis using assms(1-3) c(2,3) unfolding pt_inv_def h by auto
qed

lemma pte_of_cong:
  assumes "pt_inv e s pgdir xs" and "\<And>p a. p \<in> pt_pages (mem s) pgdir \<Longrightarrow> a - p < PGSIZE \<Longrightarrow> m a = mem s a"
  shows "pte_of m pgdir va = pte_of (mem s) pgdir va"
proof -
  note d = pt_invD [OF assms(1)]
  have "pgdir \<in> pt_pages (mem s) pgdir" by (simp add: pt_pages_def)
  from pt_cong [where m' = m and m = "mem s", OF d(2) assms(2) [OF this]]
  have h: "has_tab m pgdir i = has_tab (mem s) pgdir i" "has_tab (mem s) pgdir i \<Longrightarrow> tab m pgdir i = tab (mem s) pgdir i" for i by auto
  show ?thesis
  proof (cases "has_tab (mem s) pgdir (PDX va)")
    case True
    have "load32 m (entry (tab (mem s) pgdir (PDX va)) (PTX va)) = load32 (mem s) (entry (tab (mem s) pgdir (PDX va)) (PTX va))"
      using d(4) [OF True] True by (intro load_entry_cong assms(2)) (auto simp: page_ok_aligned pt_pages_def)
    then show ?thesis using h True by (simp add: pte_of_tab)
  qed (simp add: pte_of_tab h)
qed

lemma v2p_aligned: "page_ok e x \<Longrightarrow> v2p x mod PGSIZE = 0"
  using page_ok_bounds [of e x] aligned_unat [of x] aligned_unat [of "v2p x"]
  by (auto simp: page_ok_def v2p_def KERNBASE_V_def unat_sub_if' mod_eq_0_iff_dvd dvd_diff_nat)

text \<open>The entry \<open>walkpgdir\<close> makes for a new table.\<close>

lemma new_pde:
  assumes "page_ok e x"
  shows "p2v (PTE_ADDR (v2p x OR PTE_P OR PTE_W OR PTE_U)) = x" "(v2p x OR PTE_P OR PTE_W OR PTE_U) AND PTE_P \<noteq> 0"
proof -
  have f: "PTE_P OR PTE_W OR PTE_U = 7" by (simp add: PTE_P_def PTE_W_def PTE_U_def)
  have "PTE_ADDR (v2p x OR 7) = v2p x" by (rule PTE_ADDR_or [OF v2p_aligned [OF assms]]) (simp add: PGSIZE_def)
  then show "p2v (PTE_ADDR (v2p x OR PTE_P OR PTE_W OR PTE_U)) = x" by (simp only: or.assoc f p2v_v2p)
  have "(v2p x OR 7) AND 1 = (v2p x AND 1) OR 1" by (simp add: bit.conj_disj_distrib2)
  also have "\<dots> \<noteq> 0" by (simp add: or_eq_0_iff)
  finally show "(v2p x OR PTE_P OR PTE_W OR PTE_U) AND PTE_P \<noteq> 0" unfolding or.assoc f by (simp add: PTE_P_def)
qed

section \<open>walkpgdir and mappages\<close>

lemma walk_found:
  "has_tab (mem s) pgdir (PDX va) \<Longrightarrow> walkpgdir pgdir va al s = Ret (entry (tab (mem s) pgdir (PDX va)) (PTX va)) s"
  by (simp add: walkpgdir_def has_tab_def tab_def pde_def)

lemma walk_absent: "\<not> has_tab (mem s) pgdir (PDX va) \<Longrightarrow> walkpgdir pgdir va False s = Ret 0 s"
  by (simp add: walkpgdir_def has_tab_def tab_def pde_def)

lemma entry_nonzero: "page_ok e p \<Longrightarrow> i < 1024 \<Longrightarrow> entry p i \<noteq> 0"
  using page_ok_bounds [of e p] unat_entry [OF page_ok_aligned, of e p i] by (auto simp: word_unat_eq_iff)

text \<open>Allocating a page for a table: the free list gives its first page.\<close>

lemma kalloc_page:
  assumes "kmem_inv e s (x # xs)"
  shows "\<exists>t. kalloc s = Ret x t \<and> kmem_inv e t xs \<and> mem t = mem s \<and> (\<exists>f. t = s\<lparr>kmem_freelist := f\<rparr>)"
  using assms by (auto simp: kmem_inv_def kalloc_eq lock_free_def)

lemma kmem_inv_write:
  assumes "kmem_inv e s xs" and "page_ok e p" and "p \<notin> set xs" and "\<And>a. \<not> a - p < PGSIZE \<Longrightarrow> m a = mem s a"
  shows "kmem_inv e (s\<lparr>mem := m\<rparr>) xs"
  using km.wr_ok [OF assms(1-3), of "s\<lparr>mem := m\<rparr>"] assms(4) by (auto simp: page_write_def)

lemma new_table_shape:
  assumes pg: "page_ok e pgdir" "page_ok e x" "x \<noteq> pgdir" and i: "i < 1024" "\<not> has_tab m0 pgdir i"
    and m: "m = store32 (memset m0 x 0 PGSIZE) (entry pgdir i) (v2p x OR PTE_P OR PTE_W OR PTE_U)"
  shows "\<not> a - x < PGSIZE \<Longrightarrow> \<not> a - pgdir < PGSIZE \<Longrightarrow> m a = m0 a" and "tab m pgdir i = x"
    and "has_tab m pgdir j \<longleftrightarrow> j = i \<or> has_tab m0 pgdir j" and "has_tab m0 pgdir j \<Longrightarrow> tab m pgdir j = tab m0 pgdir j"
    and "k < 1024 \<Longrightarrow> load32 m (entry x k) = 0"
proof -
  note al = page_ok_aligned [OF pg(1)] page_ok_aligned [OF pg(2)]
  show "m a = m0 a" if "\<not> a - x < PGSIZE" "\<not> a - pgdir < PGSIZE"
    unfolding m using store_entry_outside [OF al(1) i(1) that(2)] that(1) by (simp add: memset_at)
  have pd: "pde m pgdir j = (if j = i then v2p x OR PTE_P OR PTE_W OR PTE_U else pde m0 pgdir j)" if "j < 1024" for j
  proof -
    have "load32 (memset m0 x 0 PGSIZE) (entry pgdir j) = load32 m0 (entry pgdir j)"
      using pages_disjoint [OF al(1,2)] pg(3) by (intro load_entry_cong al that) (auto simp: memset_at)
    then show ?thesis by (auto simp: pde_def m load_store_entry [OF al(1) al(1) i(1) that])
  qed
  show "tab m pgdir i = x" using pd [OF i(1)] new_pde [OF pg(2)] i(1) by (simp add: tab_def)
  have ti: "has_tab m pgdir i" using pd [OF i(1)] new_pde [OF pg(2)] i(1) by (simp add: has_tab_def)
  then show "has_tab m pgdir j \<longleftrightarrow> j = i \<or> has_tab m0 pgdir j"
    using pd [of j] i by (cases "j = i") (auto simp: has_tab_def)
  show "tab m pgdir j = tab m0 pgdir j" if "has_tab m0 pgdir j"
    using pd [of j] that i(2) by (auto simp: has_tab_def tab_def)
  show "load32 m (entry x k) = 0" if "k < 1024"
    unfolding m load_store_entry [OF al i(1) that] using pg(3) load_zero_page [OF al(2) that] by simp
qed

lemma new_table:
  assumes inv: "pt_inv e s pgdir xs" and x: "page_ok e x" "x \<notin> set xs" "x \<notin> pt_pages (mem s) pgdir"
    and i: "i < 1024" "\<not> has_tab (mem s) pgdir i"
    and m: "m = store32 (memset (mem s) x 0 PGSIZE) (entry pgdir i) (v2p x OR PTE_P OR PTE_W OR PTE_U)"
  shows "pt_inv e (s\<lparr>mem := m\<rparr>) pgdir xs" and "pt_pages m pgdir = insert x (pt_pages (mem s) pgdir)"
    and "pte_of m pgdir va = pte_of (mem s) pgdir va"
proof -
  note d = pt_invD [OF inv]
  note al = page_ok_aligned [OF d(2)] page_ok_aligned [OF x(1)]
  have xp: "x \<noteq> pgdir" using x(3) by (auto simp: pt_pages_def)
  note n = new_table_shape [OF d(2) x(1) xp i m]
  have img: "tab m pgdir ` {j. has_tab m pgdir j} = insert x (tab (mem s) pgdir ` {j. has_tab (mem s) pgdir j})"
  proof -
    have "{j. has_tab m pgdir j} = insert i {j. has_tab (mem s) pgdir j}" using n(3) by auto
    then show ?thesis using n(2,4) by (simp add: image_insert)
  qed
  then show pp: "pt_pages m pgdir = insert x (pt_pages (mem s) pgdir)" by (auto simp: pt_pages_def)
  have "kmem_inv e (s\<lparr>mem := memset (mem s) x 0 PGSIZE\<rparr>) xs"
    by (rule kmem_inv_write [OF d(1) x(1,2)]) (simp add: memset_at)
  from kmem_inv_write [OF this d(2,3), of m] have "kmem_inv e (s\<lparr>mem := m\<rparr>) xs"
    using store_entry_outside [OF al(1) i(1)] by (simp add: m)
  moreover have "inj_on (tab m pgdir) {j. has_tab m pgdir j}"
  proof (rule inj_onI)
    fix j k assume "j \<in> {j. has_tab m pgdir j}" "k \<in> {j. has_tab m pgdir j}" "tab m pgdir j = tab m pgdir k"
    moreover have "tab (mem s) pgdir j \<noteq> x" if "has_tab (mem s) pgdir j" for j using x(3) that by (auto simp: pt_pages_def)
    ultimately show "j = k" using n(2-4) d(5) by (metis mem_Collect_eq)
  qed
  ultimately show "pt_inv e (s\<lparr>mem := m\<rparr>) pgdir xs"
    using inv x xp n(2-4) by (auto simp: pt_inv_def pp)
  show "pte_of m pgdir va = pte_of (mem s) pgdir va"
  proof (cases "PDX va = i")
    case True
    then show ?thesis using n(2,3,5) i(2) by (simp add: pte_of_tab)
  next
    case False
    have "load32 m (entry (tab (mem s) pgdir (PDX va)) (PTX va)) = load32 (mem s) (entry (tab (mem s) pgdir (PDX va)) (PTX va))"
      if ht: "has_tab (mem s) pgdir (PDX va)"
    proof (rule load_entry_cong)
      let ?t = "tab (mem s) pgdir (PDX va)"
      show tp: "?t mod PGSIZE = 0" using d(4) [OF ht] page_ok_aligned by blast
      have "?t \<noteq> x" "?t \<noteq> pgdir" using d(4) [OF ht] x(3) ht by (auto simp: pt_pages_def)
      then show "m a = mem s a" if "a - ?t < PGSIZE" for a
        using that pages_disjoint [OF tp al(1)] pages_disjoint [OF tp al(2)] by (intro n(1)) blast+
    qed simp
    then show ?thesis using False n(3,4) by (cases "has_tab (mem s) pgdir (PDX va)") (simp_all add: pte_of_tab)
  qed
qed

text \<open>What \<open>walkpgdir\<close> with allocation does: it finds or makes a table, and maps nothing new.\<close>

lemma walk_alloc:
  assumes inv: "pt_inv e s pgdir xs"
  obtains (full) "xs = []" "walkpgdir pgdir va True s = Ret 0 s" "\<not> has_tab (mem s) pgdir (PDX va)"
  | (ok) t us ys where "walkpgdir pgdir va True s = Ret (entry (tab (mem t) pgdir (PDX va)) (PTX va)) t"
      "has_tab (mem t) pgdir (PDX va)" "pt_inv e t pgdir ys" "xs = us @ ys"
      "pt_pages (mem t) pgdir = pt_pages (mem s) pgdir \<union> set us" "\<And>va. pte_of (mem t) pgdir va = pte_of (mem s) pgdir va"
      "\<And>a. \<forall>p \<in> pt_pages (mem t) pgdir. \<not> a - p < PGSIZE \<Longrightarrow> mem t a = mem s a"
      "\<exists>f m. t = s\<lparr>kmem_freelist := f, mem := m\<rparr>"
proof (cases "has_tab (mem s) pgdir (PDX va)")
  case True
  have "\<exists>f m. s = s\<lparr>kmem_freelist := f, mem := m\<rparr>"
    by (rule exI [of _ "kmem_freelist s"], rule exI [of _ "mem s"]) simp
  then show ?thesis using walk_found [OF True] True inv by (intro ok [of s xs "[]"]) auto
next
  case False
  note d = pt_invD [OF inv]
  show ?thesis
  proof (cases xs)
    case Nil
    then have "kalloc s = Ret 0 s" using d(1) by (simp add: kmem_inv_def kalloc_eq)
    then show ?thesis using False Nil by (intro full) (auto simp: walkpgdir_def has_tab_def pde_def)
  next
    case (Cons x ys)
    obtain t f where t: "kalloc s = Ret x t" "kmem_inv e t ys" "mem t = mem s" "t = s\<lparr>kmem_freelist := f\<rparr>"
      using kalloc_page d(1) Cons by blast
    have x: "page_ok e x" "x \<notin> set ys" "x \<notin> pt_pages (mem t) pgdir" "set ys \<subseteq> set xs"
      using inv Cons t(3) by (auto simp: pt_inv_def kmem_inv_def)
    have it: "pt_inv e t pgdir ys" by (rule pt_inv_cong [OF inv t(2) x(4)]) (simp add: t(3))
    define m where m: "m = store32 (memset (mem t) x 0 PGSIZE) (entry pgdir (PDX va)) (v2p x OR PTE_P OR PTE_W OR PTE_U)"
    have nt: "\<not> has_tab (mem t) pgdir (PDX va)" "x \<noteq> pgdir" using False t(3) x(3) by (auto simp: pt_pages_def)
    note n = new_table [OF it x(1-3) index_lt(1) nt(1) m] and sh = new_table_shape [OF d(2) x(1) nt(2) index_lt(1) nt(1) m]
    have "walkpgdir pgdir va True s = Ret (entry x (PTX va)) (t\<lparr>mem := m\<rparr>)"
      using False t(1) page_ok_nonzero [OF x(1)] by (simp add: walkpgdir_def has_tab_def pde_def m)
    then show ?thesis
      using n sh(1-3) Cons t(3,4)
      by (intro ok [of "t\<lparr>mem := m\<rparr>" ys "[x]"]) (auto simp: pt_pages_def)
  qed
qed

text \<open>Storing an entry in a table changes the address space in one page.\<close>

lemma store_pte:
  assumes inv: "pt_inv e s pgdir xs" and ht: "has_tab (mem s) pgdir (PDX va)"
    and m: "m = store32 (mem s) (entry (tab (mem s) pgdir (PDX va)) (PTX va)) v"
  shows "pt_inv e (s\<lparr>mem := m\<rparr>) pgdir xs" and "pt_pages m pgdir = pt_pages (mem s) pgdir"
    and "pte_of m pgdir va' =
      (if PGROUNDDOWN va' = PGROUNDDOWN va then (if v AND PTE_P \<noteq> 0 then Some v else None) else pte_of (mem s) pgdir va')"
    and "\<forall>p \<in> pt_pages (mem s) pgdir. \<not> a - p < PGSIZE \<Longrightarrow> m a = mem s a"
proof -
  note d = pt_invD [OF inv]
  let ?t = "tab (mem s) pgdir (PDX va)"
  have t: "page_ok e ?t" "?t \<notin> set xs" "?t \<noteq> pgdir" "?t \<in> pt_pages (mem s) pgdir" using d(4) [OF ht] ht by (auto simp: pt_pages_def)
  note al = page_ok_aligned [OF t(1)] page_ok_aligned [OF d(2)]
  have frame: "m a = mem s a" if "\<not> a - ?t < PGSIZE" for a
    unfolding m using store_entry_outside [OF al(1) index_lt(2) that] .
  then show "\<forall>p \<in> pt_pages (mem s) pgdir. \<not> a - p < PGSIZE \<Longrightarrow> m a = mem s a" using t(4) by blast
  have pg: "m a = mem s a" if "a - pgdir < PGSIZE" for a
    using that pages_disjoint [OF al, of a] t(3) by (intro frame) blast
  note c = pt_cong [where m' = m and m = "mem s", OF d(2) pg]
  have "kmem_inv e (s\<lparr>mem := m\<rparr>) xs" by (rule kmem_inv_write [OF d(1) t(1,2) frame])
  then show "pt_inv e (s\<lparr>mem := m\<rparr>) pgdir xs" by (rule pt_inv_cong [OF inv]) (auto simp: pg)
  show "pt_pages m pgdir = pt_pages (mem s) pgdir" using c(3) by blast
  show "pte_of m pgdir va' =
      (if PGROUNDDOWN va' = PGROUNDDOWN va then (if v AND PTE_P \<noteq> 0 then Some v else None) else pte_of (mem s) pgdir va')"
  proof (cases "has_tab (mem s) pgdir (PDX va')")
    case True
    let ?u = "tab (mem s) pgdir (PDX va')"
    have u: "?u mod PGSIZE = 0" using d(4) [OF True] page_ok_aligned by blast
    have "?t = ?u \<longleftrightarrow> PDX va = PDX va'" using d(5) [OF ht True] by auto
    then have "load32 m (entry ?u (PTX va')) =
        (if PGROUNDDOWN va' = PGROUNDDOWN va then v else load32 (mem s) (entry ?u (PTX va')))"
      unfolding m load_store_entry [OF al(1) u index_lt(2) index_lt(2)] using same_page [of va va'] by auto
    then show ?thesis using True c(1,2) pg by (simp add: pte_of_tab)
  next
    case False
    then have "PGROUNDDOWN va' \<noteq> PGROUNDDOWN va" using ht same_page [of va va'] by auto
    then show ?thesis using False c(1) pg by (simp add: pte_of_tab)
  qed
qed

text \<open>The effect of mapping the pages from \<open>a\<close> to \<open>b\<close>.\<close>

definition mapped :: "u32 \<Rightarrow> u32 \<Rightarrow> u32 \<Rightarrow> u32 \<Rightarrow> (u32 \<Rightarrow> u32 option) \<Rightarrow> u32 \<Rightarrow> u32 option" where
  "mapped a b pa perm f va =
     (if PGROUNDDOWN va - a \<le> b - a then Some ((pa + (PGROUNDDOWN va - a)) OR perm OR PTE_P) else f va)"

lemma or_P: "(x OR y OR PTE_P) AND PTE_P \<noteq> 0"
  by (simp add: PTE_P_def bit.conj_disj_distrib2 or_eq_0_iff)

lemma aligned_diff: "x mod PGSIZE = 0 \<Longrightarrow> a mod PGSIZE = 0 \<Longrightarrow> x \<noteq> a \<Longrightarrow> PGSIZE \<le> x - a"
  using pages_disjoint [of x a x] by (auto simp: PGSIZE_def not_less [symmetric])

lemma aligned_add: "a mod PGSIZE = 0 \<Longrightarrow> (a + PGSIZE) mod PGSIZE = 0"
proof -
  assume "a mod PGSIZE = 0"
  then have a: "unat a mod 4096 = 0" by (simp only: aligned_unat)
  have "unat (a + PGSIZE) mod 4096 = (unat a + 4096) mod 2 ^ 32 mod 4096" by (simp add: PGSIZE_def unat_word_ariths)
  also have "\<dots> = (unat a + 4096) mod 4096" by (rule mod_mod_cancel) simp
  finally show ?thesis using a by (simp only: aligned_unat) simp
qed

lemma page_range_step:
  assumes "a mod PGSIZE = 0" and "x mod PGSIZE = 0" and "PGSIZE \<le> b - a"
  shows "x - (a + PGSIZE) \<le> b - (a + PGSIZE) \<longleftrightarrow> x - a \<le> b - a \<and> x \<noteq> a"
proof (cases "x = a")
  case True
  have "unat (b - a - PGSIZE) = unat (b - a) - 4096" using assms(3) by (simp add: unat_sub PGSIZE_def)
  moreover have "unat (b - a) < 2 ^ 32" using unsigned_less [of "b - a", where 'a = nat] by simp
  moreover have "unat (- PGSIZE) = 2 ^ 32 - 4096" by (simp add: PGSIZE_def)
  ultimately have "b - (a + PGSIZE) < - PGSIZE" by (simp add: diff_diff_eq [symmetric] word_less_nat_alt)
  then show ?thesis using True by (simp add: not_le)
next
  case False
  let ?o = "x - a"
  have "PGSIZE \<le> ?o" using aligned_diff [OF assms(2,1) False] .
  then have "?o - PGSIZE \<le> b - a - PGSIZE \<longleftrightarrow> ?o \<le> b - a"
    using assms(3) by (simp add: word_le_nat_alt unat_sub) linarith
  then show ?thesis using False by (simp add: diff_diff_eq [symmetric])
qed

lemma mapped_step:
  assumes "a mod PGSIZE = 0" and "PGSIZE \<le> b - a"
  shows "mapped (a + PGSIZE) b (pa + PGSIZE) perm (\<lambda>va. if PGROUNDDOWN va = a then Some (pa OR perm OR PTE_P) else f va) =
    mapped a b pa perm f"
proof
  fix va
  show "mapped (a + PGSIZE) b (pa + PGSIZE) perm (\<lambda>va. if PGROUNDDOWN va = a then Some (pa OR perm OR PTE_P) else f va) va =
    mapped a b pa perm f va"
    using page_range_step [OF assms(1) rounddown_aligned(1) assms(2), of va] by (auto simp: mapped_def)
qed

text \<open>What a path that edits the page table \<open>pgdir\<close> leaves alone; \<open>us\<close> are the pages it took.\<close>

definition pt_grew :: "u32 \<Rightarrow> u32 \<Rightarrow> 'z kphys_scheme \<Rightarrow> 'z kphys_scheme \<Rightarrow> u32 list \<Rightarrow> u32 list \<Rightarrow> bool" where
  "pt_grew e pgdir s t us ys \<longleftrightarrow> pt_inv e t pgdir ys \<and> pt_pages (mem t) pgdir = pt_pages (mem s) pgdir \<union> set us \<and>
     (\<forall>a. (\<forall>p \<in> pt_pages (mem t) pgdir. \<not> a - p < PGSIZE) \<longrightarrow> mem t a = mem s a) \<and>
     (\<exists>f m. t = s\<lparr>kmem_freelist := f, mem := m\<rparr>)"

lemma pt_grew_trans:
  assumes "pt_grew e pgdir s t us (vs @ ys)" and "pt_grew e pgdir t u vs ys"
  shows "pt_grew e pgdir s u (us @ vs) ys"
proof -
  obtain f m f' m' where "t = s\<lparr>kmem_freelist := f, mem := m\<rparr>" "u = t\<lparr>kmem_freelist := f', mem := m'\<rparr>"
    using assms unfolding pt_grew_def by blast
  then have "u = s\<lparr>kmem_freelist := f', mem := m'\<rparr>" by simp
  moreover have "mem u a = mem s a" if "\<forall>p \<in> pt_pages (mem u) pgdir. \<not> a - p < PGSIZE" for a
    using assms that unfolding pt_grew_def by (metis Un_iff)
  moreover have "pt_pages (mem u) pgdir = pt_pages (mem s) pgdir \<union> set (us @ vs)" using assms by (auto simp: pt_grew_def)
  ultimately show ?thesis using assms(2) unfolding pt_grew_def by blast
qed

lemma mappages_loop_unfold:
  "walkpgdir pgdir a True s = Ret pte t \<Longrightarrow> pte \<noteq> 0 \<Longrightarrow> load32 (mem t) pte AND PTE_P = 0 \<Longrightarrow>
   mappages_loop pgdir a b pa perm s =
     (if b - a < PGSIZE then Ret 0 (t\<lparr>mem := store32 (mem t) pte (pa OR perm OR PTE_P)\<rparr>)
      else mappages_loop pgdir (a + PGSIZE) b (pa + PGSIZE) perm (t\<lparr>mem := store32 (mem t) pte (pa OR perm OR PTE_P)\<rparr>))"
  by (subst mappages_loop.simps) simp

lemma mappages_loop_ok:
  assumes "pt_inv e s pgdir xs" and "a mod PGSIZE = 0" and "b mod PGSIZE = 0"
    and "\<And>va. PGROUNDDOWN va - a \<le> b - a \<Longrightarrow> pte_of (mem s) pgdir va = None"
  shows "\<exists>r t us ys. mappages_loop pgdir a b pa perm s = Ret r t \<and> xs = us @ ys \<and> pt_grew e pgdir s t us ys \<and>
    (r = 0 \<and> pte_of (mem t) pgdir = mapped a b pa perm (pte_of (mem s) pgdir) \<or>
     r = -1 \<and> ys = [] \<and> (\<forall>va. \<not> PGROUNDDOWN va - a \<le> b - a \<longrightarrow> pte_of (mem t) pgdir va = pte_of (mem s) pgdir va))"
  using assms(1,2,4)
proof (induction "unat (b - a)" arbitrary: a pa s xs rule: less_induct)
  case less
  show ?case
  proof (rule walk_alloc [OF less.prems(1), of a], goal_cases)
    case 1
    then have "mappages_loop pgdir a b pa perm s = Ret (-1) s" by (subst mappages_loop.simps) simp
    moreover have "pt_grew e pgdir s s [] []" using less.prems(1) 1(1)
      by (auto simp: pt_grew_def intro!: exI [of _ "kmem_freelist s"] exI [of _ "mem s"])
    ultimately show ?case using 1(1) by (intro exI [of _ "-1"] exI [of _ s] exI [of _ "[]"]) simp
  next
    case (2 t us ys)
    let ?T = "tab (mem t) pgdir (PDX a)" and ?v = "pa OR perm OR PTE_P"
    define m where m: "m = store32 (mem t) (entry ?T (PTX a)) ?v"
    note st = store_pte [OF 2(3,2) m]
    have ra: "PGROUNDDOWN a = a" by (rule PGROUNDDOWN_aligned [OF less.prems(2)])
    have "pte_of (mem t) pgdir a = None" using 2(6) less.prems(3) [of a] ra by simp
    then have free: "load32 (mem t) (entry ?T (PTX a)) AND PTE_P = 0" using 2(2) by (simp add: pte_of_tab split: if_splits)
    have nz: "entry ?T (PTX a) \<noteq> 0" using pt_invD(4) [OF 2(3,2)] entry_nonzero by fastforce
    note un = mappages_loop_unfold [OF 2(1) nz free, of b pa perm, folded m]
    obtain f m0 where "t = s\<lparr>kmem_freelist := f, mem := m0\<rparr>" using 2(8) by blast
    then have "t\<lparr>mem := m\<rparr> = s\<lparr>kmem_freelist := f, mem := m\<rparr>" by simp
    moreover have mm: "mem (t\<lparr>mem := m\<rparr>) = m" by simp
    moreover have "m x = mem s x" if "\<forall>p \<in> pt_pages m pgdir. \<not> x - p < PGSIZE" for x
      using st(4) [of x] 2(7) [of x] that unfolding st(2) by simp
    moreover have "pt_pages m pgdir = pt_pages (mem s) pgdir \<union> set us" unfolding st(2) by (rule 2(5))
    ultimately have g1: "pt_grew e pgdir s (t\<lparr>mem := m\<rparr>) us ys" unfolding pt_grew_def mm using st(1) by blast
    have p1: "pte_of m pgdir = (\<lambda>va. if PGROUNDDOWN va = a then Some ?v else pte_of (mem s) pgdir va)"
      using st(3) 2(6) ra or_P by auto
    show ?case
    proof (cases "b - a < PGSIZE")
      case True
      then have "b = a" using aligned_diff [OF assms(3) less.prems(2)] by (meson leD)
      then have "pte_of m pgdir = mapped a b pa perm (pte_of (mem s) pgdir)"
        using p1 by (auto simp: mapped_def fun_eq_iff)
      then show ?thesis using un True g1 2(4) by (intro exI [of _ 0] exI [of _ "t\<lparr>mem := m\<rparr>"] exI [of _ us] exI [of _ ys]) simp
    next
      case False
      then have ge: "PGSIZE \<le> b - a" by simp
      then have lt: "unat (b - (a + PGSIZE)) < unat (b - a)"
        using unat_sub [of PGSIZE "b - a"] by (simp add: PGSIZE_def diff_diff_eq word_le_nat_alt)
      note range = page_range_step [OF less.prems(2) rounddown_aligned(1) ge]
      have un': "mappages_loop pgdir a b pa perm s = mappages_loop pgdir (a + PGSIZE) b (pa + PGSIZE) perm (t\<lparr>mem := m\<rparr>)"
        using un False by simp
      from less.hyps [OF lt, of "t\<lparr>mem := m\<rparr>" ys "pa + PGSIZE", OF st(1) aligned_add [OF less.prems(2)]]
      obtain r u vs zs where u: "mappages_loop pgdir (a + PGSIZE) b (pa + PGSIZE) perm (t\<lparr>mem := m\<rparr>) = Ret r u" "ys = vs @ zs"
          "pt_grew e pgdir (t\<lparr>mem := m\<rparr>) u vs zs"
          "r = 0 \<and> pte_of (mem u) pgdir = mapped (a + PGSIZE) b (pa + PGSIZE) perm (pte_of m pgdir) \<or>
           r = -1 \<and> zs = [] \<and> (\<forall>va. \<not> PGROUNDDOWN va - (a + PGSIZE) \<le> b - (a + PGSIZE) \<longrightarrow> pte_of (mem u) pgdir va = pte_of m pgdir va)"
        using range p1 less.prems(3) by auto
      have "pt_grew e pgdir s u (us @ vs) zs" using pt_grew_trans [OF _ u(3)] g1 u(2) by simp
      moreover have "r = 0 \<and> pte_of (mem u) pgdir = mapped a b pa perm (pte_of (mem s) pgdir) \<or>
          r = -1 \<and> zs = [] \<and> (\<forall>va. \<not> PGROUNDDOWN va - a \<le> b - a \<longrightarrow> pte_of (mem u) pgdir va = pte_of (mem s) pgdir va)"
        using u(4) unfolding p1 mapped_step [OF less.prems(2) ge] range by auto
      ultimately show ?thesis using un' u(1,2) 2(4) by (intro exI [of _ r] exI [of _ u] exI [of _ "us @ vs"] exI [of _ zs]) simp
    qed
  qed
qed

section \<open>Properties\<close>

text \<open>C8. \<open>mappages\<close> maps what it says and nothing else: on a well-formed page table with no page of the range
  mapped, it never panics. It returns 0 with exactly the pages of the range mapped to consecutive
  frames with the given permission and every other translation as before, or -1 with no free
  page left and every translation outside the range as before. The pages it took from the free
  list are new pages of the table, which stays well formed, and memory outside the table is
  untouched.\<close>

theorem mappages_maps:
  assumes "pt_inv e s pgdir xs" and "a = PGROUNDDOWN va" and "b = PGROUNDDOWN (va + sz - 1)"
    and "\<forall>v. PGROUNDDOWN v - a \<le> b - a \<longrightarrow> pte_of (mem s) pgdir v = None"
  shows "\<exists>r t us ys. mappages pgdir va sz pa perm s = Ret r t \<and> xs = us @ ys \<and> pt_grew e pgdir s t us ys \<and>
    (r = 0 \<and> pte_of (mem t) pgdir = mapped a b pa perm (pte_of (mem s) pgdir) \<or>
     r = -1 \<and> ys = [] \<and> (\<forall>v. \<not> PGROUNDDOWN v - a \<le> b - a \<longrightarrow> pte_of (mem t) pgdir v = pte_of (mem s) pgdir v))"
  unfolding mappages_def using mappages_loop_ok [OF assms(1), of a b pa perm] assms(2-4) by simp

text \<open>A zeroed page directory and one free page.\<close>

definition two_pages :: kphys where
  "two_pages = boot_phys\<lparr>kmem_freelist := 0x80401000\<rparr>"

lemma two_pages_inv: "pt_inv 0x80115000 two_pages 0x80400000 [0x80401000]" "pte_of (mem two_pages) 0x80400000 v = None"
proof -
  have z: "load32 (mem two_pages) a = 0" for a by (simp add: two_pages_def boot_phys_def load32_def)
  then have h: "\<not> has_tab (mem two_pages) 0x80400000 i" for i by (simp add: has_tab_def pde_def)
  show "pte_of (mem two_pages) 0x80400000 v = None" using h by (simp add: pte_of_tab)
  have "kmem_inv 0x80115000 two_pages [0x80401000]"
    using z by (simp add: kmem_inv_def page_ok_def PGSIZE_def PHYSTOP_def v2p_def KERNBASE_V_def)
      (simp add: two_pages_def boot_phys_def)
  then show "pt_inv 0x80115000 two_pages 0x80400000 [0x80401000]"
    using h by (simp add: pt_inv_def pt_pages_def page_ok_def PGSIZE_def PHYSTOP_def v2p_def KERNBASE_V_def)
qed

theorem mappages_maps_witness:
  "\<exists>r t. mappages 0x80400000 0x2000 4096 0x5000 PTE_W two_pages = Ret r t \<and>
    (r = 0 \<and> pte_of (mem t) 0x80400000 0x2ABC = Some 0x5003 \<and> pte_of (mem t) 0x80400000 0x3000 = None \<or> r = -1)"
proof -
  have r: "PGROUNDDOWN 0x2000 = 0x2000" "PGROUNDDOWN 0x2FFF = 0x2000" "PGROUNDDOWN 0x2ABC = 0x2000" "PGROUNDDOWN 0x3000 = 0x3000"
    by (simp_all add: PGROUNDDOWN_def PGSIZE_def)
  show ?thesis
    using mappages_maps [OF two_pages_inv(1), where a = "0x2000" and b = "0x2000" and va = "0x2000" and sz = 4096 and pa = "0x5000" and perm = PTE_W] r two_pages_inv(2)
    by (auto simp: mapped_def PTE_W_def PTE_P_def)
qed

end
