(* ===== verification/Ring.thy ===== *)
theory Ring
  imports Cstring
begin

text \<open>
  Ring buffers with 32-bit counters that are never reset, as \<open>struct pipe\<close>
  (\<open>src/HW3/pipe.c\<close>) and the console input buffer (\<open>src/HW3/console.c\<close>) keep them: an
  array, a count of elements taken and a count of elements put, both of which wrap around,
  and an element's place found by reducing its count modulo the size. This is right
  because the size divides \<open>2 ^ 32\<close>, which the locale \<open>ring_size\<close> makes explicit.
\<close>

text \<open>The queue a ring of size \<open>N\<close> holds between the counters \<open>r\<close> and \<open>w\<close>.\<close>

definition ring_q :: "nat \<Rightarrow> 'a list \<Rightarrow> u32 \<Rightarrow> u32 \<Rightarrow> 'a list" where
  "ring_q N xs r w = map (\<lambda>i. xs ! (unat (r + of_nat i) mod N)) [0..<unat (w - r)]"

lemma length_ring_q [simp]: "length (ring_q N xs r w) = unat (w - r)"
  by (simp add: ring_q_def)

lemma ring_q_empty: "ring_q N xs r w = [] \<longleftrightarrow> r = w"
  by (auto simp: ring_q_def unat_eq_0)

locale ring_size =
  fixes N :: nat
  assumes size_pos: "0 < N" and size_lt: "N < 2 ^ 32" and size_dvd: "N dvd 2 ^ 32"
begin

lemma index_add: "unat (r + of_nat i :: u32) mod N = (unat r + i) mod N"
proof -
  have "unat (r + of_nat i) = (unat r + i) mod 2 ^ 32"
    by (simp add: unat_word_ariths unat_of_nat mod_simps)
  then show ?thesis using size_dvd by (simp add: mod_mod_cancel)
qed

lemma index_Suc: "unat (r + 1 :: u32) mod N = Suc (unat r) mod N"
  using index_add [of r 1] by simp

lemma count_Suc: "unat (w - r) < N \<Longrightarrow> unat (w + 1 - r :: u32) = Suc (unat (w - r))"
proof -
  assume "unat (w - r) < N"
  then have "unat (w - r + 1) = Suc (unat (w - r))" using size_lt by (simp add: unat_word_ariths)
  then show ?thesis by (simp add: algebra_simps)
qed

lemma put:
  assumes "length xs = N" and "unat (w - r) < N"
  shows "ring_q N (xs[unat w mod N := x]) r (w + 1) = ring_q N xs r w @ [x]"
proof -
  have w: "unat w mod N = (unat r + unat (w - r)) mod N"
    using index_add [of r "unat (w - r)"] by simp
  have "xs[unat w mod N := x] ! (unat (r + of_nat i) mod N) = xs ! (unat (r + of_nat i) mod N)"
    if "i < unat (w - r)" for i
  proof -
    have "(unat r + i) mod N \<noteq> (unat r + unat (w - r)) mod N"
    proof
      assume eq: "(unat r + i) mod N = (unat r + unat (w - r)) mod N"
      then have "N dvd unat r + unat (w - r) - (unat r + i)"
        using that by (metis mod_eq_dvd_iff_nat add_le_mono less_imp_le order_refl)
      then have "N dvd unat (w - r) - i" by simp
      with that assms(2) show False by (auto dest: dvd_imp_le)
    qed
    then show ?thesis by (simp add: index_add w)
  qed
  moreover have "xs[unat w mod N := x] ! (unat (r + of_nat (unat (w - r))) mod N) = x"
    using assms(1) size_pos by simp
  ultimately show ?thesis
    using count_Suc [OF assms(2)] by (simp add: ring_q_def)
qed

lemma get:
  assumes "r \<noteq> w"
  shows "ring_q N xs r w = xs ! (unat r mod N) # ring_q N xs (r + 1) w"
proof -
  have "unat (w - r) = Suc (unat (w - (r + 1)))"
    using assms by (simp add: unat_diff_Suc)
  then have "[0..<unat (w - r)] = 0 # map Suc [0..<unat (w - (r + 1))]"
    by (simp add: upt_conv_Cons map_Suc_upt)
  then show ?thesis
    by (simp add: ring_q_def comp_def algebra_simps)
qed

end

end
