(* ===== verification/Pipe.thy ===== *)
theory Pipe
  imports Kalloc Ring
begin

text \<open>
  Pipes, \<open>src/HW3/pipe.c\<close>. The pipe object in the page at address \<open>p\<close> is \<open>pipes s p\<close>.
  A call that finds the pipe full (or empty) sleeps: the path ends with \<open>Swtch\<close>, and
  what the call does when it is woken is \<open>pipewrite_resume\<close> (\<open>piperead_resume\<close>) on the
  bytes that are left. The bytes a write takes from user memory and the bytes a read
  puts there are lists.
\<close>

section \<open>State\<close>

record pipe =
  pdata :: "u8 list"
  nread :: u32
  nwrite :: u32
  readopen :: bool
  writeopen :: bool

record kpipe = kphys +
  pipes :: "u32 \<Rightarrow> pipe"

definition PIPESIZE :: nat where "PIPESIZE = 512"

definition upd_pipe :: "u32 \<Rightarrow> (pipe \<Rightarrow> pipe) \<Rightarrow> 'z kpipe_scheme \<Rightarrow> 'z kpipe_scheme" where
  "upd_pipe p f s = s\<lparr>pipes := (pipes s)(p := f (pipes s p))\<rparr>"

section \<open>Operations\<close>

definition pipe_full :: "pipe \<Rightarrow> bool" where
  "pipe_full P \<longleftrightarrow> nwrite P = nread P + of_nat PIPESIZE"

definition pipe_put :: "u8 \<Rightarrow> pipe \<Rightarrow> pipe" where
  "pipe_put b P = P\<lparr>pdata := (pdata P)[unat (nwrite P) mod PIPESIZE := b], nwrite := nwrite P + 1\<rparr>"

definition proc_killed :: "('z kcore_scheme, bool) prog" where
  "proc_killed = kbind the_proc (\<lambda>i. kget (\<lambda>s. p_killed (procs s ! i)))"

text \<open>The loop of \<open>pipewrite\<close>; the result tells whether all bytes went in.\<close>

fun pipewrite_loop :: "u32 \<Rightarrow> u8 list \<Rightarrow> ('z kpipe_scheme, bool) prog" where
  "pipewrite_loop p [] = kret True"
| "pipewrite_loop p (b # bs) =
     kbind (kget (\<lambda>s. pipes s p)) (\<lambda>P.
       if pipe_full P then
         kbind (if \<not> readopen P then kret True else proc_killed) (\<lambda>stop.
           if stop then kbind (release (PipeLock p)) (\<lambda>_. kret False)
           else kbind (wakeup (Some (PipeRChan p))) (\<lambda>_.
                kbind (sleep (Some (PipeWChan p)) (Some (PipeLock p))) (\<lambda>_. kret False)))
       else kbind (kmod (upd_pipe p (pipe_put b))) (\<lambda>_. pipewrite_loop p bs))"

definition pipewrite_rest :: "u32 \<Rightarrow> int \<Rightarrow> u8 list \<Rightarrow> ('z kpipe_scheme, int) prog" where
  "pipewrite_rest p n bs =
     kbind (pipewrite_loop p bs) (\<lambda>ok.
       if ok then kbind (kseq [wakeup (Some (PipeRChan p)), release (PipeLock p)]) (\<lambda>_. kret n)
       else kret (-1))"

definition pipewrite :: "u32 \<Rightarrow> u8 list \<Rightarrow> int \<Rightarrow> ('z kpipe_scheme, int) prog" where
  "pipewrite p addr n =
     kbind (acquire (PipeLock p)) (\<lambda>_. pipewrite_rest p n (take (nat n) addr))"

definition pipewrite_resume :: "u32 \<Rightarrow> int \<Rightarrow> u8 list \<Rightarrow> ('z kpipe_scheme, int) prog" where
  "pipewrite_resume p n bs = kbind (sleep_resume (PipeLock p)) (\<lambda>_. pipewrite_rest p n bs)"

fun piperead_loop :: "u32 \<Rightarrow> nat \<Rightarrow> ('z kpipe_scheme, u8 list) prog" where
  "piperead_loop p 0 = kret []"
| "piperead_loop p (Suc n) =
     kbind (kget (\<lambda>s. pipes s p)) (\<lambda>P.
       if nread P = nwrite P then kret []
       else kbind (kmod (upd_pipe p (\<lambda>P. P\<lparr>nread := nread P + 1\<rparr>))) (\<lambda>_.
            kbind (piperead_loop p n) (\<lambda>bs.
            kret (pdata P ! (unat (nread P) mod PIPESIZE) # bs))))"

text \<open>The result is \<open>None\<close> for -1, and otherwise the bytes stored; their number is returned.\<close>

definition piperead_rest :: "u32 \<Rightarrow> int \<Rightarrow> ('z kpipe_scheme, u8 list option) prog" where
  "piperead_rest p n =
     kbind (kget (\<lambda>s. pipes s p)) (\<lambda>P.
       if nread P = nwrite P \<and> writeopen P then
         kbind proc_killed (\<lambda>k.
           if k then kbind (release (PipeLock p)) (\<lambda>_. kret None)
           else kbind (sleep (Some (PipeRChan p)) (Some (PipeLock p))) (\<lambda>_. kret None))
       else kbind (piperead_loop p (nat n)) (\<lambda>bs.
            kbind (kseq [wakeup (Some (PipeWChan p)), release (PipeLock p)]) (\<lambda>_. kret (Some bs))))"

definition piperead :: "u32 \<Rightarrow> int \<Rightarrow> ('z kpipe_scheme, u8 list option) prog" where
  "piperead p n = kbind (acquire (PipeLock p)) (\<lambda>_. piperead_rest p n)"

definition piperead_resume :: "u32 \<Rightarrow> int \<Rightarrow> ('z kpipe_scheme, u8 list option) prog" where
  "piperead_resume p n = kbind (sleep_resume (PipeLock p)) (\<lambda>_. piperead_rest p n)"

definition pipeclose :: "u32 \<Rightarrow> bool \<Rightarrow> ('z kpipe_scheme, unit) prog" where
  "pipeclose p writable =
     kbind (acquire (PipeLock p)) (\<lambda>_.
     kbind (if writable
            then kseq [kmod (upd_pipe p (\<lambda>P. P\<lparr>writeopen := False\<rparr>)), wakeup (Some (PipeRChan p))]
            else kseq [kmod (upd_pipe p (\<lambda>P. P\<lparr>readopen := False\<rparr>)), wakeup (Some (PipeWChan p))]) (\<lambda>_.
     kbind (kget (\<lambda>s. pipes s p)) (\<lambda>P.
       if \<not> readopen P \<and> \<not> writeopen P then kseq [release (PipeLock p), kfree p]
       else release (PipeLock p))))"

section \<open>The queue in the ring\<close>

interpretation pr: ring_size PIPESIZE
  by unfold_locales (simp_all add: PIPESIZE_def)

definition pipe_q :: "pipe \<Rightarrow> u8 list" where
  "pipe_q P = ring_q PIPESIZE (pdata P) (nread P) (nwrite P)"

definition pipe_ok :: "pipe \<Rightarrow> bool" where
  "pipe_ok P \<longleftrightarrow> length (pdata P) = PIPESIZE \<and> unat (nwrite P - nread P) \<le> PIPESIZE"

lemma pipe_full_iff: "pipe_ok P \<Longrightarrow> pipe_full P \<longleftrightarrow> length (pipe_q P) = PIPESIZE"
proof -
  have "nwrite P - nread P = of_nat PIPESIZE \<longleftrightarrow> unat (nwrite P - nread P) = PIPESIZE"
    by (simp add: PIPESIZE_def word_unat_eq_iff)
  then show ?thesis by (simp add: pipe_full_def pipe_q_def diff_eq_eq add.commute)
qed

lemma pipe_put:
  assumes "pipe_ok P" and "\<not> pipe_full P"
  shows "pipe_ok (pipe_put b P)" and "pipe_q (pipe_put b P) = pipe_q P @ [b]"
proof -
  have lt: "unat (nwrite P - nread P) < PIPESIZE"
    using assms pipe_full_iff [OF assms(1)] by (simp add: pipe_ok_def pipe_q_def)
  show "pipe_q (pipe_put b P) = pipe_q P @ [b]"
    using assms(1) pr.put [OF _ lt, of "pdata P" b] by (simp add: pipe_q_def pipe_put_def pipe_ok_def)
  show "pipe_ok (pipe_put b P)"
    using assms(1) pr.count_Suc [OF lt] lt by (simp add: pipe_ok_def pipe_put_def)
qed

lemma pipe_get:
  assumes "pipe_ok P" and "nread P \<noteq> nwrite P"
  shows "pipe_q P = pdata P ! (unat (nread P) mod PIPESIZE) # pipe_q (P\<lparr>nread := nread P + 1\<rparr>)"
    and "pipe_ok (P\<lparr>nread := nread P + 1\<rparr>)"
proof -
  show "pipe_q P = pdata P ! (unat (nread P) mod PIPESIZE) # pipe_q (P\<lparr>nread := nread P + 1\<rparr>)"
    using pr.get [OF assms(2)] by (simp add: pipe_q_def)
  show "pipe_ok (P\<lparr>nread := nread P + 1\<rparr>)"
    using assms unat_diff_Suc [of "nwrite P" "nread P"] by (simp add: pipe_ok_def)
qed

lemma pipe_put_simps [simp]:
  "nread (pipe_put b P) = nread P" "readopen (pipe_put b P) = readopen P" "writeopen (pipe_put b P) = writeopen P"
  by (simp_all add: pipe_put_def)

lemma fold_put:
  assumes "pipe_ok P" and "length (pipe_q P) + length bs \<le> PIPESIZE"
  shows "pipe_ok (fold pipe_put bs P) \<and> pipe_q (fold pipe_put bs P) = pipe_q P @ bs \<and>
    readopen (fold pipe_put bs P) = readopen P \<and> writeopen (fold pipe_put bs P) = writeopen P"
  using assms
proof (induction bs arbitrary: P)
  case (Cons b bs)
  then have "\<not> pipe_full P" by (simp add: pipe_full_iff)
  with Cons pipe_put [of P b] show ?case by simp
qed simp

section \<open>Frames\<close>

lemma pipes_more: "kcore.more s = kcore.more t \<Longrightarrow> pipes s = pipes t" for s t :: "'z kpipe_scheme"
  by (cases s; cases t) simp

lemma keeps_pipes:
  "keeps kcore.more m \<Longrightarrow> keeps pipes m" for m :: "('z kpipe_scheme, 'a) prog"
  by (erule keeps_mono) (rule pipes_more)

lemmas keeps_pipes_core [keeps_intros] =
  keeps_more [THEN keeps_pipes] keeps_more_sleep [THEN keeps_pipes] keeps_more_wakeup [THEN keeps_pipes]

lemma keeps_proc_killed [keeps_intros]: "keeps kcore.more proc_killed"
  unfolding proc_killed_def by (intro keeps_intros)

lemma keeps_pipes_killed [keeps_intros]: "keeps pipes (proc_killed :: ('z kpipe_scheme, bool) prog)"
  by (rule keeps_pipes [OF keeps_proc_killed])

lemma upd_pipe_simps [simp]:
  "pipes (upd_pipe p f s) p = f (pipes s p)" "q \<noteq> p \<Longrightarrow> pipes (upd_pipe p f s) q = pipes s q"
  "held (upd_pipe p f s) = held s" "others (upd_pipe p f s) = others s" "cur (upd_pipe p f s) = cur s"
  "procs (upd_pipe p f s) = procs s" "lock_free lk (upd_pipe p f s) = lock_free lk s"
  by (simp_all add: upd_pipe_def lock_free_def)

lemma upd_pipe_twice: "upd_pipe p f (upd_pipe p g s) = upd_pipe p (\<lambda>P. f (g P)) s"
  by (simp add: upd_pipe_def)

lemma upd_pipe_id: "upd_pipe p (\<lambda>_. pipes s p) s = s"
  by (simp add: upd_pipe_def)

text \<open>However a write ends, it has put a prefix of its bytes into the ring, in order.\<close>

lemma write_loop_prefix:
  "out_state (pipewrite_loop p bs s) = Some t \<Longrightarrow> pipe_ok (pipes s p) \<Longrightarrow>
   \<exists>k \<le> length bs. length (pipe_q (pipes s p)) + k \<le> PIPESIZE \<and>
     pipes t p = fold pipe_put (take k bs) (pipes s p)"
proof (induction bs arbitrary: s)
  case Nil
  then show ?case by (simp add: pipe_ok_def pipe_q_def)
next
  case (Cons b bs)
  show ?case
  proof (cases "pipe_full (pipes s p)")
    case True
    have "keeps pipes
      (kbind (if \<not> readopen (pipes s p) then kret True else proc_killed) (\<lambda>stop.
           if stop then kbind (release (PipeLock p)) (\<lambda>_. kret False)
           else kbind (wakeup (Some (PipeRChan p))) (\<lambda>_.
                kbind (sleep (Some (PipeWChan p)) (Some (PipeLock p))) (\<lambda>_. kret False))))"
      by (intro keeps_intros)
    from keepsD [OF this, of s t] True Cons.prems have "pipes t = pipes s" by simp
    with Cons.prems(2) show ?thesis by (intro exI [of _ 0]) (simp add: pipe_ok_def pipe_q_def)
  next
    case False
    let ?u = "upd_pipe p (pipe_put b) s"
    from False Cons.prems have "out_state (pipewrite_loop p bs ?u) = Some t" by simp
    moreover note put = pipe_put [OF Cons.prems(2) False, of b]
    ultimately obtain k where "k \<le> length bs" "length (pipe_q (pipes ?u p)) + k \<le> PIPESIZE"
      "pipes t p = fold pipe_put (take k bs) (pipes ?u p)"
      using Cons.IH [of ?u] by auto
    with put show ?thesis by (intro exI [of _ "Suc k"]) simp
  qed
qed

definition put_some :: "u32 \<Rightarrow> u8 list \<Rightarrow> 'z kpipe_scheme \<Rightarrow> 'z kpipe_scheme \<Rightarrow> bool" where
  "put_some p bs s t \<longleftrightarrow> (\<exists>k \<le> length bs. length (pipe_q (pipes s p)) + k \<le> PIPESIZE \<and>
     pipes t p = fold pipe_put (take k bs) (pipes s p))"

lemma put_none: "pipe_ok (pipes s p) \<Longrightarrow> pipes t p = pipes s p \<Longrightarrow> put_some p bs s t"
  unfolding put_some_def by (rule exI [of _ 0]) (simp add: pipe_ok_def pipe_q_def)

lemma put_some_cong: "pipes s p = pipes s' p \<Longrightarrow> pipes t p = pipes t' p \<Longrightarrow> put_some p bs s t = put_some p bs s' t'"
  by (simp add: put_some_def)

lemma write_rest_some:
  assumes "out_state (pipewrite_rest p n bs s) = Some t" and "pipe_ok (pipes s p)"
  shows "put_some p bs s t"
  using assms(1) unfolding pipewrite_rest_def
proof (cases rule: out_bindE)
  case stop
  then show ?thesis using write_loop_prefix [OF _ assms(2)] by (auto simp: put_some_def)
next
  case (go ok u)
  have "keeps pipes (if ok then kbind (kseq [wakeup (Some (PipeRChan p)), release (PipeLock p)]) (\<lambda>_. kret n)
       else kret (-1) :: ('a kpipe_scheme, int) prog)"
    by (intro keeps_intros)
  from keepsD [OF this go(2)] have "pipes t = pipes u" .
  moreover have "put_some p bs s u"
    using go(1) write_loop_prefix [OF _ assms(2), of bs u] by (auto simp: put_some_def)
  ultimately show ?thesis by (simp add: put_some_def)
qed

lemma write_after:
  assumes "out_state (kbind m (\<lambda>_. pipewrite_rest p n bs) s) = Some t" and "keeps pipes m" and "pipe_ok (pipes s p)"
  shows "put_some p bs s t"
  using assms(1)
proof (cases rule: out_bindE)
  case stop
  then show ?thesis using keepsD [OF assms(2)] put_none [OF assms(3)] by metis
next
  case (go x u)
  have "pipes u = pipes s" using keepsD [OF assms(2)] go(1) by simp
  with go(2) write_rest_some [of p n bs u t] assms(3) put_some_cong [of s p u t t bs] show ?thesis by simp
qed

lemma read_loop:
  assumes "pipe_ok (pipes s p)"
  shows "\<exists>P'. piperead_loop p n s = Ret (take n (pipe_q (pipes s p))) (upd_pipe p (\<lambda>_. P') s) \<and>
     pipe_ok P' \<and> pipe_q P' = drop n (pipe_q (pipes s p)) \<and> readopen P' = readopen (pipes s p) \<and>
     writeopen P' = writeopen (pipes s p)"
  using assms
proof (induction n arbitrary: s)
  case 0
  then show ?case by (intro exI [of _ "pipes s p"]) (simp add: upd_pipe_id)
next
  case (Suc n)
  show ?case
  proof (cases "nread (pipes s p) = nwrite (pipes s p)")
    case True
    then have "pipe_q (pipes s p) = []" by (simp add: pipe_q_def ring_q_empty)
    with True Suc.prems show ?thesis by (intro exI [of _ "pipes s p"]) (simp add: upd_pipe_id)
  next
    case False
    let ?P = "(pipes s p)\<lparr>nread := nread (pipes s p) + 1\<rparr>"
    let ?u = "upd_pipe p (\<lambda>P. P\<lparr>nread := nread P + 1\<rparr>) s"
    note get = pipe_get [OF Suc.prems False]
    from get(2) have "pipe_ok (pipes ?u p)" by simp
    from Suc.IH [OF this, unfolded upd_pipe_simps upd_pipe_twice] obtain P' where P':
      "piperead_loop p n ?u = Ret (take n (pipe_q ?P)) (upd_pipe p (\<lambda>_. P') s)"
      "pipe_ok P'" "pipe_q P' = drop n (pipe_q ?P)" "readopen P' = readopen ?P" "writeopen P' = writeopen ?P"
      by blast
    with False get(1) show ?thesis by (intro exI [of _ P']) simp
  qed
qed

section \<open>Histories\<close>

text \<open>
  What happens to one pipe: writes and reads, each running until it returns or sleeps, and
  anything else that leaves the pipe alone. \<open>W\<close> are the bytes accepted so far, \<open>R\<close> the bytes
  delivered so far; how many bytes of a write were accepted is the growth of \<open>nwrite\<close>.
\<close>

definition accepted :: "u32 \<Rightarrow> 'z kpipe_scheme \<Rightarrow> 'z kpipe_scheme \<Rightarrow> u8 list \<Rightarrow> u8 list" where
  "accepted p s t bs = take (unat (nwrite (pipes t p) - nwrite (pipes s p))) bs"

inductive pipe_hist :: "u32 \<Rightarrow> 'z kpipe_scheme \<Rightarrow> u8 list \<Rightarrow> u8 list \<Rightarrow> bool" for p where
  new: "pipe_ok (pipes s p) \<Longrightarrow> pipe_q (pipes s p) = [] \<Longrightarrow> pipe_hist p s [] []"
| wr: "pipe_hist p s W R \<Longrightarrow> out_state (pipewrite p bs n s) = Some t \<Longrightarrow>
    pipe_hist p t (W @ accepted p s t (take (nat n) bs)) R"
| wr_resume: "pipe_hist p s W R \<Longrightarrow> out_state (pipewrite_resume p n bs s) = Some t \<Longrightarrow>
    pipe_hist p t (W @ accepted p s t bs) R"
| rd: "pipe_hist p s W R \<Longrightarrow> piperead p n s = Ret (Some bs) t \<Longrightarrow> pipe_hist p t W (R @ bs)"
| rd_resume: "pipe_hist p s W R \<Longrightarrow> piperead_resume p n s = Ret (Some bs) t \<Longrightarrow> pipe_hist p t W (R @ bs)"
| other: "pipe_hist p s W R \<Longrightarrow> pipes t p = pipes s p \<Longrightarrow> pipe_hist p t W R"

lemma nwrite_fold: "nwrite (fold pipe_put bs P) = nwrite P + of_nat (length bs)"
  by (induction bs arbitrary: P) (simp_all add: pipe_put_def algebra_simps)

lemma put_some_queue:
  assumes "put_some p bs s t" and "pipe_ok (pipes s p)"
  shows "pipe_ok (pipes t p) \<and> pipe_q (pipes t p) = pipe_q (pipes s p) @ accepted p s t bs"
proof -
  obtain k where k: "k \<le> length bs" "length (pipe_q (pipes s p)) + k \<le> PIPESIZE"
    "pipes t p = fold pipe_put (take k bs) (pipes s p)"
    using assms(1) by (auto simp: put_some_def)
  have "unat (nwrite (pipes t p) - nwrite (pipes s p)) = k"
    using k by (simp add: nwrite_fold unat_of_nat PIPESIZE_def)
  then show ?thesis
    using k fold_put [OF assms(2), of "take k bs"] by (simp add: accepted_def)
qed

lemma read_after:
  assumes "kbind m (\<lambda>_. piperead_rest p n) s = Ret (Some bs) t" and "keeps pipes m" and "pipe_ok (pipes s p)"
  shows "pipe_ok (pipes t p) \<and> pipe_q (pipes s p) = bs @ pipe_q (pipes t p)"
proof -
  obtain x u where u: "m s = Ret x u" "piperead_rest p n u = Ret (Some bs) t"
    using assms(1) by (auto simp: kbind_eq_Ret)
  have eq: "pipes u = pipes s" using keepsD [OF assms(2)] u(1) by simp
  obtain v where v: "piperead_loop p (nat n) u = Ret bs v"
      "kseq [wakeup (Some (PipeWChan p)), release (PipeLock p)] v = Ret () t"
    using u(2) by (auto simp: piperead_rest_def kbind_eq_Ret split: if_splits)
  have "keeps pipes (kseq [wakeup (Some (PipeWChan p)), release (PipeLock p)] :: ('a kpipe_scheme, unit) prog)"
    by (intro keeps_intros)
  from keeps_Ret [OF this v(2)] have "pipes t = pipes v" .
  with read_loop [of u p "nat n"] v(1) eq assms(3) show ?thesis
    by (auto simp: append_take_drop_id)
qed

lemma keeps_pipes_resume [keeps_intros]: "keeps pipes (sleep_resume l :: ('z kpipe_scheme, unit) prog)"
  by (rule keeps_pipes [OF keeps_more_sleep(2)])

lemma hist_inv: "pipe_hist p s W R \<Longrightarrow> pipe_ok (pipes s p) \<and> W = R @ pipe_q (pipes s p)"
proof (induction rule: pipe_hist.induct)
  case (wr s W R bs n t)
  then have "put_some p (take (nat n) bs) s t"
    by (intro write_after [of "acquire (PipeLock p)" _ n]) (auto simp: pipewrite_def intro: keeps_intros)
  with wr put_some_queue show ?case by fastforce
next
  case (wr_resume s W R n bs t)
  then have "put_some p bs s t"
    by (intro write_after [of "sleep_resume (PipeLock p)" _ n]) (auto simp: pipewrite_resume_def intro: keeps_intros)
  with wr_resume put_some_queue show ?case by fastforce
next
  case (rd s W R n bs t)
  then show ?case
    using read_after [of "acquire (PipeLock p)" p n s bs t] by (auto simp: piperead_def intro: keeps_intros)
next
  case (rd_resume s W R n bs t)
  then show ?case
    using read_after [of "sleep_resume (PipeLock p)" p n s bs t] by (auto simp: piperead_resume_def intro: keeps_intros)
qed auto

section \<open>Outcomes\<close>

lemma write_loop_go:
  "pipe_ok (pipes s p) \<Longrightarrow> length (pipe_q (pipes s p)) + length bs \<le> PIPESIZE \<Longrightarrow>
   pipewrite_loop p (bs @ cs) s = pipewrite_loop p cs (upd_pipe p (fold pipe_put bs) s)"
proof (induction bs arbitrary: s)
  case Nil
  then show ?case by (simp add: upd_pipe_def)
next
  case (Cons b bs)
  then have nf: "\<not> pipe_full (pipes s p)" by (simp add: pipe_full_iff)
  let ?u = "upd_pipe p (pipe_put b) s"
  have "pipewrite_loop p (bs @ cs) ?u = pipewrite_loop p cs (upd_pipe p (fold pipe_put bs) ?u)"
    using Cons.prems pipe_put [OF Cons.prems(1) nf, of b] by (intro Cons.IH) simp_all
  with nf show ?case by (simp add: upd_pipe_twice)
qed

lemma upd_held_pipe: "upd_pipe p f (s\<lparr>held := h\<rparr>) = (upd_pipe p f s)\<lparr>held := h\<rparr>"
  by (simp add: upd_pipe_def)

lemma pipes_wakeup1 [simp]: "pipes (wakeup1 ch s) = pipes s"
  by (simp add: wakeup1_def)

lemma pipes_upd_proc [simp]: "pipes (upd_proc i f s) = pipes s"
  by (simp add: upd_proc_def)

lemma write_all:
  assumes "pipe_ok (pipes s p)" and "length (pipe_q (pipes s p)) + length bs \<le> PIPESIZE"
    and "held s = {PipeLock p}" and "PtableLock \<notin> others s"
  shows "pipewrite_rest p n bs s =
    Ret n ((wakeup1 (Some (PipeRChan p)) (upd_pipe p (fold pipe_put bs) s))\<lparr>held := {}\<rparr>)"
proof -
  have "lock_free PtableLock (upd_pipe p (fold pipe_put bs) s)" using assms by (simp add: lock_free_def)
  with write_loop_go [OF assms(1,2), of "[]"] assms(3) show ?thesis
    by (simp add: pipewrite_rest_def wakeup_free prog_simps)
qed

lemma write_full:
  assumes "pipe_full (pipes s p)" and "held s = {PipeLock p}" and "PtableLock \<notin> others s"
    and "cur s = Some i" and "i < length (procs s)"
  shows "pipewrite_rest p n (b # bs) s =
    (if \<not> readopen (pipes s p) \<or> p_killed (procs s ! i) then Ret (-1) (s\<lparr>held := {}\<rparr>)
     else Swtch (upd_proc i (\<lambda>q. q\<lparr>p_chan := Some (PipeWChan p), p_state := SLEEPING\<rparr>)
                  ((wakeup1 (Some (PipeRChan p)) s)\<lparr>held := {PtableLock}\<rparr>)))"
proof -
  have "lock_free PtableLock s" using assms by (simp add: lock_free_def)
  moreover have "sleep (Some (PipeWChan p)) (Some (PipeLock p)) (wakeup1 (Some (PipeRChan p)) s) =
    Swtch (upd_proc i (\<lambda>q. q\<lparr>p_chan := Some (PipeWChan p), p_state := SLEEPING\<rparr>)
                  ((wakeup1 (Some (PipeRChan p)) s)\<lparr>held := {PtableLock}\<rparr>))"
    using assms by (intro sleep_eq) simp_all
  ultimately show ?thesis
    using assms by (simp add: pipewrite_rest_def proc_killed_def wakeup_free prog_simps)
qed

lemma read_some:
  assumes "pipe_ok (pipes s p)" and "pipe_q (pipes s p) \<noteq> [] \<or> \<not> writeopen (pipes s p)"
    and "held s = {PipeLock p}" and "PtableLock \<notin> others s"
  shows "\<exists>t. piperead_rest p n s = Ret (Some (take (nat n) (pipe_q (pipes s p)))) t \<and> held t = {} \<and>
     pipe_q (pipes t p) = drop (nat n) (pipe_q (pipes s p)) \<and> procs t = map (wake_one (Some (PipeWChan p))) (procs s)"
proof -
  obtain P' where P': "piperead_loop p (nat n) s = Ret (take (nat n) (pipe_q (pipes s p))) (upd_pipe p (\<lambda>_. P') s)"
    "pipe_q P' = drop (nat n) (pipe_q (pipes s p))"
    using read_loop [OF assms(1), of "nat n"] by blast
  have "\<not> (nread (pipes s p) = nwrite (pipes s p) \<and> writeopen (pipes s p))"
    using assms(2) by (auto simp: pipe_q_def ring_q_empty)
  moreover have "lock_free PtableLock (upd_pipe p (\<lambda>_. P') s)" using assms by (simp add: lock_free_def)
  ultimately show ?thesis
    using P' assms(3) by (auto simp: piperead_rest_def wakeup_free wakeup1_def)
qed

lemma read_empty:
  assumes "pipe_q (pipes s p) = []" and "writeopen (pipes s p)" and "held s = {PipeLock p}"
    and "PtableLock \<notin> others s" and "cur s = Some i" and "i < length (procs s)"
  shows "piperead_rest p n s =
    (if p_killed (procs s ! i) then Ret None (s\<lparr>held := {}\<rparr>)
     else Swtch (upd_proc i (\<lambda>q. q\<lparr>p_chan := Some (PipeRChan p), p_state := SLEEPING\<rparr>) (s\<lparr>held := {PtableLock}\<rparr>)))"
proof -
  have "sleep (Some (PipeRChan p)) (Some (PipeLock p)) s =
    Swtch (upd_proc i (\<lambda>q. q\<lparr>p_chan := Some (PipeRChan p), p_state := SLEEPING\<rparr>) (s\<lparr>held := {PtableLock}\<rparr>))"
    using assms by (intro sleep_eq) simp_all
  with assms show ?thesis
    by (simp add: piperead_rest_def proc_killed_def pipe_q_def ring_q_empty prog_simps)
qed

section \<open>Properties\<close>

text \<open>C5. A pipe is a first-in first-out channel: over every interleaving of writes and reads, each
  run until it returns or sleeps and resumed any number of times, and of anything else the
  kernel does, the bytes delivered to readers are the first of the bytes accepted from
  writers, in order, and the rest, at most 512, is what the ring holds; this includes the
  wrap-around of the 32-bit counters.\<close>

theorem pipe_fifo:
  assumes "pipe_hist p s W R"
  shows "W = R @ pipe_q (pipes s p) \<and> length W \<le> length R + 512"
  using hist_inv [OF assms] by (auto simp: pipe_ok_def pipe_q_def PIPESIZE_def)

definition pipe_state :: kpipe where
  "pipe_state = kphys.extend (kcore.extend (core_with [zero_proc\<lparr>p_state := RUNNING, p_pid := 1\<rparr>])
      \<lparr>mem = (\<lambda>_. 0), kend = 0x80115000, kdata = 0x80109000, kmem_use_lock = True, kmem_freelist = 0\<rparr>)
     \<lparr>pipes = (\<lambda>_. \<lparr>pdata = replicate 512 0, nread = 0xFFFFFFFF, nwrite = 0xFFFFFFFF,
        readopen = True, writeopen = True\<rparr>)\<rparr>\<lparr>cur := Some 0\<rparr>"

lemma pipe_state_facts:
  "pipe_ok (pipes pipe_state 0)" "pipe_q (pipes pipe_state 0) = []" "held pipe_state = {}" "others pipe_state = {}"
  "cur pipe_state = Some 0" "procs pipe_state ! 0 = zero_proc\<lparr>p_state := RUNNING, p_pid := 1\<rparr>"
  "0 < length (procs pipe_state)" "readopen (pipes pipe_state 0)"
  by (simp_all add: pipe_state_def kcore.defs kphys.defs core_with_def pipe_ok_def pipe_q_def ring_q_def PIPESIZE_def)

theorem pipe_fifo_witness:
  "\<exists>s :: kpipe. pipe_hist 0 s [7, 8, 9] [7, 8] \<and> pipe_q (pipes s 0) = [9]"
proof -
  let ?s = "pipe_state\<lparr>held := {PipeLock 0}\<rparr>"
  have e: "pipewrite 0 [7, 8, 9] 3 pipe_state = pipewrite_rest 0 3 [7, 8, 9] ?s"
    using pipe_state_facts by (simp add: pipewrite_def acquire_def numeral_eq_Suc)
  obtain t where t: "pipewrite_rest 0 3 [7, 8, 9] ?s = Ret 3 t" "held t = {}" "others t = {}"
    "pipes t 0 = fold pipe_put [7, 8, 9] (pipes pipe_state 0)"
    using write_all [of ?s 0 "[7, 8, 9]" 3] pipe_state_facts by (simp add: PIPESIZE_def)
  have w: "pipewrite 0 [7, 8, 9] 3 pipe_state = Ret 3 t" unfolding e by (rule t(1))
  have q: "pipe_ok (pipes t 0)" "pipe_q (pipes t 0) = [7, 8, 9]"
    using fold_put [OF pipe_state_facts(1), of "[7, 8, 9]"] t pipe_state_facts by (simp_all add: PIPESIZE_def)
  have "accepted 0 pipe_state t [7, 8, 9] = [7, 8, 9]"
    using t(4) nwrite_fold [of "[7, 8, 9]" "pipes pipe_state 0"] by (simp add: accepted_def)
  then have h: "pipe_hist 0 t [7, 8, 9] []"
    using pipe_hist.wr [OF pipe_hist.new [OF pipe_state_facts(1,2)], of "[7, 8, 9]" 3 t] w
    by (simp add: numeral_eq_Suc)
  have "piperead 0 2 t = piperead_rest 0 2 (t\<lparr>held := {PipeLock 0}\<rparr>)"
    using t by (simp add: piperead_def acquire_def)
  then obtain u where u: "piperead 0 2 t = Ret (Some [7, 8]) u"
    using read_some [of "t\<lparr>held := {PipeLock 0}\<rparr>" 0 2] q t by (auto simp: numeral_eq_Suc)
  from pipe_hist.rd [OF h u] have "pipe_hist 0 u [7, 8, 9] [7, 8]" by simp
  moreover from pipe_fifo [OF this] have "pipe_q (pipes u 0) = [9]" by simp
  ultimately show ?thesis by blast
qed

text \<open>C27. A write has exactly three outcomes: with room for all bytes it stores them all, wakes
  the readers and returns the count; otherwise it fills the ring, and with no reader left or
  the caller killed it returns -1, and else it wakes the readers and sleeps on the pipe with
  the lock given up.\<close>

theorem pipewrite_outcomes:
  assumes "pipe_ok (pipes s p)" and "held s = {}" and "PipeLock p \<notin> others s" and "PtableLock \<notin> others s"
    and "cur s = Some i" and "i < length (procs s)"
  defines "q \<equiv> pipe_q (pipes s p)"
  shows "if length addr \<le> 512 - length q
         then \<exists>t. pipewrite p addr (int (length addr)) s = Ret (int (length addr)) t \<and>
                pipe_q (pipes t p) = q @ addr \<and> held t = {} \<and>
                procs t = map (wake_one (Some (PipeRChan p))) (procs s)
         else if \<not> readopen (pipes s p) \<or> p_killed (procs s ! i)
         then \<exists>t. pipewrite p addr (int (length addr)) s = Ret (-1) t \<and>
                pipe_q (pipes t p) = q @ take (512 - length q) addr \<and> held t = {} \<and> procs t = procs s
         else \<exists>t. pipewrite p addr (int (length addr)) s = Swtch t \<and>
                pipe_q (pipes t p) = q @ take (512 - length q) addr \<and> held t = {PtableLock} \<and>
                p_state (procs t ! i) = SLEEPING \<and> p_chan (procs t ! i) = Some (PipeWChan p) \<and>
                (\<forall>j < length (procs s). j \<noteq> i \<longrightarrow> procs t ! j = wake_one (Some (PipeRChan p)) (procs s ! j))"
proof -
  let ?s = "s\<lparr>held := {PipeLock p}\<rparr>" and ?r = "512 - length q"
  let ?u = "upd_pipe p (fold pipe_put (take ?r addr)) ?s"
  have le: "length q \<le> 512" using assms(1) by (simp add: q_def pipe_ok_def pipe_q_def PIPESIZE_def)
  have w: "pipewrite p addr (int (length addr)) s = pipewrite_rest p (int (length addr)) addr ?s"
    using assms by (simp add: pipewrite_def acquire_def)
  show ?thesis
  proof (cases "length addr \<le> ?r")
    case True
    then have "length (pipe_q (pipes ?s p)) + length addr \<le> PIPESIZE"
      using le by (simp add: PIPESIZE_def q_def)
    with True w show ?thesis
      using write_all [of ?s p addr "int (length addr)"] fold_put [OF assms(1), of addr] assms
      by (simp add: wakeup1_def)
  next
    case False
    define b where "b = addr ! ?r"
    have split: "addr = take ?r addr @ b # drop (Suc ?r) addr"
      using False by (simp add: b_def id_take_nth_drop)
    have fit: "length (pipe_q (pipes s p)) + length (take ?r addr) \<le> PIPESIZE"
      using le by (simp add: PIPESIZE_def q_def)
    note P = fold_put [OF assms(1) fit]
    have "pipewrite_rest p (int (length addr)) addr ?s = pipewrite_rest p (int (length addr)) (b # drop (Suc ?r) addr) ?u"
      using write_loop_go [of ?s p "take ?r addr" "b # drop (Suc ?r) addr"] assms(1) fit
      by (subst split) (simp add: pipewrite_rest_def kbind_def)
    moreover have "pipe_full (pipes ?u p)"
      using P pipe_full_iff le False by (simp add: PIPESIZE_def q_def)
    ultimately show ?thesis
      using False w P assms write_full [of ?u p i "int (length addr)" b "drop (Suc ?r) addr"]
      by (simp add: upd_proc_def wakeup1_def)
  qed
qed

theorem pipewrite_outcomes_witness:
  "\<exists>t. pipewrite 0 (replicate 600 1) 600 pipe_state = Swtch t \<and> pipe_q (pipes t 0) = replicate 512 1"
  using pipewrite_outcomes [of pipe_state 0 0 "replicate 600 1"] pipe_state_facts
  by (simp add: zero_proc_def take_replicate) blast

text \<open>C36. A read returns as soon as it can: with bytes in the ring, or no writer left, it takes the
  oldest bytes, at most the count asked for, wakes the writers and returns them; on an empty
  ring with a writer it returns -1 if the caller is killed and sleeps otherwise.\<close>

theorem piperead_outcomes:
  assumes "pipe_ok (pipes s p)" and "held s = {}" and "PipeLock p \<notin> others s" and "PtableLock \<notin> others s"
    and "cur s = Some i" and "i < length (procs s)"
  defines "q \<equiv> pipe_q (pipes s p)"
  shows "if q \<noteq> [] \<or> \<not> writeopen (pipes s p)
         then \<exists>t. piperead p n s = Ret (Some (take (nat n) q)) t \<and> pipe_q (pipes t p) = drop (nat n) q \<and>
                held t = {} \<and> procs t = map (wake_one (Some (PipeWChan p))) (procs s)
         else if p_killed (procs s ! i) then piperead p n s = Ret None s
         else \<exists>t. piperead p n s = Swtch t \<and> pipes t = pipes s \<and> held t = {PtableLock} \<and>
                p_state (procs t ! i) = SLEEPING \<and> p_chan (procs t ! i) = Some (PipeRChan p)"
proof -
  let ?s = "s\<lparr>held := {PipeLock p}\<rparr>"
  have r: "piperead p n s = piperead_rest p n ?s"
    using assms by (simp add: piperead_def acquire_def)
  show ?thesis
  proof (cases "q \<noteq> [] \<or> \<not> writeopen (pipes s p)")
    case True
    with r read_some [of ?s p n] assms show ?thesis by auto
  next
    case False
    have "s\<lparr>held := {}\<rparr> = s" using assms(2) by simp
    with False r read_empty [of ?s p i n] assms show ?thesis by simp
  qed
qed

theorem piperead_outcomes_witness:
  "\<exists>t. piperead 0 5 (upd_pipe 0 (\<lambda>P. P\<lparr>writeopen := False\<rparr>) pipe_state) = Ret (Some []) t"
  using piperead_outcomes [of "upd_pipe 0 (\<lambda>P. P\<lparr>writeopen := False\<rparr>) pipe_state" 0 0 5] pipe_state_facts
  by (auto simp: pipe_ok_def pipe_q_def ring_q_empty)

end
