(* ===== verification/Ide.thy ===== *)
theory Ide
  imports Pipe
begin

text \<open>
  Disk buffers (\<open>src/HW3/buf.h\<close>) and the two disk drivers: the IDE driver
  \<open>src/HW3/ide.c\<close> and the memory disk \<open>src/HW3/memide.c\<close>; the build links one of them.

  Buffers are named by their index in \<open>bcache.buf\<close>. The IDE controller is modelled by its
  registers: the driver's port writes fill them, \<open>ide_finish\<close> is the controller carrying
  out the command they hold, after which it interrupts. \<open>dwrites\<close> is the history of
  the writes the disks carried out, which no code reads. A process that waits for the
  disk sleeps; \<open>ide_sleep\<close> runs the schedule in which the disk finishes its queued
  requests until the process is woken and the scheduler switches back to it.

  The locale \<open>disk_driver\<close> is what the buffer cache relies on; both drivers provide it.
\<close>

section \<open>State\<close>

record buf =
  b_flags :: u32
  b_dev :: u32
  b_blockno :: u32
  b_prev :: nat
  b_next :: nat
  b_qnext :: "nat option"
  b_data :: "u8 list"

definition B_BUSY :: u32 where "B_BUSY = 1"
definition B_VALID :: u32 where "B_VALID = 2"
definition B_DIRTY :: u32 where "B_DIRTY = 4"
definition BSIZE :: nat where "BSIZE = 512"
definition SECTOR_SIZE :: nat where "SECTOR_SIZE = 512"
definition FSSIZE :: u32 where "FSSIZE = 1000"

definition IDE_BSY :: u8 where "IDE_BSY = 0x80"
definition IDE_DRDY :: u8 where "IDE_DRDY = 0x40"
definition IDE_DF :: u8 where "IDE_DF = 0x20"
definition IDE_ERR :: u8 where "IDE_ERR = 0x01"
definition IDE_CMD_READ :: u8 where "IDE_CMD_READ = 0x20"
definition IDE_CMD_WRITE :: u8 where "IDE_CMD_WRITE = 0x30"

text \<open>
  The controller: the status bytes it will show before it is ready, whether it then
  reports an error, the task file registers, the command and the data register.
\<close>

record idedev =
  id_polls :: "u8 list"
  id_err :: bool
  id_nsect :: u8
  id_lba0 :: u8
  id_lba1 :: u8
  id_lba2 :: u8
  id_drive :: u8
  id_cmd :: "u8 option"
  id_data :: "u8 list"

record kdisk = kpipe +
  bufs :: "buf list"
  idequeue :: "nat option"
  havedisk1 :: bool
  idedev :: idedev
  disk :: "u32 \<Rightarrow> u32 \<Rightarrow> u8 list"
  dwrites :: "(u32 \<times> u32 \<times> u8 list) list"
  memdisk :: u32
  disksize :: u32

definition upd_buf :: "nat \<Rightarrow> (buf \<Rightarrow> buf) \<Rightarrow> 'z kdisk_scheme \<Rightarrow> 'z kdisk_scheme" where
  "upd_buf i f s = s\<lparr>bufs := (bufs s)[i := f (bufs s ! i)]\<rparr>"

definition b_busy :: "buf \<Rightarrow> bool" where "b_busy b \<longleftrightarrow> b_flags b AND B_BUSY \<noteq> 0"
definition b_valid :: "buf \<Rightarrow> bool" where "b_valid b \<longleftrightarrow> b_flags b AND B_VALID \<noteq> 0"
definition b_dirty :: "buf \<Rightarrow> bool" where "b_dirty b \<longleftrightarrow> b_flags b AND B_DIRTY \<noteq> 0"

text \<open>\<open>(flags & (B_VALID|B_DIRTY)) == B_VALID\<close>.\<close>

definition b_synced :: "buf \<Rightarrow> bool" where
  "b_synced b \<longleftrightarrow> b_flags b AND (B_VALID OR B_DIRTY) = B_VALID"

lemma flag_bits: "b_busy b \<longleftrightarrow> bit (b_flags b) 0" "b_valid b \<longleftrightarrow> bit (b_flags b) 1" "b_dirty b \<longleftrightarrow> bit (b_flags b) 2"
  using and_exp_eq_0_iff_not_bit [of "b_flags b" 0] and_exp_eq_0_iff_not_bit [of "b_flags b" 1]
    and_exp_eq_0_iff_not_bit [of "b_flags b" 2]
  by (simp_all add: b_busy_def b_valid_def b_dirty_def B_BUSY_def B_VALID_def B_DIRTY_def)

lemma const_bits: "bit B_BUSY n \<longleftrightarrow> n = 0" "bit B_VALID n \<longleftrightarrow> n = 1" "bit B_DIRTY n \<longleftrightarrow> n = 2"
  using bit_exp_iff [of 0 n, where 'a = u32] bit_exp_iff [of 1 n, where 'a = u32] bit_exp_iff [of 2 n, where 'a = u32]
  by (auto simp: B_BUSY_def B_VALID_def B_DIRTY_def bit_simps)

lemma b_synced_iff: "b_synced b \<longleftrightarrow> b_valid b \<and> \<not> b_dirty b"
proof -
  have eq: "b_flags b AND (B_VALID OR B_DIRTY) = B_VALID \<longleftrightarrow>
     (\<forall>n. bit (b_flags b AND (B_VALID OR B_DIRTY)) n \<longleftrightarrow> bit B_VALID n)"
    by (metis bit_word_eqI)
  have m: "bit (b_flags b AND (B_VALID OR B_DIRTY)) n \<longleftrightarrow> bit (b_flags b) n \<and> (n = 1 \<or> n = 2)" for n
    by (simp add: bit_and_iff bit_or_iff const_bits)
  show ?thesis
    unfolding b_synced_def eq m const_bits flag_bits
  proof (intro iffI allI)
    assume a: "\<forall>n. (bit (b_flags b) n \<and> (n = 1 \<or> n = 2)) = (n = 1)"
    from a [THEN spec, of 1] a [THEN spec, of 2] show "bit (b_flags b) 1 \<and> \<not> bit (b_flags b) 2" by simp
  qed (metis, metis)
qed

lemma flag_upd [simp]:
  "b_busy (b\<lparr>b_flags := f OR B_VALID\<rparr>) = b_busy (b\<lparr>b_flags := f\<rparr>)"
  "b_valid (b\<lparr>b_flags := f OR B_VALID\<rparr>)"
  "b_dirty (b\<lparr>b_flags := f OR B_VALID\<rparr>) = b_dirty (b\<lparr>b_flags := f\<rparr>)"
  "b_busy (b\<lparr>b_flags := f AND NOT B_DIRTY\<rparr>) = b_busy (b\<lparr>b_flags := f\<rparr>)"
  "b_valid (b\<lparr>b_flags := f AND NOT B_DIRTY\<rparr>) = b_valid (b\<lparr>b_flags := f\<rparr>)"
  "\<not> b_dirty (b\<lparr>b_flags := f AND NOT B_DIRTY\<rparr>)"
  "b_busy (b\<lparr>b_flags := f OR B_DIRTY\<rparr>) = b_busy (b\<lparr>b_flags := f\<rparr>)"
  "b_valid (b\<lparr>b_flags := f OR B_DIRTY\<rparr>) = b_valid (b\<lparr>b_flags := f\<rparr>)"
  "b_dirty (b\<lparr>b_flags := f OR B_DIRTY\<rparr>)"
  "b_busy (b\<lparr>b_flags := f OR B_BUSY\<rparr>)"
  "b_valid (b\<lparr>b_flags := f OR B_BUSY\<rparr>) = b_valid (b\<lparr>b_flags := f\<rparr>)"
  "b_dirty (b\<lparr>b_flags := f OR B_BUSY\<rparr>) = b_dirty (b\<lparr>b_flags := f\<rparr>)"
  "\<not> b_busy (b\<lparr>b_flags := f AND NOT B_BUSY\<rparr>)"
  "b_valid (b\<lparr>b_flags := f AND NOT B_BUSY\<rparr>) = b_valid (b\<lparr>b_flags := f\<rparr>)"
  "b_dirty (b\<lparr>b_flags := f AND NOT B_BUSY\<rparr>) = b_dirty (b\<lparr>b_flags := f\<rparr>)"
  "b_busy (b\<lparr>b_flags := B_BUSY\<rparr>)" "\<not> b_valid (b\<lparr>b_flags := B_BUSY\<rparr>)" "\<not> b_dirty (b\<lparr>b_flags := B_BUSY\<rparr>)"
  by (simp_all add: flag_bits bit_simps const_bits)

lemma flag_frame [simp]:
  "b_busy (b\<lparr>b_data := d\<rparr>) = b_busy b" "b_valid (b\<lparr>b_data := d\<rparr>) = b_valid b" "b_dirty (b\<lparr>b_data := d\<rparr>) = b_dirty b"
  "b_busy (b\<lparr>b_qnext := q\<rparr>) = b_busy b" "b_valid (b\<lparr>b_qnext := q\<rparr>) = b_valid b" "b_dirty (b\<lparr>b_qnext := q\<rparr>) = b_dirty b"
  "b_busy (b\<lparr>b_next := n\<rparr>) = b_busy b" "b_valid (b\<lparr>b_next := n\<rparr>) = b_valid b" "b_dirty (b\<lparr>b_next := n\<rparr>) = b_dirty b"
  "b_busy (b\<lparr>b_prev := n\<rparr>) = b_busy b" "b_valid (b\<lparr>b_prev := n\<rparr>) = b_valid b" "b_dirty (b\<lparr>b_prev := n\<rparr>) = b_dirty b"
  by (simp_all add: flag_bits)

section \<open>The controller\<close>

text \<open>\<open>outb\<close> to the ports of the controller.\<close>

definition ide_outb :: "u16 \<Rightarrow> u8 \<Rightarrow> idedev \<Rightarrow> idedev" where
  "ide_outb port v d =
     (if port = 0x1f2 then d\<lparr>id_nsect := v\<rparr>
      else if port = 0x1f3 then d\<lparr>id_lba0 := v\<rparr>
      else if port = 0x1f4 then d\<lparr>id_lba1 := v\<rparr>
      else if port = 0x1f5 then d\<lparr>id_lba2 := v\<rparr>
      else if port = 0x1f6 then d\<lparr>id_drive := v\<rparr>
      else if port = 0x1f7 then d\<lparr>id_cmd := Some v\<rparr>
      else d)"

text \<open>The sector and the drive the registers name, as the controller decodes them.\<close>

definition ide_lba :: "idedev \<Rightarrow> u32" where
  "ide_lba d = ucast (id_lba0 d) OR push_bit 8 (ucast (id_lba1 d)) OR push_bit 16 (ucast (id_lba2 d))
     OR push_bit 24 (ucast (id_drive d AND 0x0F))"

definition ide_drv :: "idedev \<Rightarrow> u32" where
  "ide_drv d = ucast (drop_bit 4 (id_drive d) AND 1)"

definition ide_finish :: "'z kdisk_scheme \<Rightarrow> 'z kdisk_scheme" where
  "ide_finish s =
     (let d = idedev s; v = ide_drv d; l = ide_lba d in
      if id_cmd d = Some IDE_CMD_WRITE then
        s\<lparr>disk := (disk s)(v := (disk s v)(l := id_data d)),
          dwrites := dwrites s @ [(v, l, id_data d)], idedev := d\<lparr>id_cmd := None\<rparr>\<rparr>
      else if id_cmd d = Some IDE_CMD_READ then
        s\<lparr>idedev := d\<lparr>id_cmd := None, id_data := disk s v l\<rparr>\<rparr>
      else s)"

section \<open>ide.c\<close>

fun idewait_loop :: "u8 list \<Rightarrow> bool \<Rightarrow> u8 \<times> u8 list" where
  "idewait_loop [] err = (if err then IDE_DRDY OR IDE_ERR else IDE_DRDY, [])"
| "idewait_loop (r # rs) err =
     (if r AND (IDE_BSY OR IDE_DRDY) \<noteq> IDE_DRDY then idewait_loop rs err else (r, rs))"

definition idewait :: "bool \<Rightarrow> ('z kdisk_scheme, int) prog" where
  "idewait checkerr s =
     (let (r, rs) = idewait_loop (id_polls (idedev s)) (id_err (idedev s));
          t = s\<lparr>idedev := (idedev s)\<lparr>id_polls := rs\<rparr>\<rparr>
      in Ret (if checkerr \<and> r AND (IDE_DF OR IDE_ERR) \<noteq> 0 then -1 else 0) t)"

definition out :: "u16 \<Rightarrow> u8 \<Rightarrow> ('z kdisk_scheme, unit) prog" where
  "out port v = kmod (\<lambda>s. s\<lparr>idedev := ide_outb port v (idedev s)\<rparr>)"

definition idestart :: "nat option \<Rightarrow> ('z kdisk_scheme, unit) prog" where
  "idestart bp =
     (case bp of None \<Rightarrow> kpanic ''idestart'' | Some i \<Rightarrow>
      kbind (kget (\<lambda>s. bufs s ! i)) (\<lambda>b.
      if FSSIZE \<le> b_blockno b then kpanic ''incorrect blockno'' else
      let sector_per_block = BSIZE div SECTOR_SIZE;
          sector = b_blockno b * of_nat sector_per_block in
      if sector_per_block > 7 then kpanic ''idestart'' else
      kbind (idewait False) (\<lambda>_.
      kseq [out 0x3f6 0,
            out 0x1f2 (of_nat sector_per_block),
            out 0x1f3 (ucast (sector AND 0xFF)),
            out 0x1f4 (ucast (drop_bit 8 sector AND 0xFF)),
            out 0x1f5 (ucast (drop_bit 16 sector AND 0xFF)),
            out 0x1f6 (ucast (0xE0 OR push_bit 4 (b_dev b AND 1) OR (drop_bit 24 sector AND 0x0F))),
            (if b_dirty b
             then kseq [out 0x1f7 IDE_CMD_WRITE,
                        kmod (\<lambda>s. s\<lparr>idedev := (idedev s)\<lparr>id_data := b_data b\<rparr>\<rparr>)]
             else out 0x1f7 IDE_CMD_READ)])))"

definition ideintr :: "('z kdisk_scheme, unit) prog" where
  "ideintr =
     kbind (acquire IdeLock) (\<lambda>_.
     kbind (kget idequeue) (\<lambda>q.
       case q of None \<Rightarrow> release IdeLock
       | Some i \<Rightarrow>
         kbind (kmod (\<lambda>s. s\<lparr>idequeue := b_qnext (bufs s ! i)\<rparr>)) (\<lambda>_.
         kbind (kget (\<lambda>s. b_dirty (bufs s ! i))) (\<lambda>d.
         kbind (if d then kret ()
                else kbind (idewait True) (\<lambda>r.
                       kwhen (r \<ge> 0) (kmod (\<lambda>s. upd_buf i (\<lambda>b. b\<lparr>b_data := id_data (idedev s)\<rparr>) s)))) (\<lambda>_.
         kseq [kmod (upd_buf i (\<lambda>b. b\<lparr>b_flags := b_flags b OR B_VALID\<rparr>)),
               kmod (upd_buf i (\<lambda>b. b\<lparr>b_flags := b_flags b AND NOT B_DIRTY\<rparr>)),
               wakeup (Some (BufChan i)),
               kbind (kget idequeue) (\<lambda>q. kwhen (q \<noteq> None) (idestart q)),
               release IdeLock])))))"

text \<open>
  The walk to the end of the queue. The fuel is the number of buffers, enough because a
  buffer is queued at most once.
\<close>

fun ide_last :: "nat \<Rightarrow> buf list \<Rightarrow> nat \<Rightarrow> nat" where
  "ide_last 0 bs i = i"
| "ide_last (Suc n) bs i = (case b_qnext (bs ! i) of None \<Rightarrow> i | Some j \<Rightarrow> ide_last n bs j)"

definition ide_append :: "nat \<Rightarrow> 'z kdisk_scheme \<Rightarrow> 'z kdisk_scheme" where
  "ide_append i s =
     (let s = upd_buf i (\<lambda>b. b\<lparr>b_qnext := None\<rparr>) s
      in case idequeue s of
           None \<Rightarrow> s\<lparr>idequeue := Some i\<rparr>
         | Some h \<Rightarrow> upd_buf (ide_last (length (bufs s)) (bufs s) h) (\<lambda>b. b\<lparr>b_qnext := Some i\<rparr>) s)"

text \<open>The disk finishes the request at the head of the queue and interrupts.\<close>

definition ide_irq :: "('z kdisk_scheme, unit) prog" where
  "ide_irq = kseq [kmod ide_finish, ideintr]"

fun ide_irqs :: "nat \<Rightarrow> nat \<Rightarrow> ('z kdisk_scheme, unit) prog" where
  "ide_irqs 0 p = kswtch"
| "ide_irqs (Suc n) p =
     kbind (kget (\<lambda>s. p_state (procs s ! p) = SLEEPING)) (\<lambda>asleep.
       if asleep then kbind ide_irq (\<lambda>_. ide_irqs n p) else kret ())"

definition ide_sleep :: "nat \<Rightarrow> ('z kdisk_scheme, unit) prog" where
  "ide_sleep i s =
     (case sleep (Some (BufChan i)) (Some IdeLock) s of
        Swtch t \<Rightarrow>
          (case cur t of None \<Rightarrow> Swtch t | Some p \<Rightarrow>
             kseq [dispatch_out, release PtableLock,
                   ide_irqs (Suc (length (bufs t))) p,
                   acquire PtableLock, dispatch_in p, sleep_resume IdeLock] t)
      | r \<Rightarrow> r)"

text \<open>
  The loop \<open>while((b->flags & (B_VALID|B_DIRTY)) != B_VALID) sleep(b, &idelock)\<close>, with fuel for two
  tests: in the schedule of \<open>ide_sleep\<close> only the interrupt for \<open>b\<close> itself wakes the
  process, so the second test succeeds (\<open>iderw_syncs\<close> below), and no larger fuel gives
  another result (\<open>iderw_wait_more\<close>).
\<close>

fun iderw_wait :: "nat \<Rightarrow> nat \<Rightarrow> ('z kdisk_scheme, unit) prog" where
  "iderw_wait 0 i = kswtch"
| "iderw_wait (Suc n) i =
     kbind (kget (\<lambda>s. b_synced (bufs s ! i))) (\<lambda>fin.
       if \<not> fin then kbind (ide_sleep i) (\<lambda>_. iderw_wait n i) else kret ())"

lemma iderw_wait_more: "iderw_wait n i s = Ret () t \<Longrightarrow> iderw_wait (n + k) i s = Ret () t"
  by (induction n arbitrary: s) (auto simp: kbind_eq_Ret split: if_splits)

definition iderw :: "nat \<Rightarrow> ('z kdisk_scheme, unit) prog" where
  "iderw i =
     kseq [panic_if (\<lambda>s. \<not> b_busy (bufs s ! i)) ''iderw: buf not busy'',
           panic_if (\<lambda>s. b_synced (bufs s ! i)) ''iderw: nothing to do'',
           panic_if (\<lambda>s. b_dev (bufs s ! i) \<noteq> 0 \<and> \<not> havedisk1 s) ''iderw: ide disk 1 not present'',
           acquire IdeLock,
           kmod (ide_append i),
           kbind (kget idequeue) (\<lambda>q. kwhen (q = Some i) (idestart (Some i))),
           iderw_wait 2 i,
           release IdeLock]"

section \<open>memide.c\<close>

definition memide_init :: "u32 \<Rightarrow> u32 \<Rightarrow> ('z kdisk_scheme, unit) prog" where
  "memide_init img img_size =
     kmod (\<lambda>s. s\<lparr>memdisk := img, disksize := img_size div of_nat BSIZE\<rparr>)"

definition memide_intr :: "('z kdisk_scheme, unit) prog" where
  "memide_intr = kret ()"

definition memide_rw :: "nat \<Rightarrow> ('z kdisk_scheme, unit) prog" where
  "memide_rw i =
     kseq [panic_if (\<lambda>s. \<not> b_busy (bufs s ! i)) ''iderw: buf not busy'',
           panic_if (\<lambda>s. b_synced (bufs s ! i)) ''iderw: nothing to do'',
           panic_if (\<lambda>s. b_dev (bufs s ! i) \<noteq> 1) ''iderw: request not for disk 1'',
           panic_if (\<lambda>s. disksize s \<le> b_blockno (bufs s ! i)) ''iderw: block out of range'',
           kmod (\<lambda>s. let b = bufs s ! i; p = memdisk s + b_blockno b * of_nat BSIZE in
             if b_dirty b then
               (upd_buf i (\<lambda>b. b\<lparr>b_flags := b_flags b AND NOT B_DIRTY\<rparr>) s)
                 \<lparr>mem := store_bytes (mem s) p (b_data b), dwrites := dwrites s @ [(1, b_blockno b, b_data b)]\<rparr>
             else upd_buf i (\<lambda>b. b\<lparr>b_data := load_bytes (mem s) p BSIZE\<rparr>) s),
           kmod (upd_buf i (\<lambda>b. b\<lparr>b_flags := b_flags b OR B_VALID\<rparr>))]"

section \<open>What the buffer cache relies on\<close>

text \<open>
  The state of the process table apart from who is asleep on what.
\<close>

definition proc_core :: "proc \<Rightarrow> proc" where
  "proc_core p = p\<lparr>p_state := UNUSED, p_chan := None\<rparr>"

definition quiet :: "'z kcore_scheme \<Rightarrow> bool" where
  "quiet s \<longleftrightarrow> held s = {} \<and> others s = {} \<and>
     (\<exists>p. cur s = Some p \<and> p < length (procs s) \<and> p_state (procs s ! p) = RUNNING \<and> p_pgdir (procs s ! p) \<noteq> 0)"

text \<open>Nothing but the scheduling state, kernel memory, the buffers and the disk differs.\<close>

definition same_rest :: "'z kdisk_scheme \<Rightarrow> 'z kdisk_scheme \<Rightarrow> bool" where
  "same_rest s t \<longleftrightarrow> kdisk.more t = kdisk.more s \<and> pipes t = pipes s \<and> cur t = cur s \<and>
     initproc t = initproc s \<and> nextpid t = nextpid s \<and> ticks t = ticks s \<and>
     map proc_core (procs t) = map proc_core (procs s)"

text \<open>One buffer was brought in step with the disk, with the data \<open>d\<close>.\<close>

definition sync_buf :: "u8 list \<Rightarrow> buf \<Rightarrow> buf \<Rightarrow> bool" where
  "sync_buf d b b' \<longleftrightarrow> b_dev b' = b_dev b \<and> b_blockno b' = b_blockno b \<and> b_prev b' = b_prev b \<and>
     b_next b' = b_next b \<and> b_busy b' = b_busy b \<and> b_valid b' \<and> \<not> b_dirty b' \<and> b_data b' = d"

definition rw_post ::
  "('z kdisk_scheme \<Rightarrow> u32 \<Rightarrow> u8 list) \<Rightarrow> nat \<Rightarrow> 'z kdisk_scheme \<Rightarrow> 'z kdisk_scheme \<Rightarrow> bool" where
  "rw_post dsk i s t \<longleftrightarrow>
     (let b = bufs s ! i; d = (if b_dirty b then b_data b else dsk s (b_blockno b)) in
      length (bufs t) = length (bufs s) \<and> (\<forall>j. j \<noteq> i \<longrightarrow> bufs t ! j = bufs s ! j) \<and>
      sync_buf d b (bufs t ! i) \<and> dsk t = (dsk s)(b_blockno b := d) \<and>
      dwrites t = dwrites s @ (if b_dirty b then [(1, b_blockno b, d)] else []) \<and> same_rest s t)"

locale disk_driver =
  fixes rw :: "nat \<Rightarrow> ('z kdisk_scheme, unit) prog"
    and dsk :: "'z kdisk_scheme \<Rightarrow> u32 \<Rightarrow> u8 list"
    and dev_ok :: "'z kdisk_scheme \<Rightarrow> bool"
    and nblk :: u32
  assumes rw_ok: "quiet s \<Longrightarrow> dev_ok s \<Longrightarrow> i < length (bufs s) \<Longrightarrow> b_busy (bufs s ! i) \<Longrightarrow>
      \<not> b_synced (bufs s ! i) \<Longrightarrow> b_dev (bufs s ! i) = 1 \<Longrightarrow> b_blockno (bufs s ! i) < nblk \<Longrightarrow>
      length (b_data (bufs s ! i)) = BSIZE \<Longrightarrow>
      \<exists>t. rw i s = Ret () t \<and> quiet t \<and> dev_ok t \<and> rw_post dsk i s t"
    and dsk_len: "dev_ok s \<Longrightarrow> b < nblk \<Longrightarrow> length (dsk s b) = BSIZE"
    and dsk_cong: "disk s = disk t \<Longrightarrow> mem s = mem t \<Longrightarrow> memdisk s = memdisk t \<Longrightarrow> dsk s = dsk t"
    and dev_cong: "idequeue s = idequeue t \<Longrightarrow> idedev s = idedev t \<Longrightarrow> havedisk1 s = havedisk1 t \<Longrightarrow>
      memdisk s = memdisk t \<Longrightarrow> disksize s = disksize t \<Longrightarrow> disk s = disk t \<Longrightarrow> dev_ok s = dev_ok t"

section \<open>The memory disk\<close>

definition mem_dsk :: "u32 \<Rightarrow> 'z kdisk_scheme \<Rightarrow> u32 \<Rightarrow> u8 list" where
  "mem_dsk n s b = (if b < n then load_bytes (mem s) (memdisk s + b * of_nat BSIZE) BSIZE else [])"

text \<open>The image holds \<open>n\<close> blocks and does not run past the end of memory.\<close>

definition mem_dev_ok :: "u32 \<Rightarrow> 'z kdisk_scheme \<Rightarrow> bool" where
  "mem_dev_ok n s \<longleftrightarrow> disksize s = n \<and> unat (memdisk s) + unat n * BSIZE \<le> 2 ^ 32"

lemma upd_buf_simps [simp]:
  "length (bufs (upd_buf i f s)) = length (bufs s)"
  "i < length (bufs s) \<Longrightarrow> bufs (upd_buf i f s) ! i = f (bufs s ! i)"
  "j \<noteq> i \<Longrightarrow> bufs (upd_buf i f s) ! j = bufs s ! j"
  "held (upd_buf i f s) = held s" "others (upd_buf i f s) = others s" "cur (upd_buf i f s) = cur s"
  "procs (upd_buf i f s) = procs s" "mem (upd_buf i f s) = mem s" "memdisk (upd_buf i f s) = memdisk s"
  "disksize (upd_buf i f s) = disksize s" "disk (upd_buf i f s) = disk s" "dwrites (upd_buf i f s) = dwrites s"
  "idequeue (upd_buf i f s) = idequeue s" "idedev (upd_buf i f s) = idedev s" "havedisk1 (upd_buf i f s) = havedisk1 s"
  "pipes (upd_buf i f s) = pipes s" "kdisk.more (upd_buf i f s) = kdisk.more s"
  "initproc (upd_buf i f s) = initproc s" "nextpid (upd_buf i f s) = nextpid s" "ticks (upd_buf i f s) = ticks s"
  "lock_free lk (upd_buf i f s) = lock_free lk s"
  by (simp_all add: upd_buf_def lock_free_def)

lemma length_load_bytes [simp]: "length (load_bytes m a n) = n"
  by (induction n arbitrary: a) simp_all

lemma nth_load_bytes: "k < n \<Longrightarrow> load_bytes m a n ! k = m (a + of_nat k)"
  by (induction n arbitrary: a k) (auto simp: nth_Cons' algebra_simps of_nat_diff)

lemma store_bytes_at:
  "length xs \<le> 2 ^ 32 \<Longrightarrow> store_bytes m a xs b = (if unat (b - a) < length xs then xs ! unat (b - a) else m b)"
proof (induction xs arbitrary: m a)
  case (Cons x xs)
  show ?case
  proof (cases "b = a")
    case True
    have "\<not> unat (a - (a + 1)) < length xs"
      using Cons.prems before_range [of "length xs" a] by (simp add: not_less)
    with True Cons show ?thesis by simp
  next
    case False
    with Cons unat_diff_Suc [OF False] show ?thesis by simp
  qed
qed simp

lemma load_store_bytes:
  assumes "length xs = n" and "n \<le> 2 ^ 32"
  shows "load_bytes (store_bytes m a xs) a n = xs"
proof (rule nth_equalityI)
  fix k
  assume "k < length (load_bytes (store_bytes m a xs) a n)"
  with assms show "load_bytes (store_bytes m a xs) a n ! k = xs ! k"
    by (simp add: nth_load_bytes store_bytes_at unat_of_nat32)
qed (simp add: assms)

lemma load_store_other:
  assumes "length xs \<le> 2 ^ 32" and "\<And>k. k < n \<Longrightarrow> length xs \<le> unat (b + of_nat k - a)"
  shows "load_bytes (store_bytes m a xs) b n = load_bytes m b n"
  using assms(1) by (intro nth_equalityI) (auto simp: nth_load_bytes store_bytes_at dest: assms(2) leD)

lemma mem_block_addr:
  assumes "mem_dev_ok n s" and "b < n" and "k < 512"
  shows "unat (memdisk s + b * of_nat BSIZE + of_nat k) = unat (memdisk s) + unat b * 512 + k"
    and "unat (memdisk s) + unat b * 512 + 512 \<le> 2 ^ 32"
proof -
  have "unat b + 1 \<le> unat n" using assms(2) by (simp add: word_less_nat_alt)
  then have "unat b * 512 + 512 \<le> unat n * 512" by simp
  moreover have "unat (memdisk s) + unat n * 512 \<le> 2 ^ 32"
    using assms(1) by (simp add: mem_dev_ok_def BSIZE_def)
  ultimately show le: "unat (memdisk s) + unat b * 512 + 512 \<le> 2 ^ 32" by linarith
  have "unat (b * 512) = unat b * 512" using le by (simp add: unat_word_ariths)
  then show "unat (memdisk s + b * of_nat BSIZE + of_nat k) = unat (memdisk s) + unat b * 512 + k"
    using le assms(3) by (simp add: BSIZE_def unat_word_ariths unat_of_nat)
qed

lemma mem_blocks_apart:
  assumes "mem_dev_ok n s" and "b < n" and "c < n" and "b \<noteq> c" and "k < 512"
  shows "512 \<le> unat (memdisk s + c * of_nat BSIZE + of_nat k - (memdisk s + b * of_nat BSIZE))"
proof -
  let ?M = "unat (memdisk s)"
  have A: "unat (memdisk s + b * of_nat BSIZE) = ?M + unat b * 512" "?M + unat b * 512 + 512 \<le> 2 ^ 32"
    using mem_block_addr [OF assms(1,2), of 0] by simp_all
  have C: "unat (memdisk s + c * of_nat BSIZE + of_nat k) = ?M + unat c * 512 + k"
    using mem_block_addr [OF assms(1,3,5)] by simp
  have "unat b < unat c \<or> unat c < unat b" using assms(4) by (auto simp: word_unat_eq_iff)
  then have "?M + unat b * 512 + 512 \<le> ?M + unat c * 512 + k \<or> ?M + unat c * 512 + k < ?M + unat b * 512"
    using assms(5) by linarith
  then show ?thesis
    using A(2) unfolding unat_sub_if' A(1) C by auto
qed

lemma mem_dsk_upd:
  assumes "mem_dev_ok n s" and "b < n" and "length d = BSIZE"
  shows "mem_dsk n (s\<lparr>mem := store_bytes (mem s) (memdisk s + b * of_nat BSIZE) d\<rparr>) = (mem_dsk n s)(b := d)"
proof
  fix c
  show "mem_dsk n (s\<lparr>mem := store_bytes (mem s) (memdisk s + b * of_nat BSIZE) d\<rparr>) c = ((mem_dsk n s)(b := d)) c"
  proof (cases "c = b")
    case True
    with assms(2,3) show ?thesis by (simp add: mem_dsk_def load_store_bytes BSIZE_def)
  next
    case False
    show ?thesis
    proof (cases "c < n")
      case True
      have "load_bytes (store_bytes (mem s) (memdisk s + b * of_nat BSIZE) d) (memdisk s + c * of_nat BSIZE) BSIZE =
          load_bytes (mem s) (memdisk s + c * of_nat BSIZE) BSIZE"
        using mem_blocks_apart [OF assms(1,2) True False [symmetric]] assms(3)
        by (intro load_store_other) (auto simp: BSIZE_def)
      with True False show ?thesis by (simp add: mem_dsk_def)
    qed (use False in \<open>simp add: mem_dsk_def\<close>)
  qed
qed

lemma quiet_frame:
  "quiet s \<Longrightarrow> held t = held s \<Longrightarrow> others t = others s \<Longrightarrow> cur t = cur s \<Longrightarrow> procs t = procs s \<Longrightarrow> quiet t"
  by (simp add: quiet_def)

interpretation md: disk_driver memide_rw "mem_dsk n" "mem_dev_ok n" n for n
proof
  fix s :: "'a kdisk_scheme" and i
  assume h: "quiet s" "mem_dev_ok n s" "i < length (bufs s)" "b_busy (bufs s ! i)" "\<not> b_synced (bufs s ! i)"
    "b_dev (bufs s ! i) = 1" "b_blockno (bufs s ! i) < n" "length (b_data (bufs s ! i)) = BSIZE"
  let ?b = "bufs s ! i"
  let ?p = "memdisk s + b_blockno ?b * of_nat BSIZE"
  have nd: "\<not> disksize s \<le> b_blockno ?b" using h(2,7) by (simp add: mem_dev_ok_def)
  show "\<exists>t. memide_rw i s = Ret () t \<and> quiet t \<and> mem_dev_ok n t \<and> rw_post (mem_dsk n) i s t"
  proof (cases "b_dirty ?b")
    case True
    let ?t = "upd_buf i (\<lambda>b. b\<lparr>b_flags := b_flags b OR B_VALID\<rparr>)
       ((upd_buf i (\<lambda>b. b\<lparr>b_flags := b_flags b AND NOT B_DIRTY\<rparr>) s)
          \<lparr>mem := store_bytes (mem s) ?p (b_data ?b), dwrites := dwrites s @ [(1, b_blockno ?b, b_data ?b)]\<rparr>)"
    have "mem_dsk n ?t = mem_dsk n (s\<lparr>mem := store_bytes (mem s) ?p (b_data ?b)\<rparr>)"
      by (simp add: mem_dsk_def fun_eq_iff)
    moreover have "memide_rw i s = Ret () ?t"
      using h True nd by (simp add: memide_rw_def Let_def)
    moreover have "quiet ?t" by (rule quiet_frame [OF h(1)]) simp_all
    moreover have "mem_dev_ok n ?t" using h(2) by (simp add: mem_dev_ok_def)
    ultimately show ?thesis
      using h True mem_dsk_upd [OF h(2,7,8)] by (simp add: rw_post_def sync_buf_def same_rest_def upd_buf_def Let_def)
  next
    case False
    let ?t = "upd_buf i (\<lambda>b. b\<lparr>b_flags := b_flags b OR B_VALID\<rparr>)
       (upd_buf i (\<lambda>b. b\<lparr>b_data := load_bytes (mem s) ?p BSIZE\<rparr>) s)"
    have d: "load_bytes (mem s) ?p BSIZE = mem_dsk n s (b_blockno ?b)" using h(7) by (simp add: mem_dsk_def)
    have "mem_dsk n ?t = mem_dsk n s" by (simp add: mem_dsk_def fun_eq_iff)
    moreover have "memide_rw i s = Ret () ?t"
      using h False nd by (simp add: memide_rw_def Let_def)
    moreover have "quiet ?t" by (rule quiet_frame [OF h(1)]) simp_all
    moreover have "mem_dev_ok n ?t" using h(2) by (simp add: mem_dev_ok_def)
    ultimately show ?thesis
      using h False by (simp add: rw_post_def sync_buf_def same_rest_def upd_buf_def Let_def d)
  qed
qed (auto simp: mem_dsk_def mem_dev_ok_def)

section \<open>The IDE disk\<close>

text \<open>The registers the driver fills name the right sector and drive.\<close>

definition ide_setup :: "buf \<Rightarrow> idedev \<Rightarrow> idedev" where
  "ide_setup b d = d\<lparr>id_nsect := 1, id_lba0 := ucast (b_blockno b AND 0xFF),
     id_lba1 := ucast (drop_bit 8 (b_blockno b) AND 0xFF), id_lba2 := ucast (drop_bit 16 (b_blockno b) AND 0xFF),
     id_drive := ucast (0xE0 OR push_bit 4 (b_dev b AND 1) OR (drop_bit 24 (b_blockno b) AND 0x0F)),
     id_cmd := Some (if b_dirty b then IDE_CMD_WRITE else IDE_CMD_READ),
     id_data := (if b_dirty b then b_data b else id_data d)\<rparr>"

lemma ide_setup_decode:
  assumes "b_blockno b < FSSIZE"
  shows "ide_lba (ide_setup b d) = b_blockno b" "ide_drv (ide_setup b d) = b_dev b AND 1"
proof -
  have "b_blockno b AND mask 28 = b_blockno b"
  proof -
    have "unat (b_blockno b) < 2 ^ 28" using assms by (simp add: FSSIZE_def word_less_nat_alt)
    then have "take_bit 28 (b_blockno b) = b_blockno b"
      by (simp add: word_unat_eq_iff unsigned_take_bit_eq take_bit_nat_eq_self)
    then show ?thesis by (simp add: take_bit_eq_mask)
  qed
  then show "ide_lba (ide_setup b d) = b_blockno b"
    using lba_decode [of "b_blockno b"] drive_decode(1) [of "b_dev b" "b_blockno b"]
    by (simp add: ide_lba_def ide_setup_def)
  show "ide_drv (ide_setup b d) = b_dev b AND 1"
    using drive_decode(2) [of "b_dev b" "b_blockno b"] by (simp add: ide_drv_def ide_setup_def)
qed

definition polled :: "idedev \<Rightarrow> idedev" where
  "polled d = d\<lparr>id_polls := snd (idewait_loop (id_polls d) (id_err d))\<rparr>"

lemma idewait_False: "idewait False s = Ret 0 (s\<lparr>idedev := polled (idedev s)\<rparr>)"
  by (simp add: idewait_def polled_def split: prod.split)

lemma ide_program:
  "kseq [out 0x3f6 x, out 0x1f2 n, out 0x1f3 a, out 0x1f4 b, out 0x1f5 c, out 0x1f6 d,
      if w then kseq [out 0x1f7 IDE_CMD_WRITE, kmod (\<lambda>s. s\<lparr>idedev := (idedev s)\<lparr>id_data := dat\<rparr>\<rparr>)]
      else out 0x1f7 IDE_CMD_READ] s =
   Ret () (s\<lparr>idedev := (idedev s)\<lparr>id_nsect := n, id_lba0 := a, id_lba1 := b, id_lba2 := c, id_drive := d,
      id_cmd := Some (if w then IDE_CMD_WRITE else IDE_CMD_READ),
      id_data := (if w then dat else id_data (idedev s))\<rparr>\<rparr>)"
  by (simp add: out_def ide_outb_def)

lemma idestart_eq:
  assumes "b_blockno (bufs s ! i) < FSSIZE"
  shows "idestart (Some i) s = Ret () (s\<lparr>idedev := ide_setup (bufs s ! i) (polled (idedev s))\<rparr>)"
proof -
  have e: "BSIZE div SECTOR_SIZE = 1" "\<not> FSSIZE \<le> b_blockno (bufs s ! i)"
    "\<not> 7 < (1 :: nat)" "of_nat 1 = (1 :: u8)" "of_nat 1 = (1 :: u32)"
    using assms by (simp_all add: BSIZE_def SECTOR_SIZE_def)
  show ?thesis
    unfolding idestart_def ide_setup_def option.case Let_def kbind_apply kget_apply outcome.case e
      idewait_False ide_program mult_1_right
    by (simp only: e if_False) simp
qed

text \<open>A controller that reports no errors.\<close>

definition polls_ok :: "u8 list \<Rightarrow> bool" where
  "polls_ok rs \<longleftrightarrow> (\<forall>r \<in> set rs. r AND (IDE_BSY OR IDE_DRDY) = IDE_DRDY \<longrightarrow> r AND (IDE_DF OR IDE_ERR) = 0)"

definition ctl_ok :: "idedev \<Rightarrow> bool" where
  "ctl_ok d \<longleftrightarrow> polls_ok (id_polls d) \<and> \<not> id_err d"

lemma idewait_loop_ok:
  "polls_ok rs \<Longrightarrow> fst (idewait_loop rs False) AND (IDE_DF OR IDE_ERR) = 0 \<and> polls_ok (snd (idewait_loop rs False))"
proof (induction rs)
  case Nil
  show ?case by (simp add: IDE_DRDY_def IDE_DF_def IDE_ERR_def polls_ok_def)
next
  case (Cons r rs)
  then show ?case by (auto simp: polls_ok_def)
qed

lemma idewait_True: "ctl_ok (idedev s) \<Longrightarrow> idewait True s = Ret 0 (s\<lparr>idedev := polled (idedev s)\<rparr>)"
  using idewait_loop_ok [of "id_polls (idedev s)"]
  by (auto simp: idewait_def polled_def ctl_ok_def split: prod.split)

lemma ctl_polled: "ctl_ok d \<Longrightarrow> ctl_ok (polled d)"
  using idewait_loop_ok [of "id_polls d"] by (simp add: ctl_ok_def polled_def)

lemma polled_simps [simp]:
  "id_err (polled d) = id_err d" "id_data (polled d) = id_data d" "id_cmd (polled d) = id_cmd d"
  by (simp_all add: polled_def)

definition served :: "nat \<Rightarrow> 'z kdisk_scheme \<Rightarrow> 'z kdisk_scheme" where
  "served i s = upd_buf i (\<lambda>b. b\<lparr>b_data := (if b_dirty b then b_data b else id_data (idedev s)),
       b_flags := (b_flags b OR B_VALID) AND NOT B_DIRTY\<rparr>)
     (s\<lparr>idequeue := b_qnext (bufs s ! i),
        idedev := (if b_dirty (bufs s ! i) then idedev s else polled (idedev s))\<rparr>)"

lemma upd_buf_twice: "i < length (bufs s) \<Longrightarrow> upd_buf i f (upd_buf i g s) = upd_buf i (\<lambda>b. f (g b)) s"
  by (simp add: upd_buf_def)

lemma served_simps [simp]:
  "held (served i s) = held s" "others (served i s) = others s" "cur (served i s) = cur s"
  "procs (served i s) = procs s" "idequeue (served i s) = b_qnext (bufs s ! i)" "length (bufs (served i s)) = length (bufs s)"
  "disk (served i s) = disk s" "dwrites (served i s) = dwrites s"
  "mem (served i s) = mem s" "memdisk (served i s) = memdisk s" "disksize (served i s) = disksize s"
  "havedisk1 (served i s) = havedisk1 s" "pipes (served i s) = pipes s" "kdisk.more (served i s) = kdisk.more s"
  "initproc (served i s) = initproc s" "nextpid (served i s) = nextpid s" "ticks (served i s) = ticks s"
  by (simp_all add: served_def)

definition start_next :: "'z kdisk_scheme \<Rightarrow> 'z kdisk_scheme" where
  "start_next s = (case idequeue s of None \<Rightarrow> s
     | Some j \<Rightarrow> s\<lparr>idedev := ide_setup (bufs s ! j) (polled (idedev s))\<rparr>)"

lemma idestart_queue:
  "(\<And>j. idequeue s = Some j \<Longrightarrow> b_blockno (bufs s ! j) < FSSIZE) \<Longrightarrow>
   kbind (kget idequeue) (\<lambda>q. kwhen (q \<noteq> None) (idestart q)) s = Ret () (start_next s)"
  by (cases "idequeue s") (simp_all add: start_next_def idestart_eq)

lemma ideintr_start:
  assumes "held s = {}" and "others s = {}" and "idequeue s = Some i" and "i < length (bufs s)"
    and "\<And>j. b_qnext (bufs s ! i) = Some j \<Longrightarrow> b_blockno (bufs s ! j) < FSSIZE" and "ctl_ok (idedev s)"
  shows "ideintr s = Ret () ((start_next (wakeup1 (Some (BufChan i)) (served i s)))\<lparr>held := {}\<rparr>)"
proof -
  define s1 where "s1 = s\<lparr>held := {IdeLock}, idequeue := b_qnext (bufs s ! i)\<rparr>"
  define s2 where "s2 = (if b_dirty (bufs s ! i) then s1
     else upd_buf i (\<lambda>b. b\<lparr>b_data := id_data (idedev s)\<rparr>) (s1\<lparr>idedev := polled (idedev s)\<rparr>))"
  define s3 where "s3 = wakeup1 (Some (BufChan i)) (served i s)\<lparr>held := {IdeLock}\<rparr>"
  have read: "(if b_dirty (bufs s ! i) then kret ()
      else kbind (idewait True) (\<lambda>r.
         kwhen (r \<ge> 0) (kmod (\<lambda>s. upd_buf i (\<lambda>b. b\<lparr>b_data := id_data (idedev s)\<rparr>) s)))) s1 = Ret () s2"
    using assms(6) idewait_True [of s1] by (simp add: s1_def s2_def)
  have fl: "upd_buf i (\<lambda>b. b\<lparr>b_flags := b_flags b AND NOT B_DIRTY\<rparr>)
      (upd_buf i (\<lambda>b. b\<lparr>b_flags := b_flags b OR B_VALID\<rparr>) s2) = (served i s)\<lparr>held := {IdeLock}\<rparr>"
    using assms(4) by (simp add: s2_def s1_def served_def upd_buf_def)
  have w: "wakeup (Some (BufChan i)) ((served i s)\<lparr>held := {IdeLock}\<rparr>) = Ret () s3"
    using assms(2) by (subst wakeup_free) (simp_all add: lock_free_def s3_def wakeup1_def)
  have n: "kbind (kget idequeue) (\<lambda>q. kwhen (q \<noteq> None) (idestart q)) s3 = Ret () (start_next s3)"
  proof (rule idestart_queue)
    fix j
    assume "idequeue s3 = Some j"
    then have j: "b_qnext (bufs s ! i) = Some j" by (simp add: s3_def wakeup1_def served_def)
    have "b_blockno (bufs s3 ! j) = b_blockno (bufs s ! j)"
      using assms(4) by (cases "j = i") (simp_all add: s3_def wakeup1_def served_def upd_buf_def)
    with assms(5) [OF j] show "b_blockno (bufs s3 ! j) < FSSIZE" by simp
  qed
  have r: "release IdeLock (start_next s3) = Ret () ((start_next (wakeup1 (Some (BufChan i)) (served i s)))\<lparr>held := {}\<rparr>)"
    by (simp add: s3_def start_next_def wakeup1_def split: option.split)
  have "acquire IdeLock s = Ret () (s\<lparr>held := {IdeLock}\<rparr>)" using assms(1,2) by (simp add: acquire_def)
  moreover have "b_dirty (bufs s1 ! i) = b_dirty (bufs s ! i)" by (simp add: s1_def)
  ultimately show ?thesis
    using assms(3) read w n r by (simp add: ideintr_def prog_simps s1_def [symmetric] fl)
qed

lemma ideintr_eq:
  assumes "held s = {}" and "others s = {}" and "idequeue s = Some i" and "i < length (bufs s)"
    and "b_qnext (bufs s ! i) = None" and "ctl_ok (idedev s)"
  shows "ideintr s = Ret () ((wakeup1 (Some (BufChan i)) (served i s))\<lparr>held := {}\<rparr>)"
  using ideintr_start [OF assms(1-4) _ assms(6)] assms(5)
  by (simp add: start_next_def served_def wakeup1_def)

lemma ide_finish_simps [simp]:
  "held (ide_finish s) = held s" "others (ide_finish s) = others s" "cur (ide_finish s) = cur s"
  "procs (ide_finish s) = procs s" "bufs (ide_finish s) = bufs s" "idequeue (ide_finish s) = idequeue s"
  "id_polls (idedev (ide_finish s)) = id_polls (idedev s)" "id_err (idedev (ide_finish s)) = id_err (idedev s)"
  "mem (ide_finish s) = mem s" "memdisk (ide_finish s) = memdisk s" "disksize (ide_finish s) = disksize s"
  "havedisk1 (ide_finish s) = havedisk1 s" "pipes (ide_finish s) = pipes s" "kdisk.more (ide_finish s) = kdisk.more s"
  "initproc (ide_finish s) = initproc s" "nextpid (ide_finish s) = nextpid s" "ticks (ide_finish s) = ticks s"
  by (simp_all add: ide_finish_def Let_def)

lemma ctl_finish [simp]: "ctl_ok (idedev (ide_finish s)) = ctl_ok (idedev s)"
  by (simp add: ctl_ok_def)

lemma ide_irqs_eq:
  assumes "held s = {}" and "others s = {}" and "idequeue s = Some i" and "i < length (bufs s)"
    and "b_qnext (bufs s ! i) = None" and "ctl_ok (idedev s)"
    and "p < length (procs s)" and "p_state (procs s ! p) = SLEEPING" and "p_chan (procs s ! p) = Some (BufChan i)"
  shows "ide_irqs (Suc (Suc n)) p s = Ret () ((wakeup1 (Some (BufChan i)) (served i (ide_finish s)))\<lparr>held := {}\<rparr>)"
proof -
  let ?t = "(wakeup1 (Some (BufChan i)) (served i (ide_finish s)))\<lparr>held := {}\<rparr>"
  have "ideintr (ide_finish s) = Ret () ?t"
    using assms by (intro ideintr_eq) simp_all
  moreover have "p_state (procs ?t ! p) = RUNNABLE"
    using assms by (simp add: wakeup1_def served_def wake_one_def)
  ultimately show ?thesis
    using assms(8) by (simp add: ide_irq_def prog_simps)
qed

declare ide_irqs.simps [simp del]

definition ide_done :: "nat \<Rightarrow> 'z kdisk_scheme \<Rightarrow> 'z kdisk_scheme \<Rightarrow> bool" where
  "ide_done i s t \<longleftrightarrow> bufs t = bufs (served i (ide_finish s)) \<and> idequeue t = None \<and> disk t = disk (ide_finish s) \<and>
     dwrites t = dwrites (ide_finish s) \<and> ctl_ok (idedev t) \<and> memdisk t = memdisk s \<and> disksize t = disksize s \<and>
     havedisk1 t = havedisk1 s \<and> others t = others s \<and> same_rest s t"

lemma finish_cong:
  "idedev s = idedev t \<Longrightarrow> disk s = disk t \<Longrightarrow> dwrites s = dwrites t \<Longrightarrow>
   idedev (ide_finish s) = idedev (ide_finish t) \<and> disk (ide_finish s) = disk (ide_finish t) \<and>
   dwrites (ide_finish s) = dwrites (ide_finish t)"
  by (simp add: ide_finish_def Let_def)

lemma served_cong:
  "bufs s = bufs t \<Longrightarrow> idedev s = idedev t \<Longrightarrow> disk s = disk t \<Longrightarrow> dwrites s = dwrites t \<Longrightarrow>
   bufs (served i (ide_finish s)) = bufs (served i (ide_finish t))"
  using finish_cong [of s t] by (simp add: served_def upd_buf_def)

lemma ctl_served: "ctl_ok (idedev s) \<Longrightarrow> ctl_ok (idedev (served i s))"
  by (simp add: served_def ctl_polled)

lemma proc_core_wake [simp]: "proc_core (wake_one ch p) = proc_core p"
  by (simp add: proc_core_def wake_one_def)

lemma map_proc_core_upd:
  "proc_core (f (ps ! i)) = proc_core (ps ! i) \<Longrightarrow> map proc_core (ps[i := f (ps ! i)]) = map proc_core ps"
  by (cases "i < length ps") (simp_all add: map_update list_update_same_conv list_update_beyond)

lemma proc_core_procs:
  "(\<And>q. proc_core (f q) = proc_core q) \<Longrightarrow> map proc_core (procs (upd_proc i f s)) = map proc_core (procs s)"
  unfolding upd_proc_def by (simp add: map_proc_core_upd)

lemma proc_core_sched [simp]: "proc_core (q\<lparr>p_state := st\<rparr>) = proc_core q" "proc_core (q\<lparr>p_chan := c\<rparr>) = proc_core q"
  by (simp_all add: proc_core_def)

lemma dispatch_in_eq:
  assumes "p < length (procs s)" and "p_pgdir (procs s ! p) \<noteq> 0"
  shows "dispatch_in p s = Ret () (upd_proc p (\<lambda>q. q\<lparr>p_state := RUNNING\<rparr>)
     (s\<lparr>cur := Some p, ts_ss0 := 16, ts_esp0 := p_kstack (procs s ! p) + KSTACKSIZE, cr3 := v2p (p_pgdir (procs s ! p))\<rparr>))"
  using assms by (simp add: dispatch_in_def switchuvm_def the_proc_def upd_proc_def)

lemma ide_sleep_ok:
  assumes "held s = {IdeLock}" and "others s = {}" and "idequeue s = Some i" and "i < length (bufs s)"
    and "b_qnext (bufs s ! i) = None" and "ctl_ok (idedev s)"
    and "cur s = Some p" and "p < length (procs s)" and "p_pgdir (procs s ! p) \<noteq> 0"
  shows "\<exists>t. ide_sleep i s = Ret () t \<and> held t = {IdeLock} \<and> p_state (procs t ! p) = RUNNING \<and>
     p_pgdir (procs t ! p) \<noteq> 0 \<and> length (procs t) = length (procs s) \<and> ide_done i s t"
proof -
  define t0 where "t0 = upd_proc p (\<lambda>q. q\<lparr>p_chan := Some (BufChan i), p_state := SLEEPING\<rparr>) (s\<lparr>held := {PtableLock}\<rparr>)"
  define t2 where "t2 = t0\<lparr>cr3 := v2p (kpgdir t0), cur := None, held := {}\<rparr>"
  define t3 where "t3 = (wakeup1 (Some (BufChan i)) (served i (ide_finish t2)))\<lparr>held := {}\<rparr>"
  define t4 where "t4 = t3\<lparr>held := {PtableLock}\<rparr>"
  define t5 where "t5 = upd_proc p (\<lambda>q. q\<lparr>p_state := RUNNING\<rparr>)
     (t4\<lparr>cur := Some p, ts_ss0 := 16, ts_esp0 := p_kstack (procs t4 ! p) + KSTACKSIZE, cr3 := v2p (p_pgdir (procs t4 ! p))\<rparr>)"
  define t6 where "t6 = upd_proc p (\<lambda>q. q\<lparr>p_chan := None\<rparr>) t5\<lparr>held := {IdeLock}\<rparr>"
  have sl: "sleep (Some (BufChan i)) (Some IdeLock) s = Swtch t0"
    unfolding t0_def using assms by (intro sleep_eq) simp_all
  have p2: "procs t2 = (procs s)[p := (procs s ! p)\<lparr>p_chan := Some (BufChan i), p_state := SLEEPING\<rparr>]"
    by (simp add: t2_def t0_def upd_proc_def)
  have irqs: "ide_irqs (Suc (length (bufs t0))) p t2 = Ret () t3"
  proof -
    obtain n where n: "length (bufs t0) = Suc n" using assms(4) by (cases "bufs s") (auto simp: t0_def upd_proc_def)
    show ?thesis unfolding n t3_def
      using assms by (intro ide_irqs_eq) (simp_all add: p2 t2_def t0_def upd_proc_def)
  qed
  have p4: "p < length (procs t4)" "p_pgdir (procs t4 ! p) \<noteq> 0" "held t4 = {PtableLock}" "others t4 = {}"
    using assms by (simp_all add: t4_def t3_def wakeup1_def p2 wake_one_def t2_def t0_def)
  have "acquire PtableLock t3 = Ret () t4"
    using assms by (simp add: acquire_def t4_def t3_def t2_def t0_def)
  moreover have "dispatch_in p t4 = Ret () t5"
    unfolding t5_def using p4 by (intro dispatch_in_eq)
  moreover have "sleep_resume IdeLock t5 = Ret () t6"
    using p4 by (simp add: sleep_resume_def t5_def t6_def the_proc_def upd_proc_def acquire_def release_def)
  moreover have "dispatch_out t0 = Ret () (t0\<lparr>cr3 := v2p (kpgdir t0), cur := None\<rparr>)"
    by (simp add: dispatch_out_def switchkvm_def)
  moreover have "release PtableLock (t0\<lparr>cr3 := v2p (kpgdir t0), cur := None\<rparr>) = Ret () t2"
    by (simp add: t2_def t0_def)
  moreover have "cur t0 = Some p" using assms(7) by (simp add: t0_def)
  ultimately have "ide_sleep i s = Ret () t6"
    using sl irqs by (simp add: ide_sleep_def prog_simps)
  moreover have "held t6 = {IdeLock}" "p_state (procs t6 ! p) = RUNNING" "p_pgdir (procs t6 ! p) \<noteq> 0"
    "length (procs t6) = length (procs s)"
    using p4 assms by (simp_all add: t6_def t5_def t4_def t3_def p2 upd_proc_def wakeup1_def)
  moreover have "ide_done i s t6"
  proof -
    have low: "bufs t2 = bufs s" "idedev t2 = idedev s" "disk t2 = disk s" "dwrites t2 = dwrites s"
      by (simp_all add: t2_def t0_def upd_proc_def)
    have up: "bufs t6 = bufs (served i (ide_finish t2))" "idedev t6 = idedev (served i (ide_finish t2))"
      "disk t6 = disk (ide_finish t2)" "dwrites t6 = dwrites (ide_finish t2)" "idequeue t6 = b_qnext (bufs t2 ! i)"
      "memdisk t6 = memdisk t2" "disksize t6 = disksize t2" "havedisk1 t6 = havedisk1 t2" "others t6 = others t2"
      "kdisk.more t6 = kdisk.more t2" "pipes t6 = pipes t2" "cur t6 = Some p" "initproc t6 = initproc t2"
      "nextpid t6 = nextpid t2" "ticks t6 = ticks t2"
      by (simp_all add: t6_def t5_def t4_def t3_def upd_proc_def wakeup1_def)
    have "map proc_core (procs t6) = map proc_core (procs t2)"
      by (simp add: t6_def t5_def t4_def t3_def proc_core_procs proc_core_sched) (simp add: wakeup1_def comp_def)
    moreover have "map proc_core (procs t2) = map proc_core (procs s)"
      unfolding p2 by (rule map_proc_core_upd) (simp add: proc_core_def)
    moreover have "ctl_ok (idedev t6)"
      unfolding up using assms(6) low by (intro ctl_served) simp
    moreover have "bufs (served i (ide_finish t2)) = bufs (served i (ide_finish s))"
      using low served_cong [of t2 s i] by simp
    moreover have "disk (ide_finish t2) = disk (ide_finish s)" "dwrites (ide_finish t2) = dwrites (ide_finish s)"
      using low finish_cong [of t2 s] by simp_all
    ultimately show ?thesis
      using up assms low by (simp add: ide_done_def same_rest_def t2_def t0_def upd_proc_def)
  qed
  ultimately show ?thesis by blast
qed

definition ide_dsk :: "'z kdisk_scheme \<Rightarrow> u32 \<Rightarrow> u8 list" where
  "ide_dsk s = disk s 1"

text \<open>The queue is empty, disk 1 is there with blocks of the right size, and no error shows.\<close>

definition ide_dev_ok :: "'z kdisk_scheme \<Rightarrow> bool" where
  "ide_dev_ok s \<longleftrightarrow> idequeue s = None \<and> ctl_ok (idedev s) \<and> havedisk1 s \<and>
     (\<forall>b < FSSIZE. length (disk s 1 b) = BSIZE)"

lemma same_rest_trans: "same_rest s t \<Longrightarrow> same_rest t u \<Longrightarrow> same_rest s u"
  by (simp add: same_rest_def)

lemma finish_setup:
  assumes "b_blockno b < FSSIZE" and "b_dev b = 1" and "idedev s = ide_setup b d"
  shows "disk (ide_finish s) 1 = (disk s 1)(b_blockno b := if b_dirty b then b_data b else disk s 1 (b_blockno b))"
    and "dwrites (ide_finish s) = dwrites s @ (if b_dirty b then [(1, b_blockno b, b_data b)] else [])"
    and "\<not> b_dirty b \<Longrightarrow> id_data (idedev (ide_finish s)) = disk s 1 (b_blockno b)"
proof -
  have "ide_lba (idedev s) = b_blockno b" "ide_drv (idedev s) = 1"
    using ide_setup_decode [OF assms(1), of d] assms(2,3) by simp_all
  moreover have "IDE_CMD_READ \<noteq> IDE_CMD_WRITE" by (simp add: IDE_CMD_READ_def IDE_CMD_WRITE_def)
  moreover have "id_cmd (idedev s) = Some (if b_dirty b then IDE_CMD_WRITE else IDE_CMD_READ)"
    "b_dirty b \<Longrightarrow> id_data (idedev s) = b_data b"
    using assms(3) by (simp_all add: ide_setup_def)
  ultimately show "disk (ide_finish s) 1 = (disk s 1)(b_blockno b := if b_dirty b then b_data b else disk s 1 (b_blockno b))"
    "dwrites (ide_finish s) = dwrites s @ (if b_dirty b then [(1, b_blockno b, b_data b)] else [])"
    "\<not> b_dirty b \<Longrightarrow> id_data (idedev (ide_finish s)) = disk s 1 (b_blockno b)"
    by (auto simp: ide_finish_def Let_def)
qed

lemma iderw_ok:
  assumes q: "quiet s" and dev: "ide_dev_ok s" and i: "i < length (bufs s)" and busy: "b_busy (bufs s ! i)"
    and ns: "\<not> b_synced (bufs s ! i)" and d1: "b_dev (bufs s ! i) = 1" and bn: "b_blockno (bufs s ! i) < FSSIZE"
    and len: "length (b_data (bufs s ! i)) = BSIZE"
  shows "\<exists>t. iderw i s = Ret () t \<and> quiet t \<and> ide_dev_ok t \<and> rw_post ide_dsk i s t"
proof -
  obtain p where p: "held s = {}" "others s = {}" "cur s = Some p" "p < length (procs s)" "p_pgdir (procs s ! p) \<noteq> 0"
    using q by (auto simp: quiet_def)
  define b where "b = (bufs s ! i)\<lparr>b_qnext := None\<rparr>"
  define s2 where "s2 = ide_append i (s\<lparr>held := {IdeLock}\<rparr>)"
  define s3 where "s3 = s2\<lparr>idedev := ide_setup b (polled (idedev s))\<rparr>"
  have s2: "s2 = s\<lparr>held := {IdeLock}, bufs := (bufs s)[i := b], idequeue := Some i\<rparr>"
    using dev by (simp add: s2_def ide_append_def ide_dev_ok_def upd_buf_def b_def)
  have b: "b_blockno b = b_blockno (bufs s ! i)" "b_dev b = 1" "b_dirty b = b_dirty (bufs s ! i)"
    "b_busy b" "b_data b = b_data (bufs s ! i)" "b_prev b = b_prev (bufs s ! i)" "b_next b = b_next (bufs s ! i)"
    "\<not> b_synced b" "b_qnext b = None"
    using d1 busy ns by (simp_all add: b_def b_synced_iff)
  have start: "idestart (Some i) s2 = Ret () s3"
    using idestart_eq [of s2 i] bn b i by (simp add: s3_def s2)
  have s3: "held s3 = {IdeLock}" "others s3 = {}" "idequeue s3 = Some i" "i < length (bufs s3)" "bufs s3 = (bufs s)[i := b]"
    "cur s3 = Some p" "procs s3 = procs s" "idedev s3 = ide_setup b (polled (idedev s))" "disk s3 = disk s" "dwrites s3 = dwrites s"
    "havedisk1 s3 = havedisk1 s"
    using p i by (simp_all add: s3_def s2)
  have "ctl_ok (idedev s3)"
    using dev ctl_polled [of "idedev s"] by (simp add: s3 ide_dev_ok_def ctl_ok_def ide_setup_def)
  with s3 p b i obtain t where t: "ide_sleep i s3 = Ret () t" "held t = {IdeLock}" "p_state (procs t ! p) = RUNNING"
    "p_pgdir (procs t ! p) \<noteq> 0" "length (procs t) = length (procs s)" "ide_done i s3 t"
    using ide_sleep_ok [of s3 i p] by auto
  note fin = finish_setup [of b s3, unfolded b s3, OF bn refl refl]
  have bi: "bufs t = (bufs s)[i := b\<lparr>b_data := (if b_dirty b then b_data b else disk s 1 (b_blockno b)),
       b_flags := (b_flags b OR B_VALID) AND NOT B_DIRTY\<rparr>]"
    using t(6) i fin(3) by (simp add: ide_done_def served_def upd_buf_def s3 b)
  have wait: "iderw_wait 2 i s3 = Ret () t"
    using t(1) b(8) bi i by (simp add: numeral_2_eq_2 s3 prog_simps b_synced_iff)
  have rel: "release IdeLock t = Ret () (t\<lparr>held := {}\<rparr>)" using t(2) by simp
  have "iderw i s = Ret () (t\<lparr>held := {}\<rparr>)"
    using p busy ns d1 dev start wait rel
    by (simp add: iderw_def acquire_def prog_simps s2_def [symmetric] ide_dev_ok_def) (simp add: s2)
  moreover have "quiet (t\<lparr>held := {}\<rparr>)"
    using t p s3 by (auto simp: quiet_def ide_done_def same_rest_def)
  moreover have "ide_dev_ok (t\<lparr>held := {}\<rparr>)"
    using t(6) dev fin(1) s3 b len by (auto simp: ide_dev_ok_def ide_done_def)
  moreover have "rw_post ide_dsk i s (t\<lparr>held := {}\<rparr>)"
  proof -
    have "same_rest s s3" by (simp add: same_rest_def s3_def s2)
    moreover have "same_rest s3 (t\<lparr>held := {}\<rparr>)" using t(6) by (simp add: ide_done_def same_rest_def)
    ultimately have "same_rest s (t\<lparr>held := {}\<rparr>)" by (rule same_rest_trans)
    moreover have "disk t = disk (ide_finish s3)" "dwrites t = dwrites (ide_finish s3)"
      using t(6) by (simp_all add: ide_done_def)
    ultimately show ?thesis
      using bi b i d1 busy fin(1,2) by (simp add: rw_post_def Let_def ide_dsk_def sync_buf_def)
  qed
  ultimately show ?thesis by blast
qed

interpretation id: disk_driver iderw ide_dsk ide_dev_ok FSSIZE
  by unfold_locales (erule (7) iderw_ok, simp_all add: ide_dsk_def ide_dev_ok_def)

section \<open>The request queue\<close>

fun qchain :: "buf list \<Rightarrow> nat option \<Rightarrow> nat list \<Rightarrow> bool" where
  "qchain bs h [] \<longleftrightarrow> h = None"
| "qchain bs h (x # xs) \<longleftrightarrow> h = Some x \<and> x < length bs \<and> qchain bs (b_qnext (bs ! x)) xs"

lemma qchain_cong:
  "(\<And>x. x \<in> set xs \<Longrightarrow> b_qnext (bs' ! x) = b_qnext (bs ! x)) \<Longrightarrow> length bs' = length bs \<Longrightarrow>
   qchain bs' h xs = qchain bs h xs"
  by (induction xs arbitrary: h) auto

lemma ide_last_chain: "qchain bs (Some h) xs \<Longrightarrow> length xs \<le> Suc n \<Longrightarrow> ide_last n bs h = last xs"
proof (induction n arbitrary: h xs)
  case 0
  then obtain x where "xs = [x]" by (cases xs) auto
  with 0 show ?case by simp
next
  case (Suc n)
  then obtain ys where ys: "xs = h # ys" "qchain bs (b_qnext (bs ! h)) ys" by (cases xs) auto
  show ?case
  proof (cases "b_qnext (bs ! h)")
    case None
    with ys(2) have "ys = []" by (cases ys) auto
    with None ys(1) show ?thesis by simp
  next
    case (Some j)
    with ys(2) have "ys \<noteq> []" by (cases ys) auto
    with Some ys Suc.IH [of j ys] Suc.prems(2) show ?thesis by simp
  qed
qed

lemma qchain_snoc:
  "qchain bs h xs \<Longrightarrow> xs \<noteq> [] \<Longrightarrow> distinct xs \<Longrightarrow> i \<notin> set xs \<Longrightarrow> i < length bs \<Longrightarrow> b_qnext (bs ! i) = None \<Longrightarrow>
   qchain (bs[last xs := (bs ! last xs)\<lparr>b_qnext := Some i\<rparr>]) h (xs @ [i])"
proof (induction xs arbitrary: h)
  case (Cons x xs)
  show ?case
  proof (cases "xs = []")
    case False
    then have "last xs \<noteq> x" using Cons.prems(3) by auto
    with False Cons show ?thesis by auto
  qed (use Cons.prems in auto)
qed simp

lemma qchain_lt: "qchain bs h xs \<Longrightarrow> x \<in> set xs \<Longrightarrow> x < length bs"
  by (induction xs arbitrary: h) auto

lemma append_chain:
  assumes "qchain (bufs s) (idequeue s) xs" and "distinct xs" and "i \<notin> set xs" and "i < length (bufs s)"
  shows "qchain (bufs (ide_append i s)) (idequeue (ide_append i s)) (xs @ [i])"
proof -
  define bs where "bs = (bufs s)[i := (bufs s ! i)\<lparr>b_qnext := None\<rparr>]"
  have "b_qnext (bs ! x) = b_qnext (bufs s ! x)" if "x \<in> set xs" for x
    using that assms(3) by (cases "x = i") (auto simp: bs_def)
  then have c: "qchain bs (idequeue s) xs"
    using assms(1) qchain_cong [of xs bs "bufs s" "idequeue s"] by (simp add: bs_def)
  show ?thesis
  proof (cases "idequeue s")
    case None
    with c have "xs = []" by (cases xs) auto
    with None assms(4) show ?thesis by (simp add: ide_append_def upd_buf_def Let_def)
  next
    case (Some h)
    with c have ne: "xs \<noteq> []" by auto
    have "length xs \<le> length bs"
    proof -
      have "set xs \<subseteq> {..<length bs}" using qchain_lt [OF c] by auto
      then show ?thesis using assms(2) by (metis card_lessThan card_mono distinct_card finite_lessThan)
    qed
    then have "ide_last (length bs) bs h = last xs"
      using c Some by (intro ide_last_chain) auto
    with Some assms ne c qchain_snoc [OF c ne assms(2,3)] show ?thesis
      by (simp add: ide_append_def upd_buf_def Let_def bs_def)
  qed
qed

lemma served_chain:
  assumes "qchain (bufs s) (idequeue s) (x # xs)"
  shows "qchain (bufs (served x s)) (idequeue (served x s)) xs"
proof -
  have "b_qnext (bufs (served x s) ! y) = b_qnext (bufs s ! y)" if "y \<in> set xs" for y
    using assms by (cases "y = x") (auto simp: served_def upd_buf_def)
  then show ?thesis using assms qchain_cong [of xs "bufs (served x s)" "bufs s"] by simp
qed

section \<open>Properties\<close>

text \<open>C24. The disk queue is first-in first-out: \<open>iderw\<close> appends its buffer at the end of the linked
  queue, and the interrupt handler finishes the buffer at the head, leaves the rest of the
  queue in order, and programs the controller with the block, drive and direction of the
  next buffer.\<close>

theorem ide_queue_fifo:
  assumes "qchain (bufs s) (idequeue s) (x # xs)" and "distinct (x # xs)"
    and "\<forall>y \<in> set xs. b_blockno (bufs s ! y) < FSSIZE" and "ctl_ok (idedev s)" and "held s = {}" and "others s = {}"
  shows "(\<forall>i < length (bufs s). i \<notin> set (x # xs) \<longrightarrow>
           qchain (bufs (ide_append i s)) (idequeue (ide_append i s)) (x # xs @ [i])) \<and>
    (\<exists>t. ideintr s = Ret () t \<and> qchain (bufs t) (idequeue t) xs \<and> b_synced (bufs t ! x) \<and> held t = {} \<and>
       (\<forall>y ys. xs = y # ys \<longrightarrow> ide_lba (idedev t) = b_blockno (bufs s ! y) \<and>
          ide_drv (idedev t) = b_dev (bufs s ! y) AND 1 \<and>
          id_cmd (idedev t) = Some (if b_dirty (bufs s ! y) then IDE_CMD_WRITE else IDE_CMD_READ)))"
proof -
  let ?t = "(start_next (wakeup1 (Some (BufChan x)) (served x s)))\<lparr>held := {}\<rparr>"
  have x: "idequeue s = Some x" "x < length (bufs s)" using assms(1) by auto
  have nx: "b_blockno (bufs s ! j) < FSSIZE" if "b_qnext (bufs s ! x) = Some j" for j
    using that assms(1,3) by (cases xs) auto
  have b: "bufs ?t = bufs (served x s)" "idequeue ?t = idequeue (served x s)"
    by (simp_all add: start_next_def wakeup1_def split: option.split)
  have "qchain (bufs ?t) (idequeue ?t) xs" unfolding b using assms(1) by (rule served_chain)
  moreover have "b_synced (bufs ?t ! x)"
    unfolding b using x by (simp add: served_def b_synced_iff)
  moreover have "ide_lba (idedev ?t) = b_blockno (bufs s ! y) \<and> ide_drv (idedev ?t) = b_dev (bufs s ! y) AND 1 \<and>
      id_cmd (idedev ?t) = Some (if b_dirty (bufs s ! y) then IDE_CMD_WRITE else IDE_CMD_READ)" if "xs = y # ys" for y ys
  proof -
    have q: "idequeue (served x s) = Some y" using served_chain [OF assms(1)] that by simp
    have "bufs (served x s) ! y = bufs s ! y"
      using that assms(2) by (simp add: served_def upd_buf_def)
    with q have "idedev ?t = ide_setup (bufs s ! y) (polled (idedev (served x s)))"
      by (simp add: start_next_def wakeup1_def)
    with ide_setup_decode [of "bufs s ! y"] assms(3) that show ?thesis by (simp add: ide_setup_def)
  qed
  moreover have "ideintr s = Ret () ?t"
    using assms x nx by (intro ideintr_start)
  moreover have "qchain (bufs (ide_append i s)) (idequeue (ide_append i s)) (x # xs @ [i])"
    if "i < length (bufs s)" "i \<notin> set (x # xs)" for i
    using append_chain [OF assms(1,2) that(2,1)] by simp
  ultimately show ?thesis by auto
qed

text \<open>Buffers and a state to run the examples on: three buffers, the first two queued.\<close>

definition zero_buf :: buf where
  "zero_buf = \<lparr>b_flags = 0, b_dev = 0xFFFFFFFF, b_blockno = 0, b_prev = 0, b_next = 0, b_qnext = None, b_data = replicate 512 0\<rparr>"

definition idle_ctl :: idedev where
  "idle_ctl = \<lparr>id_polls = [0x80, 0x50], id_err = False, id_nsect = 0, id_lba0 = 0, id_lba1 = 0, id_lba2 = 0,
     id_drive = 0, id_cmd = None, id_data = []\<rparr>"

definition disk_state :: "buf list \<Rightarrow> kdisk" where
  "disk_state bs = kpipe.extend (pipe_state\<lparr>procs := [zero_proc\<lparr>p_state := RUNNING, p_pid := 1, p_pgdir := 0x80400000\<rparr>]\<rparr>)
     \<lparr>bufs = bs, idequeue = None, havedisk1 = True, idedev = idle_ctl,
      disk = (\<lambda>_ _. replicate 512 7), dwrites = [], memdisk = 0, disksize = 0\<rparr>"

lemma disk_state_facts [simp]:
  "bufs (disk_state bs) = bs" "idequeue (disk_state bs) = None" "havedisk1 (disk_state bs)"
  "idedev (disk_state bs) = idle_ctl" "disk (disk_state bs) = (\<lambda>_ _. replicate 512 7)" "dwrites (disk_state bs) = []"
  "held (disk_state bs) = {}" "others (disk_state bs) = {}" "cur (disk_state bs) = Some 0"
  "procs (disk_state bs) = [zero_proc\<lparr>p_state := RUNNING, p_pid := 1, p_pgdir := 0x80400000\<rparr>]"
  by (simp_all add: disk_state_def kpipe.defs pipe_state_def kphys.defs kcore.defs core_with_def)

lemma idle_ctl_ok: "ctl_ok idle_ctl"
  by (simp add: ctl_ok_def polls_ok_def idle_ctl_def IDE_BSY_def IDE_DRDY_def IDE_DF_def IDE_ERR_def)

definition two_queued :: kdisk where
  "two_queued = (disk_state [zero_buf\<lparr>b_flags := 5, b_dev := 1, b_blockno := 3, b_qnext := Some 1\<rparr>,
      zero_buf\<lparr>b_flags := 1, b_dev := 1, b_blockno := 700\<rparr>, zero_buf])\<lparr>idequeue := Some 0\<rparr>"

theorem ide_queue_fifo_witness:
  "\<exists>t. ideintr two_queued = Ret () t \<and> qchain (bufs t) (idequeue t) [1] \<and> ide_lba (idedev t) = 700 \<and>
     id_cmd (idedev t) = Some IDE_CMD_READ"
proof -
  have q: "qchain (bufs two_queued) (idequeue two_queued) [0, 1]" "distinct [0, 1 :: nat]"
    "\<forall>y \<in> set [1]. b_blockno (bufs two_queued ! y) < FSSIZE" "ctl_ok (idedev two_queued)"
    "held two_queued = {}" "others two_queued = {}"
    using idle_ctl_ok by (simp_all add: two_queued_def zero_buf_def FSSIZE_def)
  have b: "\<not> b_dirty (bufs two_queued ! 1)" "b_blockno (bufs two_queued ! 1) = 700"
    by (simp_all add: two_queued_def b_dirty_def B_DIRTY_def)
  obtain t where t: "ideintr two_queued = Ret () t" "qchain (bufs t) (idequeue t) [1]"
    "\<forall>y ys. [1] = y # ys \<longrightarrow> ide_lba (idedev t) = b_blockno (bufs two_queued ! y) \<and>
          ide_drv (idedev t) = b_dev (bufs two_queued ! y) AND 1 \<and>
          id_cmd (idedev t) = Some (if b_dirty (bufs two_queued ! y) then IDE_CMD_WRITE else IDE_CMD_READ)"
    using conjunct2 [OF ide_queue_fifo [OF q]] by blast
  from t(3) [rule_format, OF refl] t(1,2) b show ?thesis by auto
qed

text \<open>C23. One disk request: \<open>iderw\<close> on a busy buffer that is dirty or not valid returns with the
  buffer valid and clean; a dirty buffer's data is then on the disk, at its block, written
  once; otherwise the buffer holds the block's data and the disk is unchanged. No other
  buffer changes and all locks are free again.\<close>

theorem iderw_syncs:
  assumes "quiet s" and "ide_dev_ok s" and "i < length (bufs s)" and "b_busy (bufs s ! i)"
    and "\<not> b_synced (bufs s ! i)" and "b_dev (bufs s ! i) = 1" and "b_blockno (bufs s ! i) < FSSIZE"
    and "length (b_data (bufs s ! i)) = BSIZE"
  shows "\<exists>t. iderw i s = Ret () t \<and> b_synced (bufs t ! i) \<and> b_busy (bufs t ! i) \<and>
     (if b_dirty (bufs s ! i)
      then disk t 1 = (disk s 1)(b_blockno (bufs s ! i) := b_data (bufs s ! i)) \<and>
           dwrites t = dwrites s @ [(1, b_blockno (bufs s ! i), b_data (bufs s ! i))]
      else disk t 1 = disk s 1 \<and> dwrites t = dwrites s) \<and>
     b_data (bufs t ! i) = disk t 1 (b_blockno (bufs s ! i)) \<and>
     (\<forall>j. j \<noteq> i \<longrightarrow> bufs t ! j = bufs s ! j) \<and> held t = {}"
  using iderw_ok [OF assms] assms(4)
  by (auto simp: rw_post_def Let_def sync_buf_def b_synced_iff ide_dsk_def quiet_def)

theorem iderw_syncs_witness:
  "\<exists>t. iderw 0 (disk_state [zero_buf\<lparr>b_flags := 5, b_dev := 1, b_blockno := 3\<rparr>]) = Ret () t \<and>
     disk t 1 3 = replicate 512 0 \<and> disk t 1 4 = replicate 512 7"
proof -
  let ?s = "disk_state [zero_buf\<lparr>b_flags := 5, b_dev := 1, b_blockno := 3\<rparr>]"
  have f: "b_busy (bufs ?s ! 0)" "b_dirty (bufs ?s ! 0)" "\<not> b_synced (bufs ?s ! 0)"
    by (simp_all add: b_busy_def B_BUSY_def b_dirty_def B_DIRTY_def b_synced_def B_VALID_def)
  have "quiet ?s" "ide_dev_ok ?s"
    using idle_ctl_ok by (simp_all add: quiet_def ide_dev_ok_def BSIZE_def)
  from iderw_syncs [OF this _ f(1,3)] f(2) show ?thesis
    by (auto simp: zero_buf_def BSIZE_def FSSIZE_def)
qed

end
