(* ===== verification/Bio.thy ===== *)
theory Bio
  imports Ide
begin

text \<open>
  The buffer cache \<open>src/HW3/bio.c\<close>, over either disk driver: the driver is the argument
  \<open>rw\<close>. The buffers form a doubly linked list through \<open>prev\<close> and \<open>next\<close> with the list
  head \<open>bcache.head\<close>, entry \<open>HEAD\<close> of the buffer table. The walks along the list are
  given as much fuel as there are buffers. The first half proves that the pointers
  implement a most-recently-used list; the second half, inside the driver's locale, that
  the cache shows every reader the current contents of a block.
\<close>

section \<open>Operations\<close>

definition NBUF :: nat where "NBUF = 30"
definition HEAD :: nat where "HEAD = NBUF"

definition binit_one :: "nat \<Rightarrow> 'z kdisk_scheme \<Rightarrow> 'z kdisk_scheme" where
  "binit_one b s =
     (let s = upd_buf b (\<lambda>x. x\<lparr>b_next := b_next (bufs s ! HEAD)\<rparr>) s;
          s = upd_buf b (\<lambda>x. x\<lparr>b_prev := HEAD\<rparr>) s;
          s = upd_buf b (\<lambda>x. x\<lparr>b_dev := 0xFFFFFFFF\<rparr>) s;
          s = upd_buf (b_next (bufs s ! HEAD)) (\<lambda>x. x\<lparr>b_prev := b\<rparr>) s
      in upd_buf HEAD (\<lambda>x. x\<lparr>b_next := b\<rparr>) s)"

definition binit :: "('z kdisk_scheme, unit) prog" where
  "binit =
     kseq [kmod (upd_buf HEAD (\<lambda>x. x\<lparr>b_prev := HEAD\<rparr>)),
           kmod (upd_buf HEAD (\<lambda>x. x\<lparr>b_next := HEAD\<rparr>)),
           kfor [0..<NBUF] (\<lambda>b. kmod (binit_one b))]"

fun scan_next :: "nat \<Rightarrow> buf list \<Rightarrow> (buf \<Rightarrow> bool) \<Rightarrow> nat \<Rightarrow> nat option" where
  "scan_next 0 bs P i = None"
| "scan_next (Suc n) bs P i =
     (if i = HEAD then None else if P (bs ! i) then Some i else scan_next n bs P (b_next (bs ! i)))"

fun scan_prev :: "nat \<Rightarrow> buf list \<Rightarrow> (buf \<Rightarrow> bool) \<Rightarrow> nat \<Rightarrow> nat option" where
  "scan_prev 0 bs P i = None"
| "scan_prev (Suc n) bs P i =
     (if i = HEAD then None else if P (bs ! i) then Some i else scan_prev n bs P (b_prev (bs ! i)))"

text \<open>
  \<open>bget\<close> from the label \<open>loop\<close> on, with the lock held. \<open>sleep\<close> leaves through \<open>Swtch\<close>; the
  \<open>goto loop\<close> that follows it is \<open>bget_resume\<close>.
\<close>

definition bget_loop :: "u32 \<Rightarrow> u32 \<Rightarrow> ('z kdisk_scheme, nat) prog" where
  "bget_loop dev blockno =
     kbind (kget bufs) (\<lambda>bs.
       case scan_next (Suc NBUF) bs (\<lambda>b. b_dev b = dev \<and> b_blockno b = blockno) (b_next (bs ! HEAD)) of
         Some i \<Rightarrow>
           if \<not> b_busy (bs ! i) then
             kbind (kseq [kmod (upd_buf i (\<lambda>b. b\<lparr>b_flags := b_flags b OR B_BUSY\<rparr>)),
                          release BcacheLock]) (\<lambda>_. kret i)
           else kbind (sleep (Some (BufChan i)) (Some BcacheLock)) (\<lambda>_. kret i)
       | None \<Rightarrow>
          (case scan_prev (Suc NBUF) bs (\<lambda>b. \<not> b_busy b \<and> \<not> b_dirty b) (b_prev (bs ! HEAD)) of
             Some i \<Rightarrow>
               kbind (kseq [kmod (upd_buf i (\<lambda>b. b\<lparr>b_dev := dev\<rparr>)),
                            kmod (upd_buf i (\<lambda>b. b\<lparr>b_blockno := blockno\<rparr>)),
                            kmod (upd_buf i (\<lambda>b. b\<lparr>b_flags := B_BUSY\<rparr>)),
                            release BcacheLock]) (\<lambda>_. kret i)
           | None \<Rightarrow> kpanic ''bget: no buffers''))"

definition bget :: "u32 \<Rightarrow> u32 \<Rightarrow> ('z kdisk_scheme, nat) prog" where
  "bget dev blockno = kbind (acquire BcacheLock) (\<lambda>_. bget_loop dev blockno)"

definition bget_resume :: "u32 \<Rightarrow> u32 \<Rightarrow> ('z kdisk_scheme, nat) prog" where
  "bget_resume dev blockno = kbind (sleep_resume BcacheLock) (\<lambda>_. bget_loop dev blockno)"

definition bread :: "(nat \<Rightarrow> ('z kdisk_scheme, unit) prog) \<Rightarrow> u32 \<Rightarrow> u32 \<Rightarrow> ('z kdisk_scheme, nat) prog" where
  "bread rw dev blockno =
     kbind (bget dev blockno) (\<lambda>i.
     kbind (kget (\<lambda>s. b_valid (bufs s ! i))) (\<lambda>v.
     kbind (kwhen (\<not> v) (rw i)) (\<lambda>_. kret i)))"

definition bwrite :: "(nat \<Rightarrow> ('z kdisk_scheme, unit) prog) \<Rightarrow> nat \<Rightarrow> ('z kdisk_scheme, unit) prog" where
  "bwrite rw i =
     kseq [panic_if (\<lambda>s. \<not> b_busy (bufs s ! i)) ''bwrite'',
           kmod (upd_buf i (\<lambda>b. b\<lparr>b_flags := b_flags b OR B_DIRTY\<rparr>)),
           rw i]"

definition brelse_move :: "nat \<Rightarrow> 'z kdisk_scheme \<Rightarrow> 'z kdisk_scheme" where
  "brelse_move i s =
     (let s = upd_buf (b_next (bufs s ! i)) (\<lambda>x. x\<lparr>b_prev := b_prev (bufs s ! i)\<rparr>) s;
          s = upd_buf (b_prev (bufs s ! i)) (\<lambda>x. x\<lparr>b_next := b_next (bufs s ! i)\<rparr>) s;
          s = upd_buf i (\<lambda>x. x\<lparr>b_next := b_next (bufs s ! HEAD)\<rparr>) s;
          s = upd_buf i (\<lambda>x. x\<lparr>b_prev := HEAD\<rparr>) s;
          s = upd_buf (b_next (bufs s ! HEAD)) (\<lambda>x. x\<lparr>b_prev := i\<rparr>) s
      in upd_buf HEAD (\<lambda>x. x\<lparr>b_next := i\<rparr>) s)"

definition brelse :: "nat \<Rightarrow> ('z kdisk_scheme, unit) prog" where
  "brelse i =
     kseq [panic_if (\<lambda>s. \<not> b_busy (bufs s ! i)) ''brelse'',
           acquire BcacheLock,
           kmod (brelse_move i),
           kmod (upd_buf i (\<lambda>b. b\<lparr>b_flags := b_flags b AND NOT B_BUSY\<rparr>)),
           wakeup (Some (BufChan i)),
           release BcacheLock]"

section \<open>The linked list\<close>

text \<open>
  \<open>seg nx pv a xs b\<close>: following \<open>nx\<close> from \<open>a\<close> passes through \<open>xs\<close> and arrives at \<open>b\<close>,
  and following \<open>pv\<close> from \<open>b\<close> leads back the same way.
\<close>

fun seg :: "(nat \<Rightarrow> nat) \<Rightarrow> (nat \<Rightarrow> nat) \<Rightarrow> nat \<Rightarrow> nat list \<Rightarrow> nat \<Rightarrow> bool" where
  "seg nx pv a [] b \<longleftrightarrow> nx a = b \<and> pv b = a"
| "seg nx pv a (x # xs) b \<longleftrightarrow> nx a = x \<and> pv x = a \<and> seg nx pv x xs b"

lemma seg_append: "seg nx pv a (xs @ y # ys) b \<longleftrightarrow> seg nx pv a xs y \<and> seg nx pv y ys b"
  by (induction xs arbitrary: a) auto

lemma seg_cong:
  "seg nx pv a xs b \<Longrightarrow> (\<And>x. x \<in> set (a # xs) \<Longrightarrow> nx' x = nx x) \<Longrightarrow> (\<And>x. x \<in> set (xs @ [b]) \<Longrightarrow> pv' x = pv x) \<Longrightarrow>
   seg nx' pv' a xs b"
  by (induction xs arbitrary: a) auto

lemma seg_last: "seg nx pv a xs b \<Longrightarrow> pv b = last (a # xs)"
  by (induction xs arbitrary: a) auto

lemma seg_first: "seg nx pv a xs b \<Longrightarrow> nx a = hd (xs @ [b])"
  by (cases xs) auto

lemma seg_tail: "seg nx pv a (xs @ [y]) b \<Longrightarrow> seg nx pv a xs y"
  by (simp add: seg_append)

text \<open>Unlinking one element.\<close>

lemma seg_unlink:
  assumes "seg nx pv h (ys @ i # zs) h" and "distinct (h # ys @ i # zs)"
  shows "seg (nx(pv i := nx i)) (pv(nx i := pv i)) h (ys @ zs) h"
proof -
  have s: "seg nx pv h ys i" "seg nx pv i zs h" using assms(1) by (simp_all add: seg_append)
  have p: "pv i = last (h # ys)" and n: "nx i = hd (zs @ [h])"
    using seg_last [OF s(1)] seg_first [OF s(2)] by auto
  have left: "seg (nx(pv i := n')) (pv(n' := pv i)) h ys n'" if "n' \<notin> set ys" for n'
  proof (cases ys rule: rev_cases)
    case Nil
    with p show ?thesis by simp
  next
    case (snoc us u)
    have "seg nx pv h us u" using s(1) unfolding snoc by (rule seg_tail)
    then have "seg (nx(u := n')) (pv(n' := u)) h us u"
      using assms(2) that snoc by (elim seg_cong) auto
    with snoc p show ?thesis by (simp add: seg_append)
  qed
  show ?thesis
  proof (cases zs)
    case Nil
    with left [of h] n assms(2) show ?thesis by simp
  next
    case (Cons z us)
    have "seg nx pv z us h" using s(2) Cons by simp
    moreover have "pv i \<noteq> x" if "x \<in> set (z # us)" for x
    proof -
      have "pv i \<in> set (h # ys)" unfolding p by (rule last_in_set) simp
      with that assms(2) Cons show ?thesis by auto
    qed
    ultimately have "seg (nx(pv i := z)) (pv(z := pv i)) z us h"
      using assms(2) Cons by (elim seg_cong) auto
    moreover have "seg (nx(pv i := z)) (pv(z := pv i)) h ys z" using left assms(2) Cons by auto
    ultimately show ?thesis using n Cons by (simp add: seg_append)
  qed
qed

text \<open>Linking one element in at the front.\<close>

lemma seg_push:
  assumes "seg nx pv h xs h" and "i \<notin> set (h # xs)" and "distinct (h # xs)"
  shows "seg (nx(i := nx h, h := i)) (pv(i := h, nx h := i)) h (i # xs) h"
proof (cases xs)
  case Nil
  with assms show ?thesis by simp
next
  case (Cons z us)
  have "seg nx pv z us h" "nx h = z" using assms(1) Cons by simp_all
  from this(1) have "seg (nx(i := z, h := i)) (pv(i := h, z := i)) z us h"
    by (rule seg_cong) (use assms Cons in auto)
  with \<open>nx h = z\<close> Cons assms(2) show ?thesis by simp
qed

definition bnx :: "'z kdisk_scheme \<Rightarrow> nat \<Rightarrow> nat" where "bnx s i = b_next (bufs s ! i)"
definition bpv :: "'z kdisk_scheme \<Rightarrow> nat \<Rightarrow> nat" where "bpv s i = b_prev (bufs s ! i)"

text \<open>The list from most to least recently used.\<close>

definition mru :: "'z kdisk_scheme \<Rightarrow> nat list \<Rightarrow> bool" where
  "mru s xs \<longleftrightarrow> length (bufs s) = Suc NBUF \<and> seg (bnx s) (bpv s) HEAD xs HEAD \<and> distinct xs \<and> set xs = {..<NBUF}"

lemma scan_next_find:
  "seg (bnx s) pv a xs HEAD \<Longrightarrow> HEAD \<notin> set xs \<Longrightarrow> length xs < n \<Longrightarrow>
   scan_next n (bufs s) P (bnx s a) = find (\<lambda>i. P (bufs s ! i)) xs"
proof (induction xs arbitrary: a n)
  case Nil
  then show ?case by (cases n) auto
next
  case (Cons x xs)
  then obtain m where "n = Suc m" by (cases n) auto
  with Cons show ?case by (auto simp: bnx_def)
qed

lemma scan_prev_find:
  "seg nx (bpv s) HEAD xs b \<Longrightarrow> HEAD \<notin> set xs \<Longrightarrow> length xs < n \<Longrightarrow>
   scan_prev n (bufs s) P (bpv s b) = find (\<lambda>i. P (bufs s ! i)) (rev xs)"
proof (induction xs arbitrary: b n rule: rev_induct)
  case Nil
  then show ?case by (cases n) auto
next
  case (snoc x xs)
  then obtain m where n: "n = Suc m" by (cases n) auto
  have "seg nx (bpv s) HEAD xs x" "bpv s b = x" using snoc.prems(1) by (simp_all add: seg_append)
  moreover from this(1) have "scan_prev m (bufs s) P (bpv s x) = find (\<lambda>i. P (bufs s ! i)) (rev xs)"
    using snoc.prems n by (intro snoc.IH) auto
  moreover have "b_prev (bufs s ! x) = bpv s x" by (simp add: bpv_def)
  ultimately show ?case using n snoc.prems(2) by auto
qed

lemma upd_bnx:
  assumes "j < length (bufs s)"
  shows "bnx (upd_buf j (\<lambda>x. x\<lparr>b_next := v\<rparr>) s) = (bnx s)(j := v)"
    and "bpv (upd_buf j (\<lambda>x. x\<lparr>b_next := v\<rparr>) s) = bpv s"
    and "bpv (upd_buf j (\<lambda>x. x\<lparr>b_prev := v\<rparr>) s) = (bpv s)(j := v)"
    and "bnx (upd_buf j (\<lambda>x. x\<lparr>b_prev := v\<rparr>) s) = bnx s"
  using assms by (auto simp: bnx_def bpv_def upd_buf_def nth_list_update fun_eq_iff)

lemma brelse_move_ptrs:
  assumes "i < length (bufs s)" "bnx s i < length (bufs s)" "bpv s i < length (bufs s)" "HEAD < length (bufs s)"
    "i \<noteq> HEAD" "bnx s i \<noteq> i" "bpv s i \<noteq> i"
    and "((bnx s)(bpv s i := bnx s i)) HEAD < length (bufs s)" "((bnx s)(bpv s i := bnx s i)) HEAD \<noteq> i"
  defines "nx \<equiv> (bnx s)(bpv s i := bnx s i)" and "pv \<equiv> (bpv s)(bnx s i := bpv s i)"
  shows "bnx (brelse_move i s) = nx(i := nx HEAD, HEAD := i)"
    and "bpv (brelse_move i s) = pv(i := HEAD, nx HEAD := i)"
proof -
  define s1 where "s1 = upd_buf (bnx s i) (\<lambda>x. x\<lparr>b_prev := bpv s i\<rparr>) s"
  define s2 where "s2 = upd_buf (bpv s1 i) (\<lambda>x. x\<lparr>b_next := bnx s1 i\<rparr>) s1"
  define s3 where "s3 = upd_buf i (\<lambda>x. x\<lparr>b_next := bnx s2 HEAD\<rparr>) s2"
  define s4 where "s4 = upd_buf i (\<lambda>x. x\<lparr>b_prev := HEAD\<rparr>) s3"
  define s5 where "s5 = upd_buf (bnx s4 HEAD) (\<lambda>x. x\<lparr>b_prev := i\<rparr>) s4"
  have m: "brelse_move i s = upd_buf HEAD (\<lambda>x. x\<lparr>b_next := i\<rparr>) s5"
    by (simp add: brelse_move_def s1_def s2_def s3_def s4_def s5_def bnx_def bpv_def Let_def)
  have 1: "bnx s1 = bnx s" "bpv s1 = pv" "length (bufs s1) = length (bufs s)"
    using assms(2) by (simp_all add: s1_def upd_bnx pv_def)
  have "bpv s1 i = bpv s i" using assms(6) by (simp add: 1 pv_def)
  then have 2: "bnx s2 = nx" "bpv s2 = pv" "length (bufs s2) = length (bufs s)"
    using assms(3) by (simp_all add: s2_def upd_bnx 1 nx_def)
  then have 3: "bnx s3 = nx(i := nx HEAD)" "bpv s3 = pv" "length (bufs s3) = length (bufs s)"
    using assms(1) by (simp_all add: s3_def upd_bnx)
  then have 4: "bnx s4 = nx(i := nx HEAD)" "bpv s4 = pv(i := HEAD)" "length (bufs s4) = length (bufs s)"
    using assms(1) by (simp_all add: s4_def upd_bnx)
  then have 5: "bnx s5 = nx(i := nx HEAD)" "bpv s5 = pv(i := HEAD, nx HEAD := i)" "length (bufs s5) = length (bufs s)"
    using assms(5,8) by (simp_all add: s5_def upd_bnx nx_def)
  then show "bnx (brelse_move i s) = nx(i := nx HEAD, HEAD := i)" "bpv (brelse_move i s) = pv(i := HEAD, nx HEAD := i)"
    using assms(4) by (simp_all add: m upd_bnx)
qed

lemma mru_neighbours:
  assumes "mru s (ys @ i # zs)"
  shows "bpv s i = last (HEAD # ys)" "bnx s i = hd (zs @ [HEAD])"
  using assms seg_last [of "bnx s" "bpv s" HEAD ys i] seg_first [of "bnx s" "bpv s" i zs HEAD]
  by (auto simp: mru_def seg_append)

lemma mru_move:
  assumes "mru s xs" and "i < NBUF"
  shows "mru (brelse_move i s) (i # remove1 i xs)"
proof -
  have "i \<in> set xs" using assms by (simp add: mru_def)
  then obtain ys zs where xs: "xs = ys @ i # zs" "i \<notin> set ys" using split_list_first by metis
  from assms(1) have "mru s (ys @ i # zs)" by (simp only: xs(1))
  note nb = mru_neighbours [OF this]
  have m: "length (bufs s) = Suc NBUF" "seg (bnx s) (bpv s) HEAD xs HEAD" "distinct xs" "set xs = {..<NBUF}"
    using assms(1) unfolding mru_def by blast+
  have lt: "x < Suc NBUF" if "x \<in> set (HEAD # xs)" for x
  proof -
    have "x = HEAD \<or> x < NBUF" using that m(4) by simp
    then show ?thesis unfolding HEAD_def by linarith
  qed
  have "HEAD \<notin> set xs" using m(4) by (simp add: HEAD_def)
  then have d: "distinct (HEAD # ys @ i # zs)"
    using m(3) unfolding xs(1) by simp
  have sg: "seg (bnx s) (bpv s) HEAD (ys @ i # zs) HEAD" using m(2) by (simp only: xs(1))
  note len = m(1)
  have p: "bpv s i \<in> set (HEAD # ys)" unfolding nb(1) by (rule last_in_set) simp
  have n: "bnx s i \<in> set (HEAD # zs)" unfolding nb(2) by (cases zs) auto
  let ?nx = "(bnx s)(bpv s i := bnx s i)" and ?pv = "(bpv s)(bnx s i := bpv s i)"
  have un: "seg ?nx ?pv HEAD (ys @ zs) HEAD" using sg d by (rule seg_unlink)
  have f: "?nx HEAD \<in> set (HEAD # ys @ zs)" unfolding seg_first [OF un] by (cases ys; cases zs; simp)
  have "bpv s i < Suc NBUF" using p lt xs by auto
  moreover have "bnx s i < Suc NBUF" using n lt xs by auto
  moreover have "?nx HEAD < Suc NBUF" using f lt xs by auto
  moreover have "bnx s i \<noteq> i" "bpv s i \<noteq> i" "?nx HEAD \<noteq> i" "i \<noteq> HEAD" using p n f d by auto
  moreover have "i < Suc NBUF" "HEAD < Suc NBUF" using assms(2) by (simp_all add: HEAD_def)
  ultimately have ptrs: "bnx (brelse_move i s) = ?nx(i := ?nx HEAD, HEAD := i)"
    "bpv (brelse_move i s) = ?pv(i := HEAD, ?nx HEAD := i)"
    using brelse_move_ptrs [of i s, unfolded len] by blast+
  have "seg (?nx(i := ?nx HEAD, HEAD := i)) (?pv(i := HEAD, ?nx HEAD := i)) HEAD (i # ys @ zs) HEAD"
    by (rule seg_push [OF un]) (use d in auto)
  moreover have "remove1 i xs = ys @ zs" using xs by (simp add: remove1_append)
  moreover have "length (bufs (brelse_move i s)) = Suc NBUF" using len by (simp add: brelse_move_def Let_def)
  moreover have "set (i # ys @ zs) = {..<NBUF}" unfolding m(4) [symmetric] xs(1) by auto
  ultimately show ?thesis using d by (simp add: mru_def ptrs)
qed

text \<open>The move touches nothing but the links.\<close>

definition same_but_links :: "buf \<Rightarrow> buf \<Rightarrow> bool" where
  "same_but_links b b' \<longleftrightarrow> b_flags b' = b_flags b \<and> b_dev b' = b_dev b \<and> b_blockno b' = b_blockno b \<and>
     b_qnext b' = b_qnext b \<and> b_data b' = b_data b"

lemma same_links_refl [simp]: "same_but_links b b"
  by (simp add: same_but_links_def)

lemma links_upd:
  "same_but_links b (bufs s ! j) \<Longrightarrow> same_but_links b (bufs (upd_buf i (\<lambda>x. x\<lparr>b_next := v\<rparr>) s) ! j)"
  "same_but_links b (bufs s ! j) \<Longrightarrow> same_but_links b (bufs (upd_buf i (\<lambda>x. x\<lparr>b_prev := v\<rparr>) s) ! j)"
  by (cases "i < length (bufs s)"; cases "i = j"; simp add: upd_buf_def same_but_links_def list_update_beyond)+

lemma brelse_move_data: "same_but_links (bufs s ! j) (bufs (brelse_move i s) ! j)"
  unfolding brelse_move_def Let_def by (intro links_upd same_links_refl)

lemma brelse_move_frame:
  "kdisk.more (brelse_move i s) = kdisk.more s" "length (bufs (brelse_move i s)) = length (bufs s)"
  "held (brelse_move i s) = held s" "others (brelse_move i s) = others s" "cur (brelse_move i s) = cur s"
  "procs (brelse_move i s) = procs s" "mem (brelse_move i s) = mem s" "memdisk (brelse_move i s) = memdisk s"
  "disksize (brelse_move i s) = disksize s" "disk (brelse_move i s) = disk s" "dwrites (brelse_move i s) = dwrites s"
  "idequeue (brelse_move i s) = idequeue s" "idedev (brelse_move i s) = idedev s" "havedisk1 (brelse_move i s) = havedisk1 s"
  "pipes (brelse_move i s) = pipes s" "initproc (brelse_move i s) = initproc s" "nextpid (brelse_move i s) = nextpid s"
  "ticks (brelse_move i s) = ticks s" "lock_free lk (brelse_move i s) = lock_free lk s"
  by (simp_all add: brelse_move_def Let_def)

lemma binit_one_ptrs:
  assumes "b < NBUF" and "length (bufs s) = Suc NBUF" and "bnx s HEAD < Suc NBUF" and "bnx s HEAD \<noteq> b"
  shows "bnx (binit_one b s) = (bnx s)(b := bnx s HEAD, HEAD := b)"
    and "bpv (binit_one b s) = (bpv s)(b := HEAD, bnx s HEAD := b)"
    and "length (bufs (binit_one b s)) = Suc NBUF"
proof -
  define s1 where "s1 = upd_buf b (\<lambda>x. x\<lparr>b_next := bnx s HEAD\<rparr>) s"
  define s2 where "s2 = upd_buf b (\<lambda>x. x\<lparr>b_prev := HEAD\<rparr>) s1"
  define s3 where "s3 = upd_buf b (\<lambda>x. x\<lparr>b_dev := 0xFFFFFFFF\<rparr>) s2"
  define s4 where "s4 = upd_buf (bnx s3 HEAD) (\<lambda>x. x\<lparr>b_prev := b\<rparr>) s3"
  have m: "binit_one b s = upd_buf HEAD (\<lambda>x. x\<lparr>b_next := b\<rparr>) s4"
    by (simp add: binit_one_def s1_def s2_def s3_def s4_def bnx_def Let_def)
  have ne: "b \<noteq> HEAD" "HEAD < Suc NBUF" using assms(1) by (simp_all add: HEAD_def)
  have 1: "bnx s1 = (bnx s)(b := bnx s HEAD)" "bpv s1 = bpv s" "length (bufs s1) = Suc NBUF"
    using assms(1,2) by (simp_all add: s1_def upd_bnx)
  then have 2: "bnx s2 = (bnx s)(b := bnx s HEAD)" "bpv s2 = (bpv s)(b := HEAD)" "length (bufs s2) = Suc NBUF"
    using assms(1) by (simp_all add: s2_def upd_bnx)
  then have 3: "bnx s3 = (bnx s)(b := bnx s HEAD)" "bpv s3 = (bpv s)(b := HEAD)" "length (bufs s3) = Suc NBUF"
    using assms(1) by (auto simp: s3_def bnx_def bpv_def upd_buf_def nth_list_update fun_eq_iff)
  then have 4: "bnx s4 = (bnx s)(b := bnx s HEAD)" "bpv s4 = (bpv s)(b := HEAD, bnx s HEAD := b)" "length (bufs s4) = Suc NBUF"
    using assms(3) ne by (simp_all add: s4_def upd_bnx)
  then show "bnx (binit_one b s) = (bnx s)(b := bnx s HEAD, HEAD := b)"
    "bpv (binit_one b s) = (bpv s)(b := HEAD, bnx s HEAD := b)" "length (bufs (binit_one b s)) = Suc NBUF"
    using ne by (simp_all add: m upd_bnx)
qed

lemma binit_loop:
  assumes "length (bufs s) = Suc NBUF" and "seg (bnx s) (bpv s) HEAD (rev [0..<k]) HEAD" and "k + n \<le> NBUF"
  shows "\<exists>t. kfor [k..<k + n] (\<lambda>b. kmod (binit_one b)) s = Ret () t \<and> length (bufs t) = Suc NBUF \<and>
    seg (bnx t) (bpv t) HEAD (rev [0..<k + n]) HEAD"
  using assms
proof (induction n arbitrary: k s)
  case (Suc n)
  have d: "distinct (HEAD # rev [0..<k])" "k \<notin> set (HEAD # rev [0..<k])"
    using Suc.prems(3) by (auto simp: HEAD_def)
  have "bnx s HEAD = hd (rev [0..<k] @ [HEAD])" using Suc.prems(2) by (rule seg_first)
  then have "bnx s HEAD < Suc NBUF \<and> bnx s HEAD \<noteq> k"
    using Suc.prems(3) by (cases k) (simp_all add: HEAD_def)
  then have p: "bnx (binit_one k s) = (bnx s)(k := bnx s HEAD, HEAD := k)"
    "bpv (binit_one k s) = (bpv s)(k := HEAD, bnx s HEAD := k)" "length (bufs (binit_one k s)) = Suc NBUF"
    using binit_one_ptrs [of k s] Suc.prems by simp_all
  have "seg (bnx (binit_one k s)) (bpv (binit_one k s)) HEAD (k # rev [0..<k]) HEAD"
    unfolding p by (rule seg_push [OF Suc.prems(2) d(2,1)])
  then have "seg (bnx (binit_one k s)) (bpv (binit_one k s)) HEAD (rev [0..<Suc k]) HEAD" by simp
  moreover have "Suc k + n \<le> NBUF" using Suc.prems(3) by simp
  ultimately obtain t where t: "kfor [Suc k..<Suc k + n] (\<lambda>b. kmod (binit_one b)) (binit_one k s) = Ret () t"
    "length (bufs t) = Suc NBUF" "seg (bnx t) (bpv t) HEAD (rev [0..<Suc k + n]) HEAD"
    using Suc.IH [OF p(3)] by blast
  have "[k..<k + Suc n] = k # [Suc k..<Suc k + n]" by (simp add: upt_conv_Cons del: upt_Suc)
  with t(1) have "kfor [k..<k + Suc n] (\<lambda>b. kmod (binit_one b)) s = Ret () t"
    by (simp del: upt_Suc)
  moreover have "k + Suc n = Suc k + n" by simp
  ultimately show ?case using t(2,3) by metis
qed simp

text \<open>\<open>binit\<close> links all buffers, the last one at the front.\<close>

lemma binit_mru:
  assumes "length (bufs s) = Suc NBUF"
  shows "\<exists>t. binit s = Ret () t \<and> mru t (rev [0..<NBUF])"
proof -
  define s1 where "s1 = upd_buf HEAD (\<lambda>x. x\<lparr>b_next := HEAD\<rparr>) (upd_buf HEAD (\<lambda>x. x\<lparr>b_prev := HEAD\<rparr>) s)"
  have l: "length (bufs s1) = Suc NBUF" using assms by (simp add: s1_def)
  have "seg (bnx s1) (bpv s1) HEAD (rev [0..<0]) HEAD"
    using assms by (simp add: s1_def upd_bnx HEAD_def)
  from binit_loop [OF l this, of NBUF] obtain t where
    t: "kfor [0..<NBUF] (\<lambda>b. kmod (binit_one b)) s1 = Ret () t" "length (bufs t) = Suc NBUF"
      "seg (bnx t) (bpv t) HEAD (rev [0..<NBUF]) HEAD" by auto
  then have "mru t (rev [0..<NBUF])" by (simp add: mru_def atLeast0LessThan)
  moreover have "binit s = Ret () t"
    using t(1) by (simp add: binit_def s1_def [symmetric])
  ultimately show ?thesis by blast
qed

section \<open>What the cache holds\<close>

definition buf_ok :: "(u32 \<Rightarrow> u8 list) \<Rightarrow> u32 \<Rightarrow> buf \<Rightarrow> bool" where
  "buf_ok d n x \<longleftrightarrow> length (b_data x) = BSIZE \<and> (b_dev x \<noteq> 1 \<longrightarrow> \<not> b_busy x \<and> \<not> b_dirty x) \<and>
     (b_dev x = 1 \<longrightarrow> b_blockno x < n) \<and> (b_dirty x \<longrightarrow> b_valid x) \<and>
     (b_dev x = 1 \<and> b_valid x \<and> \<not> b_dirty x \<and> \<not> b_busy x \<longrightarrow> b_data x = d (b_blockno x))"

definition buf_for :: "u32 \<Rightarrow> buf \<Rightarrow> bool" where
  "buf_for b x \<longleftrightarrow> b_dev x = 1 \<and> b_blockno x = b"

definition one_each :: "buf list \<Rightarrow> bool" where
  "one_each bs \<longleftrightarrow> (\<forall>i < NBUF. \<forall>j < NBUF. \<forall>b. buf_for b (bs ! i) \<and> buf_for b (bs ! j) \<longrightarrow> i = j)"

definition cache_ok :: "('z kdisk_scheme \<Rightarrow> u32 \<Rightarrow> u8 list) \<Rightarrow> u32 \<Rightarrow> 'z kdisk_scheme \<Rightarrow> bool" where
  "cache_ok dsk n s \<longleftrightarrow> (\<exists>xs. mru s xs) \<and> (\<forall>i < NBUF. buf_ok (dsk s) n (bufs s ! i)) \<and> one_each (bufs s)"

text \<open>The current contents of a block of device 1: the cached copy if there is a valid one.\<close>

definition content :: "('z kdisk_scheme \<Rightarrow> u32 \<Rightarrow> u8 list) \<Rightarrow> 'z kdisk_scheme \<Rightarrow> u32 \<Rightarrow> u8 list" where
  "content dsk s b = (case find (\<lambda>i. buf_for b (bufs s ! i) \<and> b_valid (bufs s ! i)) [0..<NBUF] of
      Some i \<Rightarrow> b_data (bufs s ! i) | None \<Rightarrow> dsk s b)"

lemma find_iff: "find P xs = Some x \<Longrightarrow> x \<in> set xs \<and> P x"
  by (auto simp: find_Some_iff)

lemma content_cached:
  assumes "one_each (bufs s)" and "i < NBUF" and "buf_for b (bufs s ! i)" and "b_valid (bufs s ! i)"
  shows "content dsk s b = b_data (bufs s ! i)"
proof -
  let ?P = "\<lambda>i. buf_for b (bufs s ! i) \<and> b_valid (bufs s ! i)"
  have "find ?P [0..<NBUF] \<noteq> None" using assms by (auto simp: find_None_iff)
  then obtain j where j: "find ?P [0..<NBUF] = Some j" by auto
  then have "j < NBUF" "buf_for b (bufs s ! j)" using find_iff [OF j] by auto
  with assms have "j = i" by (auto simp: one_each_def)
  with j show ?thesis by (simp add: content_def)
qed

lemma content_disk:
  "(\<And>i. i < NBUF \<Longrightarrow> buf_for b (bufs s ! i) \<Longrightarrow> \<not> b_valid (bufs s ! i)) \<Longrightarrow> content dsk s b = dsk s b"
proof -
  assume "\<And>i. i < NBUF \<Longrightarrow> buf_for b (bufs s ! i) \<Longrightarrow> \<not> b_valid (bufs s ! i)"
  then have "find (\<lambda>i. buf_for b (bufs s ! i) \<and> b_valid (bufs s ! i)) [0..<NBUF] = None"
    by (auto simp: find_None_iff)
  then show ?thesis by (simp add: content_def)
qed

lemma content_cases:
  assumes "one_each (bufs s)"
  obtains (cached) i where "i < NBUF" "buf_for b (bufs s ! i)" "b_valid (bufs s ! i)" "content dsk s b = b_data (bufs s ! i)"
    | (disk) "\<forall>i < NBUF. buf_for b (bufs s ! i) \<longrightarrow> \<not> b_valid (bufs s ! i)" "content dsk s b = dsk s b"
  using content_cached [OF assms] content_disk [of b s dsk] that by blast

text \<open>The cached blocks that wait to be written.\<close>

definition dirty_blocks :: "'z kdisk_scheme \<Rightarrow> u32 set" where
  "dirty_blocks s = {b. \<exists>i < NBUF. buf_for b (bufs s ! i) \<and> b_dirty (bufs s ! i)}"

text \<open>A change of one buffer: what remains to be shown of the invariant and the contents.\<close>

lemma one_each_upd:
  assumes "one_each (bufs s)" and "i < NBUF" and "\<forall>j. j \<noteq> i \<longrightarrow> bufs t ! j = bufs s ! j"
    and "buf_for b (bufs t ! i) \<Longrightarrow> \<forall>j < NBUF. buf_for b (bufs s ! j) \<longrightarrow> j = i"
    and "\<And>c. c \<noteq> b \<Longrightarrow> \<not> buf_for c (bufs t ! i)"
  shows "one_each (bufs t)"
  unfolding one_each_def
proof (intro allI impI)
  fix k j c
  assume "k < NBUF" "j < NBUF" and bk: "buf_for c (bufs t ! k) \<and> buf_for c (bufs t ! j)"
  show "k = j"
  proof (cases "k = i \<or> j = i")
    case True
    with bk have c: "buf_for c (bufs t ! i)" by auto
    with assms(5) have "c = b" by blast
    with c have "buf_for b (bufs t ! i)" by simp
    with True bk assms(3) assms(4) \<open>c = b\<close> \<open>k < NBUF\<close> \<open>j < NBUF\<close> show ?thesis by (metis (no_types))
  next
    case False
    with bk assms(1,3) \<open>k < NBUF\<close> \<open>j < NBUF\<close> show ?thesis by (auto simp: one_each_def)
  qed
qed

lemma content_upd_other:
  assumes "one_each (bufs s)" and "one_each (bufs t)" and "i < NBUF" and "\<forall>j. j \<noteq> i \<longrightarrow> bufs t ! j = bufs s ! j"
    and "dsk t c = dsk s c" and "\<not> buf_for c (bufs t ! i)"
    and "buf_for c (bufs s ! i) \<Longrightarrow> b_valid (bufs s ! i) \<Longrightarrow> b_data (bufs s ! i) = dsk s c"
  shows "content dsk t c = content dsk s c"
  using assms(1)
proof (cases rule: content_cases [of s c dsk])
  case (cached j)
  show ?thesis
  proof (cases "j = i")
    case True
    have "\<not> b_valid (bufs t ! k)" if "k < NBUF" "buf_for c (bufs t ! k)" for k
    proof -
      have "k \<noteq> i" using that assms(6) by auto
      then have "buf_for c (bufs s ! k)" using that assms(4) by simp
      with assms(1) cached True that \<open>k \<noteq> i\<close> show ?thesis by (auto simp: one_each_def)
    qed
    then have "content dsk t c = dsk t c" by (rule content_disk)
    with True cached assms(5,7) show ?thesis by simp
  next
    case False
    with cached assms(4) content_cached [OF assms(2), of j c dsk] show ?thesis by simp
  qed
next
  case disk
  have "content dsk t c = dsk t c"
    using disk(1) assms(4,6) by (intro content_disk) metis
  with disk assms(5) show ?thesis by simp
qed

section \<open>bget\<close>

lemma mru_scan:
  assumes "mru s xs"
  shows "scan_next (Suc NBUF) (bufs s) P (b_next (bufs s ! HEAD)) = find (\<lambda>i. P (bufs s ! i)) xs"
    and "scan_prev (Suc NBUF) (bufs s) P (b_prev (bufs s ! HEAD)) = find (\<lambda>i. P (bufs s ! i)) (rev xs)"
proof -
  have sg: "seg (bnx s) (bpv s) HEAD xs HEAD" and d: "distinct xs" and st: "set xs = {..<NBUF}"
    using assms unfolding mru_def by blast+
  have "HEAD \<notin> set xs" using st by (simp add: HEAD_def)
  moreover have "length xs = NBUF" using distinct_card [OF d] st by simp
  ultimately show "scan_next (Suc NBUF) (bufs s) P (b_next (bufs s ! HEAD)) = find (\<lambda>i. P (bufs s ! i)) xs"
    "scan_prev (Suc NBUF) (bufs s) P (b_prev (bufs s ! HEAD)) = find (\<lambda>i. P (bufs s ! i)) (rev xs)"
    using scan_next_find [OF sg, of "Suc NBUF" P] scan_prev_find [OF sg, of "Suc NBUF" P]
    by (simp_all add: bnx_def bpv_def)
qed

lemma mru_mem: "mru s xs \<Longrightarrow> i \<in> set xs \<longleftrightarrow> i < NBUF"
  by (simp add: mru_def)

lemma mru_length: "mru s xs \<Longrightarrow> length (bufs s) = Suc NBUF"
  by (simp add: mru_def)

lemma held_idem: "held s = {} \<Longrightarrow> s\<lparr>held := {}\<rparr> = s"
  by (cases s) simp

lemma bufs_held_restore: "held s = {} \<Longrightarrow> s\<lparr>bufs := x, held := {}\<rparr> = s\<lparr>bufs := x\<rparr>"
  by (cases s) simp

lemma bget_hit:
  assumes "mru s xs" and "one_each (bufs s)" and "held s = {}" and "others s = {}"
    and "i < NBUF" and "buf_for b (bufs s ! i)" and "\<not> b_busy (bufs s ! i)"
  shows "bget 1 b s = Ret i (upd_buf i (\<lambda>x. x\<lparr>b_flags := b_flags x OR B_BUSY\<rparr>) s)"
proof -
  let ?P = "\<lambda>x. b_dev x = 1 \<and> b_blockno x = b"
  have "find (\<lambda>i. ?P (bufs s ! i)) xs \<noteq> None"
    using assms(5,6) mru_mem [OF assms(1)] by (auto simp: find_None_iff buf_for_def)
  then obtain j where j: "find (\<lambda>i. ?P (bufs s ! i)) xs = Some j" by auto
  with find_iff [OF j] mru_mem [OF assms(1)] assms(2,5,6) have "j = i"
    by (auto simp: one_each_def buf_for_def)
  with j assms(3,4,7) show ?thesis
    by (simp add: bget_def bget_loop_def mru_scan [OF assms(1)] acquire_def upd_buf_def prog_simps bufs_held_restore
        del: scan_next.simps)
qed

lemma bget_miss:
  assumes "mru s xs" and "held s = {}" and "others s = {}"
    and "\<And>i. i < NBUF \<Longrightarrow> \<not> buf_for b (bufs s ! i)"
    and "k < NBUF" and "\<not> b_busy (bufs s ! k)" and "\<not> b_dirty (bufs s ! k)"
  shows "\<exists>j. j < NBUF \<and> \<not> b_busy (bufs s ! j) \<and> \<not> b_dirty (bufs s ! j) \<and>
    bget 1 b s = Ret j (upd_buf j (\<lambda>x. x\<lparr>b_dev := 1, b_blockno := b, b_flags := B_BUSY\<rparr>) s)"
proof -
  let ?P = "\<lambda>x. b_dev x = 1 \<and> b_blockno x = b" and ?Q = "\<lambda>x. \<not> b_busy x \<and> \<not> b_dirty x"
  have n: "find (\<lambda>i. ?P (bufs s ! i)) xs = None"
    using assms(4) mru_mem [OF assms(1)] by (auto simp: find_None_iff buf_for_def)
  have "find (\<lambda>i. ?Q (bufs s ! i)) (rev xs) \<noteq> None"
    using assms(5-7) mru_mem [OF assms(1)] by (auto simp: find_None_iff)
  then obtain j where j: "find (\<lambda>i. ?Q (bufs s ! i)) (rev xs) = Some j" by auto
  have "j < NBUF" "?Q (bufs s ! j)" using find_iff [OF j] mru_mem [OF assms(1)] by auto
  moreover have "j < length (bufs s)" using \<open>j < NBUF\<close> mru_length [OF assms(1)] by simp
  ultimately show ?thesis
    using assms(2,3) by (intro exI [of _ j])
      (simp add: bget_def bget_loop_def mru_scan [OF assms(1)] n j acquire_def upd_buf_def prog_simps bufs_held_restore
        del: scan_next.simps scan_prev.simps)
qed

lemma mru_upd:
  assumes "mru s xs" and "\<And>x. b_next (f x) = b_next x" and "\<And>x. b_prev (f x) = b_prev x"
  shows "mru (upd_buf i f s) xs"
proof -
  have "bnx (upd_buf i f s) = bnx s" "bpv (upd_buf i f s) = bpv s"
    using assms(2,3) by (cases "i < length (bufs s)";
      auto simp: bnx_def bpv_def upd_buf_def nth_list_update list_update_beyond fun_eq_iff)+
  with assms(1) show ?thesis by (simp add: mru_def)
qed

lemma mru_cong: "mru s xs \<Longrightarrow> bnx t = bnx s \<Longrightarrow> bpv t = bpv s \<Longrightarrow> length (bufs t) = length (bufs s) \<Longrightarrow> mru t xs"
  by (simp add: mru_def)

lemma quiet_upd_buf [simp]: "quiet (upd_buf i f s) = quiet s"
  by (simp add: quiet_def)

lemma same_rest_upd_buf [simp]: "same_rest s (upd_buf i f s)"
  by (simp add: same_rest_def)

section \<open>One buffer changes\<close>

lemma cache_step:
  assumes co: "cache_ok dsk n s" and i: "i < NBUF" and oth: "\<forall>j. j \<noteq> i \<longrightarrow> bufs t ! j = bufs s ! j"
    and ln: "length (bufs t) = length (bufs s)" and lk: "bnx t = bnx s" "bpv t = bpv s"
    and d: "\<forall>c. c \<noteq> b \<longrightarrow> dsk t c = dsk s c" and bt: "buf_for b (bufs t ! i)" and ok: "buf_ok (dsk t) n (bufs t ! i)"
    and u: "\<forall>j < NBUF. buf_for b (bufs s ! j) \<longrightarrow> j = i"
    and old: "buf_for b (bufs s ! i) \<or> \<not> b_busy (bufs s ! i) \<and> \<not> b_dirty (bufs s ! i)"
  shows "cache_ok dsk n t \<and>
    content dsk t = (content dsk s)(b := if b_valid (bufs t ! i) then b_data (bufs t ! i) else dsk t b)"
proof -
  have one: "one_each (bufs s)" and oks: "\<forall>i < NBUF. buf_ok (dsk s) n (bufs s ! i)" and m: "\<exists>xs. mru s xs"
    using co by (simp_all add: cache_ok_def)
  have bt': "\<And>c. c \<noteq> b \<Longrightarrow> \<not> buf_for c (bufs t ! i)" using bt by (auto simp: buf_for_def)
  have one': "one_each (bufs t)" using one_each_upd [OF one i oth _ bt'] u by blast
  have "buf_ok (dsk t) n (bufs t ! j)" if "j < NBUF" for j
  proof (cases "j = i")
    case False
    then have "\<not> buf_for b (bufs s ! j)" using u that by blast
    with oks that oth d False show ?thesis unfolding buf_ok_def buf_for_def by metis
  qed (simp add: ok)
  moreover have "\<exists>xs. mru t xs" using m mru_cong [OF _ lk ln] by blast
  ultimately have "cache_ok dsk n t" using one' by (simp add: cache_ok_def)
  moreover have "content dsk t b = (if b_valid (bufs t ! i) then b_data (bufs t ! i) else dsk t b)"
  proof (cases "b_valid (bufs t ! i)")
    case False
    have "\<not> b_valid (bufs t ! j)" if "j < NBUF" "buf_for b (bufs t ! j)" for j
      using that one' bt i False unfolding one_each_def by blast
    then show ?thesis using content_disk [of b t] False by auto
  qed (simp add: content_cached [OF one' i bt])
  moreover have "content dsk t c = content dsk s c" if "c \<noteq> b" for c
  proof -
    have "b_data (bufs s ! i) = dsk s c" if "buf_for c (bufs s ! i)" "b_valid (bufs s ! i)"
    proof -
      have "\<not> buf_for b (bufs s ! i)" using that \<open>c \<noteq> b\<close> by (auto simp: buf_for_def)
      with old oks i that show ?thesis by (simp add: buf_ok_def buf_for_def)
    qed
    with that show ?thesis using content_upd_other [OF one one' i oth _ bt'] d by simp
  qed
  ultimately show ?thesis by (auto simp: fun_eq_iff)
qed

lemma same_links_eqs:
  "same_but_links x y \<Longrightarrow> buf_for b y = buf_for b x" "same_but_links x y \<Longrightarrow> b_valid y = b_valid x"
  "same_but_links x y \<Longrightarrow> b_busy y = b_busy x" "same_but_links x y \<Longrightarrow> b_dirty y = b_dirty x"
  "same_but_links x y \<Longrightarrow> b_data y = b_data x" "same_but_links x y \<Longrightarrow> buf_ok d n y = buf_ok d n x"
  by (simp_all add: same_but_links_def buf_for_def flag_bits buf_ok_def)

lemma cache_cong:
  assumes co: "cache_ok dsk n s" and m: "mru t ys" and d: "dsk t = dsk s"
    and sb: "\<And>j. same_but_links (bufs s ! j) (bufs t ! j)"
  shows "cache_ok dsk n t" and "content dsk t = content dsk s" and "dirty_blocks t = dirty_blocks s"
proof -
  note e = same_links_eqs [OF sb]
  show "cache_ok dsk n t" using co m by (auto simp: cache_ok_def one_each_def d e)
  show "content dsk t = content dsk s"
    by (simp add: content_def fun_eq_iff d e cong: option.case_cong)
  show "dirty_blocks t = dirty_blocks s" by (simp add: dirty_blocks_def e)
qed

definition bread_able :: "u32 \<Rightarrow> 'z kdisk_scheme \<Rightarrow> bool" where
  "bread_able b s \<longleftrightarrow> (\<exists>i < NBUF. buf_for b (bufs s ! i) \<and> \<not> b_busy (bufs s ! i)) \<or>
     (\<forall>i < NBUF. \<not> buf_for b (bufs s ! i)) \<and> (\<exists>k < NBUF. \<not> b_busy (bufs s ! k) \<and> \<not> b_dirty (bufs s ! k))"

text \<open>
  The state after a buffer for block \<open>b\<close> was locked: what stayed as it was.
\<close>

definition locked_for :: "('z kdisk_scheme \<Rightarrow> u32 \<Rightarrow> u8 list) \<Rightarrow> u32 \<Rightarrow> u32 \<Rightarrow> nat \<Rightarrow> 'z kdisk_scheme \<Rightarrow> 'z kdisk_scheme \<Rightarrow> bool" where
  "locked_for dsk n b i s t \<longleftrightarrow> i < NBUF \<and> \<not> b_busy (bufs s ! i) \<and> buf_for b (bufs t ! i) \<and> b_busy (bufs t ! i) \<and>
     (\<forall>j. j \<noteq> i \<longrightarrow> bufs t ! j = bufs s ! j) \<and> length (bufs t) = length (bufs s) \<and> bnx t = bnx s \<and> bpv t = bpv s \<and>
     cache_ok dsk n t \<and> content dsk t = content dsk s \<and> dsk t = dsk s \<and> dwrites t = dwrites s \<and>
     dirty_blocks t = dirty_blocks s \<and> same_rest s t"

lemma links_upd_buf:
  "(\<And>x. b_next (f x) = b_next x) \<Longrightarrow> bnx (upd_buf i f s) = bnx s"
  "(\<And>x. b_prev (f x) = b_prev x) \<Longrightarrow> bpv (upd_buf i f s) = bpv s"
  by (cases "i < length (bufs s)";
      auto simp: bnx_def bpv_def upd_buf_def nth_list_update list_update_beyond fun_eq_iff)+

lemma upd_buf_held: "upd_buf i f (s\<lparr>held := h\<rparr>) = (upd_buf i f s)\<lparr>held := h\<rparr>"
  by (simp add: upd_buf_def)

lemma brelse_move_held: "brelse_move i (s\<lparr>held := h\<rparr>) = (brelse_move i s)\<lparr>held := h\<rparr>"
  by (simp add: brelse_move_def upd_buf_held Let_def)

lemma brelse_eq:
  assumes "held s = {}" and "others s = {}" and "b_busy (bufs s ! i)"
  shows "brelse i s = Ret () (wakeup1 (Some (BufChan i))
    (upd_buf i (\<lambda>b. b\<lparr>b_flags := b_flags b AND NOT B_BUSY\<rparr>) (brelse_move i s)))"
proof -
  define t0 where "t0 = upd_buf i (\<lambda>b. b\<lparr>b_flags := b_flags b AND NOT B_BUSY\<rparr>) (brelse_move i s)"
  define t where "t = wakeup1 (Some (BufChan i)) t0"
  have "wakeup (Some (BufChan i)) (t0\<lparr>held := {BcacheLock}\<rparr>) = Ret () (t\<lparr>held := {BcacheLock}\<rparr>)"
    using assms by (subst wakeup_free) (simp_all add: lock_free_def t0_def brelse_move_frame t_def wakeup1_def)
  moreover have "t\<lparr>held := {}\<rparr> = t"
    using assms by (intro held_idem) (simp add: t_def t0_def brelse_move_frame wakeup1_def)
  ultimately show ?thesis
    using assms by (simp add: brelse_def acquire_def prog_simps brelse_move_held upd_buf_held t0_def [symmetric] t_def)
qed

lemma dirty_blocks_step:
  assumes "i < NBUF" and "\<forall>j. j \<noteq> i \<longrightarrow> bufs t ! j = bufs s ! j"
    and "b_dirty (bufs t ! i) = b_dirty (bufs s ! i)" "b_dirty (bufs t ! i) \<Longrightarrow> buf_for c (bufs t ! i) \<and> buf_for c (bufs s ! i)"
  shows "dirty_blocks t = dirty_blocks s"
proof -
  have "buf_for b (bufs t ! j) \<and> b_dirty (bufs t ! j) \<longleftrightarrow> buf_for b (bufs s ! j) \<and> b_dirty (bufs s ! j)" for j b
    using assms by (cases "j = i") (auto simp: buf_for_def)
  then show ?thesis by (simp add: dirty_blocks_def)
qed

context disk_driver
begin

lemma dsk_upd_buf [simp]: "dsk (upd_buf i f s) = dsk s"
  by (rule dsk_cong) simp_all

lemma dev_ok_upd_buf [simp]: "dev_ok (upd_buf i f s) = dev_ok s"
  by (rule dev_cong) simp_all

lemma bget_ok:
  assumes q: "quiet s" and co: "cache_ok dsk nblk s" and b: "b < nblk" and ab: "bread_able b s"
  obtains i t where "bget 1 b s = Ret i t" "locked_for dsk nblk b i s t" "quiet t" "dev_ok t = dev_ok s"
proof -
  obtain xs where m: "mru s xs" and one: "one_each (bufs s)" and oks: "\<forall>i < NBUF. buf_ok (dsk s) nblk (bufs s ! i)"
    using co by (auto simp: cache_ok_def)
  have h: "held s = {}" "others s = {}" using q by (simp_all add: quiet_def)
  from ab consider
      (hit) i where "i < NBUF" "buf_for b (bufs s ! i)" "\<not> b_busy (bufs s ! i)"
    | (miss) k where "\<forall>i < NBUF. \<not> buf_for b (bufs s ! i)" "k < NBUF" "\<not> b_busy (bufs s ! k)" "\<not> b_dirty (bufs s ! k)"
    unfolding bread_able_def by blast
  then show ?thesis
  proof cases
    case hit
    let ?t = "upd_buf i (\<lambda>x. x\<lparr>b_flags := b_flags x OR B_BUSY\<rparr>) s"
    have il: "i < length (bufs s)" using hit mru_length [OF m] by simp
    have bf: "buf_for b (bufs ?t ! i)" using hit il by (simp add: buf_for_def)
    have uq: "\<forall>j < NBUF. buf_for b (bufs s ! j) \<longrightarrow> j = i" using one hit unfolding one_each_def by blast
    have "content dsk s b = dsk s b" if "\<not> b_valid (bufs s ! i)"
      by (rule content_disk) (use uq that in blast)
    then have dt: "(if b_valid (bufs ?t ! i) then b_data (bufs ?t ! i) else dsk s b) = content dsk s b"
      using content_cached [OF one hit(1,2)] il by simp
    have ok: "buf_ok (dsk ?t) nblk (bufs ?t ! i)"
      using oks [rule_format, OF hit(1)] hit il by (simp add: buf_ok_def buf_for_def)
    have "cache_ok dsk nblk ?t \<and> content dsk ?t = content dsk s"
      using cache_step [OF co hit(1) _ _ _ _ _ bf ok uq] dt hit by (simp add: links_upd_buf fun_upd_idem split: if_splits)
    moreover have "dirty_blocks ?t = dirty_blocks s"
      using hit il bf by (intro dirty_blocks_step [OF hit(1), where c = b]) simp_all
    ultimately have "locked_for dsk nblk b i s ?t"
      using hit il bf by (simp add: locked_for_def links_upd_buf)
    then show ?thesis using that bget_hit [OF m one h hit] q by simp
  next
    case miss
    obtain j where j: "j < NBUF" "\<not> b_busy (bufs s ! j)" "\<not> b_dirty (bufs s ! j)"
        "bget 1 b s = Ret j (upd_buf j (\<lambda>x. x\<lparr>b_dev := 1, b_blockno := b, b_flags := B_BUSY\<rparr>) s)"
      using bget_miss [OF m h _ miss(2-)] miss(1) by blast
    let ?t = "upd_buf j (\<lambda>x. x\<lparr>b_dev := 1, b_blockno := b, b_flags := B_BUSY\<rparr>) s"
    have jl: "j < length (bufs s)" using j mru_length [OF m] by simp
    have bf: "buf_for b (bufs ?t ! j)" using jl by (simp add: buf_for_def)
    have dt: "(if b_valid (bufs ?t ! j) then b_data (bufs ?t ! j) else dsk s b) = content dsk s b"
      using miss(1) content_disk [of b s dsk] jl by simp
    have uq: "\<forall>k < NBUF. buf_for b (bufs s ! k) \<longrightarrow> k = j" using miss(1) by blast
    have ok: "buf_ok (dsk ?t) nblk (bufs ?t ! j)"
      using oks [rule_format, OF j(1)] jl b by (simp add: buf_ok_def)
    have "cache_ok dsk nblk ?t \<and> content dsk ?t = content dsk s"
      using cache_step [OF co j(1) _ _ _ _ _ bf ok uq] dt j by (simp add: links_upd_buf fun_upd_idem split: if_splits)
    moreover have "dirty_blocks ?t = dirty_blocks s"
      using j jl by (intro dirty_blocks_step [OF j(1)]) simp_all
    ultimately have "locked_for dsk nblk b j s ?t"
      using j jl bf by (simp add: locked_for_def links_upd_buf)
    then show ?thesis using that j(4) q by simp
  qed
qed

text \<open>\<open>bread\<close> returns a locked buffer with the block's current contents.\<close>

lemma sync_step:
  assumes co: "cache_ok dsk nblk s" and i: "i < NBUF" and bf: "buf_for b (bufs s ! i)" and bu: "b_busy (bufs s ! i)"
    and dv: "dev_ok s" and p: "rw_post dsk i s t"
  shows "cache_ok dsk nblk t"
    and "content dsk t = (content dsk s)(b := if b_dirty (bufs s ! i) then b_data (bufs s ! i) else dsk s b)"
    and "bnx t = bnx s" and "bpv t = bpv s"
proof -
  define d where "d = (if b_dirty (bufs s ! i) then b_data (bufs s ! i) else dsk s b)"
  have q: "length (bufs t) = length (bufs s)" "\<forall>j. j \<noteq> i \<longrightarrow> bufs t ! j = bufs s ! j"
    "sync_buf d (bufs s ! i) (bufs t ! i)" "dsk t = (dsk s)(b := d)"
    using p bf by (auto simp: rw_post_def buf_for_def d_def Let_def)
  have one: "one_each (bufs s)" and oki: "buf_ok (dsk s) nblk (bufs s ! i)" using co i by (simp_all add: cache_ok_def)
  have uq: "\<forall>j < NBUF. buf_for b (bufs s ! j) \<longrightarrow> j = i" using one i bf unfolding one_each_def by blast
  show l: "bnx t = bnx s" "bpv t = bpv s"
    using q(2,3) unfolding bnx_def bpv_def sync_buf_def fun_eq_iff by metis+
  have bt: "buf_for b (bufs t ! i)" "b_valid (bufs t ! i)" "b_data (bufs t ! i) = d"
    using q(3) bf by (simp_all add: sync_buf_def buf_for_def)
  have "b < nblk" using oki bf by (simp add: buf_ok_def buf_for_def)
  have "length d = BSIZE" using oki dsk_len [OF dv \<open>b < nblk\<close>] by (simp add: d_def buf_ok_def)
  then have "buf_ok (dsk t) nblk (bufs t ! i)"
    using q(3,4) bu oki bf \<open>b < nblk\<close> by (simp add: sync_buf_def buf_ok_def buf_for_def)
  from cache_step [OF co i q(2,1) l _ bt(1) this uq] q(4) bf bt(2,3)
  show "cache_ok dsk nblk t" "content dsk t = (content dsk s)(b := if b_dirty (bufs s ! i) then b_data (bufs s ! i) else dsk s b)"
    by (simp_all add: d_def [symmetric])
qed

lemma bread_ok:
  assumes q: "quiet s" and dv: "dev_ok s" and co: "cache_ok dsk nblk s" and b: "b < nblk" and ab: "bread_able b s"
  obtains i t where "bread rw 1 b s = Ret i t" "locked_for dsk nblk b i s t" "quiet t" "dev_ok t"
    "b_valid (bufs t ! i)" "b_data (bufs t ! i) = content dsk s b"
proof -
  obtain i t where g: "bget 1 b s = Ret i t" and l: "locked_for dsk nblk b i s t" and qt: "quiet t" and dt: "dev_ok t"
    using bget_ok [OF q co b ab] dv by metis
  have it: "i < NBUF" "buf_for b (bufs t ! i)" "b_busy (bufs t ! i)" "cache_ok dsk nblk t" "content dsk t = content dsk s"
    and lt: "length (bufs t) = Suc NBUF"
    using l co by (auto simp: locked_for_def cache_ok_def mru_def)
  show ?thesis
  proof (cases "b_valid (bufs t ! i)")
    case True
    moreover have "b_data (bufs t ! i) = content dsk t b"
      using True it content_cached [of t i b dsk] by (simp add: cache_ok_def)
    ultimately show ?thesis using that g l qt dt it by (simp add: bread_def prog_simps)
  next
    case False
    have oki: "buf_ok (dsk t) nblk (bufs t ! i)" using it by (simp add: cache_ok_def)
    with False have nd: "\<not> b_dirty (bufs t ! i)" by (simp add: buf_ok_def)
    obtain u where u: "rw i t = Ret () u" "quiet u" "dev_ok u" "rw_post dsk i t u"
      using rw_ok [OF qt dt, of i] it lt oki False b by (auto simp: buf_ok_def b_synced_iff buf_for_def)
    note st = sync_step [OF it(4,1,2,3) dt u(4)]
    have "\<not> b_valid (bufs t ! j)" if "j < NBUF" "buf_for b (bufs t ! j)" for j
      using that False it unfolding cache_ok_def one_each_def by blast
    then have c: "content dsk t b = dsk t b" by (rule content_disk)
    have p: "length (bufs u) = length (bufs t)" "\<forall>j. j \<noteq> i \<longrightarrow> bufs u ! j = bufs t ! j"
      "sync_buf (dsk t b) (bufs t ! i) (bufs u ! i)" "dsk u = dsk t" "dwrites u = dwrites t" "same_rest t u"
      using u(4) nd it(2) by (auto simp: rw_post_def buf_for_def Let_def)
    have bu: "buf_for b (bufs u ! i)" "b_busy (bufs u ! i)" "b_valid (bufs u ! i)" "b_data (bufs u ! i) = content dsk s b"
      "\<not> b_dirty (bufs u ! i)"
      using p(3) it c by (simp_all add: sync_buf_def buf_for_def)
    have "dirty_blocks u = dirty_blocks t"
      using nd bu(5) p(2) by (intro dirty_blocks_step [OF it(1)]) simp_all
    moreover have "content dsk u = content dsk t" using st(2) nd c by (simp add: fun_upd_idem)
    ultimately have "locked_for dsk nblk b i s u"
      using l p bu st(1,3,4) by (auto simp: locked_for_def same_rest_def)
    then show ?thesis using that u bu g False by (simp add: bread_def prog_simps)
  qed
qed

lemma bwrite_ok:
  assumes q: "quiet s" and dv: "dev_ok s" and co: "cache_ok dsk nblk s" and i: "i < NBUF"
    and bf: "buf_for b (bufs s ! i)" and bu: "b_busy (bufs s ! i)" and va: "b_valid (bufs s ! i)"
  obtains t where "bwrite rw i s = Ret () t" "quiet t" "dev_ok t" "cache_ok dsk nblk t" "content dsk t = content dsk s"
    "dsk t = (dsk s)(b := content dsk s b)" "dwrites t = dwrites s @ [(1, b, content dsk s b)]"
    "length (bufs t) = length (bufs s)" "\<forall>j. j \<noteq> i \<longrightarrow> bufs t ! j = bufs s ! j"
    "sync_buf (content dsk s b) (bufs s ! i) (bufs t ! i)" "bnx t = bnx s" "bpv t = bpv s" "same_rest s t"
proof -
  let ?s = "upd_buf i (\<lambda>b. b\<lparr>b_flags := b_flags b OR B_DIRTY\<rparr>) s"
  have oki: "buf_ok (dsk s) nblk (bufs s ! i)" and one: "one_each (bufs s)" and il: "i < length (bufs s)"
    using co i by (auto simp: cache_ok_def mru_def)
  have c: "content dsk s b = b_data (bufs s ! i)" using content_cached [OF one i bf va] .
  have uq: "\<forall>j < NBUF. buf_for b (bufs s ! j) \<longrightarrow> j = i" using one i bf unfolding one_each_def by blast
  have bs: "buf_for b (bufs ?s ! i)" "b_busy (bufs ?s ! i)" "b_dirty (bufs ?s ! i)" "b_data (bufs ?s ! i) = content dsk s b"
    using bf bu il c by (simp_all add: buf_for_def)
  have ok: "buf_ok (dsk ?s) nblk (bufs ?s ! i)" using oki il bf bu va by (simp add: buf_ok_def buf_for_def)
  have cs: "cache_ok dsk nblk ?s" "content dsk ?s = content dsk s"
    using cache_step [OF co i _ _ _ _ _ bs(1) ok uq] bf il va c by (simp_all add: links_upd_buf fun_upd_idem)
  obtain t where t: "rw i ?s = Ret () t" "quiet t" "dev_ok t" "rw_post dsk i ?s t"
    using rw_ok [of ?s i] q dv il bs(1,2,3) ok by (auto simp: buf_ok_def b_synced_iff buf_for_def)
  note st = sync_step [OF cs(1) i bs(1,2) _ t(4)]
  have p: "length (bufs t) = length (bufs s)" "\<forall>j. j \<noteq> i \<longrightarrow> bufs t ! j = bufs s ! j"
    "sync_buf (content dsk s b) (bufs s ! i) (bufs t ! i)" "dsk t = (dsk s)(b := content dsk s b)"
    "dwrites t = dwrites s @ [(1, b, content dsk s b)]" "same_rest s t"
    using t(4) bs bf il by (auto simp: rw_post_def buf_for_def Let_def sync_buf_def same_rest_def)
  show ?thesis
    using that [of t] t p st dv bs cs(2) il bu by (simp add: bwrite_def prog_simps links_upd_buf)
qed

text \<open>\<open>brelse\<close> unlocks the buffer and makes it the most recently used one.\<close>

lemma brelse_ok:
  assumes q: "quiet s" and co: "cache_ok dsk nblk s" and i: "i < NBUF"
    and bf: "buf_for b (bufs s ! i)" and bu: "b_busy (bufs s ! i)"
    and sy: "b_valid (bufs s ! i) \<Longrightarrow> b_dirty (bufs s ! i) \<or> b_data (bufs s ! i) = dsk s b"
  obtains t where "brelse i s = Ret () t" "quiet t" "dev_ok t = dev_ok s" "cache_ok dsk nblk t" "content dsk t = content dsk s"
    "dsk t = dsk s" "dwrites t = dwrites s" "length (bufs t) = length (bufs s)" "same_rest s t" "dirty_blocks t = dirty_blocks s"
    "\<And>xs. mru s xs \<Longrightarrow> mru t (i # remove1 i xs)"
    "\<And>j. j \<noteq> i \<Longrightarrow> same_but_links (bufs s ! j) (bufs t ! j)"
    "same_but_links ((bufs s ! i)\<lparr>b_flags := b_flags (bufs s ! i) AND NOT B_BUSY\<rparr>) (bufs t ! i)"
proof -
  let ?f = "\<lambda>b. b\<lparr>b_flags := b_flags b AND NOT B_BUSY\<rparr>"
  define s1 where "s1 = upd_buf i ?f s"
  define t0 where "t0 = upd_buf i ?f (brelse_move i s)"
  define t where "t = wakeup1 (Some (BufChan i)) t0"
  have oki: "buf_ok (dsk s) nblk (bufs s ! i)" and one: "one_each (bufs s)" and il: "i < length (bufs s)"
    using co i by (auto simp: cache_ok_def mru_def)
  have uq: "\<forall>j < NBUF. buf_for b (bufs s ! j) \<longrightarrow> j = i" using one i bf unfolding one_each_def by blast
  have b1: "buf_for b (bufs s1 ! i)" using bf il by (simp add: s1_def buf_for_def)
  have ok1: "buf_ok (dsk s1) nblk (bufs s1 ! i)"
    using oki il bf bu sy by (auto simp: buf_ok_def buf_for_def s1_def)
  have "content dsk s b = dsk s b" if "\<not> b_valid (bufs s ! i)"
    by (rule content_disk) (use uq that in blast)
  then have c1: "cache_ok dsk nblk s1" "content dsk s1 = content dsk s"
    using cache_step [OF co i _ _ _ _ _ b1 ok1 uq] bf il content_cached [OF one i bf]
    by (simp_all add: s1_def links_upd_buf fun_upd_idem)
  have d1: "dirty_blocks s1 = dirty_blocks s"
    using b1 il bf by (intro dirty_blocks_step [OF i, where c = b]) (simp_all add: s1_def)
  have ds: "dsk t = dsk s" by (rule dsk_cong) (simp_all add: t_def t0_def wakeup1_def brelse_move_frame)
  have bt: "bufs t = bufs t0" "dsk t = dsk s1"
    by (simp_all add: ds s1_def) (simp add: t_def wakeup1_def)
  have sb: "same_but_links (bufs s1 ! j) (bufs t ! j)" for j
    using brelse_move_data [of s j i] il
    by (cases "j = i") (simp_all add: bt t0_def s1_def brelse_move_frame same_but_links_def)
  have "bnx t = bnx t0" "bpv t = bpv t0" using bt(1) by (simp_all add: bnx_def bpv_def fun_eq_iff)
  then have mv: "mru t (i # remove1 i xs)" if "mru s xs" for xs
    using mru_cong [OF mru_upd [OF mru_move [OF that i], of ?f i], of t] bt(1) by (simp add: t0_def)
  obtain xs where "mru s xs" using co by (auto simp: cache_ok_def)
  note cc = cache_cong [OF c1(1) mv [OF this] bt(2) sb]
  have "brelse i s = Ret () t"
    using q bu brelse_eq [of s i] by (simp add: quiet_def t_def t0_def)
  moreover have "quiet t" "same_rest s t"
    using q by (auto simp: quiet_def same_rest_def t_def t0_def brelse_move_frame wakeup1_def comp_def wake_one_def)
  moreover have "dev_ok t = dev_ok s" by (rule dev_cong) (simp_all add: t_def t0_def wakeup1_def brelse_move_frame)
  moreover have "dwrites t = dwrites s" "length (bufs t) = length (bufs s)"
    by (simp_all add: t_def t0_def brelse_move_frame wakeup1_def)
  moreover have "same_but_links (bufs s ! j) (bufs t ! j)" if "j \<noteq> i" for j
    using sb [of j] that by (simp add: s1_def)
  moreover have "same_but_links (?f (bufs s ! i)) (bufs t ! i)" using sb [of i] il by (simp add: s1_def)
  ultimately show ?thesis
    by (intro that [of t]) (simp_all only: cc c1(2) d1 ds mv)
qed

text \<open>The holder of a locked buffer overwrites its data.\<close>

lemma put_data_ok:
  assumes co: "cache_ok dsk nblk s" and i: "i < NBUF" and bf: "buf_for b (bufs s ! i)" and bu: "b_busy (bufs s ! i)"
    and va: "b_valid (bufs s ! i)" and d: "length d = BSIZE"
  shows "cache_ok dsk nblk (upd_buf i (\<lambda>x. x\<lparr>b_data := d\<rparr>) s)"
    and "content dsk (upd_buf i (\<lambda>x. x\<lparr>b_data := d\<rparr>) s) = (content dsk s)(b := d)"
proof -
  let ?s = "upd_buf i (\<lambda>x. x\<lparr>b_data := d\<rparr>) s"
  have oki: "buf_ok (dsk s) nblk (bufs s ! i)" and one: "one_each (bufs s)" and il: "i < length (bufs s)"
    using co i by (auto simp: cache_ok_def mru_def)
  have uq: "\<forall>j < NBUF. buf_for b (bufs s ! j) \<longrightarrow> j = i" using one i bf unfolding one_each_def by blast
  have bs: "buf_for b (bufs ?s ! i)" using bf il by (simp add: buf_for_def)
  have ok: "buf_ok (dsk ?s) nblk (bufs ?s ! i)" using oki il bu d by (simp add: buf_ok_def)
  show "cache_ok dsk nblk ?s" "content dsk ?s = (content dsk s)(b := d)"
    using cache_step [OF co i _ _ _ _ _ bs ok uq] bf il va by (simp_all add: links_upd_buf)
qed

text \<open>Read a block, replace its data, write it through, release it, and read it again.\<close>

lemma update_block:
  assumes q: "quiet s" and dv: "dev_ok s" and co: "cache_ok dsk nblk s" and b: "b < nblk" and ab: "bread_able b s"
    and d: "length d = BSIZE"
  obtains t where
    "kbind (bread rw 1 b) (\<lambda>i. kseq [kmod (upd_buf i (\<lambda>x. x\<lparr>b_data := d\<rparr>)), bwrite rw i, brelse i]) s = Ret () t"
    "quiet t" "dev_ok t" "cache_ok dsk nblk t" "content dsk t = (content dsk s)(b := d)"
    "dsk t = (dsk s)(b := d)" "dwrites t = dwrites s @ [(1, b, d)]" "bread_able b t" "same_rest s t"
proof -
  obtain i t1 where r: "bread rw 1 b s = Ret i t1" and l: "locked_for dsk nblk b i s t1" and q1: "quiet t1" "dev_ok t1"
      and v: "b_valid (bufs t1 ! i)"
    using bread_ok [OF q dv co b ab] by metis
  let ?t2 = "upd_buf i (\<lambda>x. x\<lparr>b_data := d\<rparr>) t1"
  have t1: "i < NBUF" "buf_for b (bufs t1 ! i)" "b_busy (bufs t1 ! i)" "cache_ok dsk nblk t1" "i < length (bufs t1)"
    using l by (auto simp: locked_for_def cache_ok_def mru_def)
  note p = put_data_ok [OF t1(4,1,2,3) v d]
  obtain t3 where w: "bwrite rw i ?t2 = Ret () t3" "quiet t3" "dev_ok t3" "cache_ok dsk nblk t3" "content dsk t3 = content dsk ?t2"
      "dsk t3 = (dsk ?t2)(b := content dsk ?t2 b)" "dwrites t3 = dwrites ?t2 @ [(1, b, content dsk ?t2 b)]"
      "sync_buf (content dsk ?t2 b) (bufs ?t2 ! i) (bufs t3 ! i)" "same_rest ?t2 t3"
    using bwrite_ok [of ?t2 i b] q1 p(1) t1 v by (simp add: buf_for_def) metis
  have t3: "buf_for b (bufs t3 ! i)" "b_busy (bufs t3 ! i)" "b_data (bufs t3 ! i) = dsk t3 b"
    using w(6,8) t1 by (simp_all add: sync_buf_def buf_for_def)
  obtain t where e: "brelse i t3 = Ret () t" "quiet t" "dev_ok t = dev_ok t3" "cache_ok dsk nblk t" "content dsk t = content dsk t3"
      "dsk t = dsk t3" "dwrites t = dwrites t3" "same_rest t3 t"
      "same_but_links ((bufs t3 ! i)\<lparr>b_flags := b_flags (bufs t3 ! i) AND NOT B_BUSY\<rparr>) (bufs t ! i)"
    using brelse_ok [OF w(2,4) t1(1) t3(1,2)] t3(3) by metis
  have "buf_for b (bufs t ! i)" "\<not> b_busy (bufs t ! i)"
    using same_links_eqs(1,3) [OF e(9)] t3(1) by (simp_all add: buf_for_def)
  then have "bread_able b t" using t1(1) unfolding bread_able_def by blast
  moreover have "same_rest s t" using l w(9) e(8) by (auto simp: locked_for_def same_rest_def)
  ultimately show ?thesis
    using l by (intro that [of t])
      (simp_all add: r w e p prog_simps locked_for_def)
qed

end

section \<open>The state after boot\<close>

lemma binit_one_frame:
  "kdisk.more (binit_one b s) = kdisk.more s" "length (bufs (binit_one b s)) = length (bufs s)"
  "held (binit_one b s) = held s" "others (binit_one b s) = others s" "cur (binit_one b s) = cur s"
  "procs (binit_one b s) = procs s" "mem (binit_one b s) = mem s" "memdisk (binit_one b s) = memdisk s"
  "disksize (binit_one b s) = disksize s" "disk (binit_one b s) = disk s" "dwrites (binit_one b s) = dwrites s"
  "idequeue (binit_one b s) = idequeue s" "idedev (binit_one b s) = idedev s" "havedisk1 (binit_one b s) = havedisk1 s"
  by (simp_all add: binit_one_def Let_def)

lemma upd_buf_field: "(\<And>x. g (f x) = g x) \<Longrightarrow> g (bufs (upd_buf i f t) ! k) = g (bufs t ! k)"
  by (cases "i < length (bufs t)"; cases "i = k"; simp add: upd_buf_def list_update_beyond)

lemma binit_one_data:
  "b_flags (bufs (binit_one b s) ! j) = b_flags (bufs s ! j)" "b_data (bufs (binit_one b s) ! j) = b_data (bufs s ! j)"
  "b < length (bufs s) \<Longrightarrow> b_dev (bufs (binit_one b s) ! b) = 0xFFFFFFFF"
  "j \<noteq> b \<Longrightarrow> b_dev (bufs (binit_one b s) ! j) = b_dev (bufs s ! j)"
  by (simp_all add: binit_one_def Let_def upd_buf_field [where g = b_flags] upd_buf_field [where g = b_data]
      upd_buf_field [where g = b_dev and f = "\<lambda>x. x\<lparr>b_prev := v\<rparr>" for v]
      upd_buf_field [where g = b_dev and f = "\<lambda>x. x\<lparr>b_next := v\<rparr>" for v])

definition same_machine :: "'z kdisk_scheme \<Rightarrow> 'z kdisk_scheme \<Rightarrow> bool" where
  "same_machine s t \<longleftrightarrow> kdisk.more t = kdisk.more s \<and> held t = held s \<and> others t = others s \<and> cur t = cur s \<and>
     procs t = procs s \<and> mem t = mem s \<and> memdisk t = memdisk s \<and> disksize t = disksize s \<and> disk t = disk s \<and>
     dwrites t = dwrites s \<and> idequeue t = idequeue s \<and> idedev t = idedev s \<and> havedisk1 t = havedisk1 s"

lemma kfor_Ret: "f x s = Ret () s' \<Longrightarrow> kfor (x # xs) f s = kfor xs f s'"
  by simp

lemma binit_loop_data:
  assumes "kfor is (\<lambda>b. kmod (binit_one b)) s = Ret () t" and "\<forall>i \<in> set is. i < length (bufs s)"
  shows "same_machine s t \<and> length (bufs t) = length (bufs s) \<and>
    (\<forall>j. b_flags (bufs t ! j) = b_flags (bufs s ! j) \<and> b_data (bufs t ! j) = b_data (bufs s ! j) \<and>
       b_dev (bufs t ! j) = (if j \<in> set is then 0xFFFFFFFF else b_dev (bufs s ! j)))"
  using assms
proof (induction "is" arbitrary: s)
  case (Cons i "is")
  have "kfor is (\<lambda>b. kmod (binit_one b)) (binit_one i s) = Ret () t"
    using Cons.prems(1) kfor_Ret [of "\<lambda>b. kmod (binit_one b)" i s "binit_one i s" "is"] kmod_apply by metis
  from Cons.IH [OF this] Cons.prems(2) show ?case
    by (auto simp: binit_one_frame binit_one_data same_machine_def)
qed (simp add: same_machine_def)

lemma binit_ok:
  assumes "length (bufs s) = Suc NBUF" and "\<forall>i < NBUF. b_flags (bufs s ! i) = 0 \<and> length (b_data (bufs s ! i)) = BSIZE"
    and "dsk t = dsk s" and t: "binit s = Ret () t"
  shows "mru t (rev [0..<NBUF])" and "cache_ok dsk n t" and "same_machine s t" and "bread_able b t"
    and "\<And>j. j < NBUF \<Longrightarrow> b_flags (bufs t ! j) = 0 \<and> b_dev (bufs t ! j) = 0xFFFFFFFF"
proof -
  show m: "mru t (rev [0..<NBUF])" using binit_mru [OF assms(1)] t by auto
  define s1 where "s1 = upd_buf HEAD (\<lambda>x. x\<lparr>b_next := HEAD\<rparr>) (upd_buf HEAD (\<lambda>x. x\<lparr>b_prev := HEAD\<rparr>) s)"
  have "kfor [0..<NBUF] (\<lambda>b. kmod (binit_one b)) s1 = Ret () t"
    using t by (auto simp: binit_def s1_def [symmetric] kbind_eq_Ret)
  moreover have "\<forall>i \<in> set [0..<NBUF]. i < length (bufs s1)" using assms(1) by (simp add: s1_def)
  ultimately have d: "same_machine s1 t \<and> (\<forall>j. b_flags (bufs t ! j) = b_flags (bufs s1 ! j) \<and>
      b_data (bufs t ! j) = b_data (bufs s1 ! j) \<and> (j < NBUF \<longrightarrow> b_dev (bufs t ! j) = 0xFFFFFFFF))"
    using binit_loop_data [of "[0..<NBUF]" s1 t] by simp
  have "bufs s1 ! j = bufs s ! j" if "j < NBUF" for j using that by (simp add: s1_def HEAD_def)
  with d assms(2) have bf: "b_flags (bufs t ! j) = 0 \<and> length (b_data (bufs t ! j)) = BSIZE \<and> b_dev (bufs t ! j) = 0xFFFFFFFF"
    if "j < NBUF" for j using that by simp
  then have fl: "\<not> b_busy (bufs t ! j)" "\<not> b_dirty (bufs t ! j)" "\<not> b_valid (bufs t ! j)" "\<not> buf_for c (bufs t ! j)"
    if "j < NBUF" for j c using that by (simp_all add: flag_bits buf_for_def)
  show "cache_ok dsk n t"
    using m fl bf by (auto simp: cache_ok_def one_each_def buf_ok_def)
  show "bread_able b t" 
    unfolding bread_able_def using fl by (intro disjI2 conjI exI [of _ 0]) (simp_all add: NBUF_def)
  show "same_machine s t" using d by (simp add: same_machine_def s1_def)
  show "\<And>j. j < NBUF \<Longrightarrow> b_flags (bufs t ! j) = 0 \<and> b_dev (bufs t ! j) = 0xFFFFFFFF" using bf by blast
qed

lemma kbind_then: "kbind m f s = Ret x t \<Longrightarrow> g t = r \<Longrightarrow> kbind m (\<lambda>i. kbind (f i) (\<lambda>_. g)) s = r"
  by (cases "m s") (simp_all add: kbind_apply)

section \<open>Properties\<close>

text \<open>C29. The buffer list is kept in order of use: \<open>brelse\<close> takes its buffer out of the doubly linked list and puts
  it at the front, whatever its place was, and the list stays a proper ring through all
  \<open>NBUF\<close> buffers in both directions.\<close>

theorem brelse_most_recent:
  assumes "mru s xs" and "i < NBUF" and "b_busy (bufs s ! i)" and "held s = {}" and "others s = {}"
  shows "\<exists>t. brelse i s = Ret () t \<and> mru t (i # remove1 i xs) \<and> \<not> b_busy (bufs t ! i) \<and> held t = {} \<and>
     (\<forall>j. j \<noteq> i \<longrightarrow> b_flags (bufs t ! j) = b_flags (bufs s ! j)) \<and> (\<forall>j. b_data (bufs t ! j) = b_data (bufs s ! j))"
proof -
  let ?f = "\<lambda>b. b\<lparr>b_flags := b_flags b AND NOT B_BUSY\<rparr>"
  let ?u = "upd_buf i ?f (brelse_move i s)" and ?t = "wakeup1 (Some (BufChan i)) (upd_buf i ?f (brelse_move i s))"
  have il: "i < length (bufs s)" using mru_length [OF assms(1)] assms(2) by simp
  have m: "mru ?u (i # remove1 i xs)" using mru_upd [OF mru_move [OF assms(1,2)], of ?f i] by simp
  have b: "bufs ?t = bufs ?u" by (simp add: wakeup1_def)
  then have l: "bnx ?t = bnx ?u" "bpv ?t = bpv ?u" by (simp_all add: bnx_def bpv_def fun_eq_iff)
  have "mru ?t (i # remove1 i xs)" by (rule mru_cong [OF m l]) (simp only: b)
  moreover have "\<not> b_busy (bufs ?t ! i)" unfolding b using il by (simp add: brelse_move_frame)
  moreover have "b_flags (bufs ?t ! j) = b_flags (bufs s ! j)" if "j \<noteq> i" for j
    unfolding b using that brelse_move_data [of s j i] by (simp add: same_but_links_def)
  moreover have "b_data (bufs ?t ! j) = b_data (bufs s ! j)" for j
    unfolding b using brelse_move_data [of s j i] by (simp add: same_but_links_def upd_buf_field [where g = b_data])
  moreover have "held ?t = {}" using assms(4) by (simp add: brelse_move_frame wakeup1_def)
  ultimately show ?thesis using brelse_eq [OF assms(4,5,3)] by blast
qed

text \<open>C34. Recycling: for a block that no buffer caches, \<open>bget\<close> takes the least recently used buffer that
  is neither busy nor dirty and turns it into a busy, not yet valid buffer for the block;
  it panics when there is no such buffer.\<close>

theorem bget_recycles:
  assumes "mru s xs" and "held s = {}" and "others s = {}"
    and "\<forall>i < NBUF. \<not> (b_dev (bufs s ! i) = dev \<and> b_blockno (bufs s ! i) = b)"
  shows "bget dev b s =
    (case find (\<lambda>j. \<not> b_busy (bufs s ! j) \<and> \<not> b_dirty (bufs s ! j)) (rev xs) of
       None \<Rightarrow> Panic ''bget: no buffers''
     | Some j \<Rightarrow> Ret j (upd_buf j (\<lambda>x. x\<lparr>b_dev := dev, b_blockno := b, b_flags := B_BUSY\<rparr>) s))"
proof -
  have "find (\<lambda>i. b_dev (bufs s ! i) = dev \<and> b_blockno (bufs s ! i) = b) xs = None"
    using assms(4) mru_mem [OF assms(1)] by (auto simp: find_None_iff)
  moreover have "j < length (bufs s)" if "find (\<lambda>j. \<not> b_busy (bufs s ! j) \<and> \<not> b_dirty (bufs s ! j)) (rev xs) = Some j" for j
    using find_iff [OF that] mru_mem [OF assms(1)] mru_length [OF assms(1)] by simp
  ultimately show ?thesis
    using assms(2,3)
    by (simp add: bget_def bget_loop_def mru_scan [OF assms(1)] acquire_def upd_buf_def prog_simps bufs_held_restore
        del: scan_next.simps scan_prev.simps split: option.split)
qed

text \<open>C22. Reading through the cache: \<open>bread\<close> over the IDE driver returns a buffer locked for the
  caller, valid, with the current contents of the block (the cached copy if there is one, the
  disk's otherwise). No other buffer changes, no block's contents change, nothing is written
  to the disk, and the cache invariant holds again.\<close>

theorem bread_current:
  assumes "quiet s" and "ide_dev_ok s" and "cache_ok ide_dsk FSSIZE s" and "b < FSSIZE" and "bread_able b s"
  shows "\<exists>i t. bread iderw 1 b s = Ret i t \<and> i < NBUF \<and> b_busy (bufs t ! i) \<and> b_valid (bufs t ! i) \<and>
     b_dev (bufs t ! i) = 1 \<and> b_blockno (bufs t ! i) = b \<and> b_data (bufs t ! i) = content ide_dsk s b \<and>
     content ide_dsk t = content ide_dsk s \<and> disk t 1 = disk s 1 \<and> dwrites t = dwrites s \<and>
     (\<forall>j. j \<noteq> i \<longrightarrow> bufs t ! j = bufs s ! j) \<and> cache_ok ide_dsk FSSIZE t \<and> quiet t \<and> ide_dev_ok t"
proof -
  obtain i t where "bread iderw 1 b s = Ret i t" "locked_for ide_dsk FSSIZE b i s t" "quiet t" "ide_dev_ok t"
    "b_valid (bufs t ! i)" "b_data (bufs t ! i) = content ide_dsk s b"
    by (rule id.bread_ok [OF assms])
  then show ?thesis
    by (intro exI [of _ i] exI [of _ t]) (auto simp: locked_for_def buf_for_def ide_dsk_def)
qed

text \<open>C10. Round trip: reading a block, replacing its data, writing it through and releasing it makes the
  next \<open>bread\<close> of the block return the new data; the disk holds it too, after exactly one
  disk write, and no other block changed.\<close>

theorem bwrite_bread:
  assumes "quiet s" and "ide_dev_ok s" and "cache_ok ide_dsk FSSIZE s" and "b < FSSIZE" and "bread_able b s"
    and "length d = BSIZE"
  shows "\<exists>i t. kbind (bread iderw 1 b) (\<lambda>i.
             kbind (kseq [kmod (upd_buf i (\<lambda>x. x\<lparr>b_data := d\<rparr>)), bwrite iderw i, brelse i]) (\<lambda>_.
             bread iderw 1 b)) s = Ret i t \<and>
     b_data (bufs t ! i) = d \<and> disk t 1 = (disk s 1)(b := d) \<and> dwrites t = dwrites s @ [(1, b, d)] \<and>
     content ide_dsk t = (content ide_dsk s)(b := d)"
proof -
  obtain t where t: "kbind (bread iderw 1 b) (\<lambda>i. kseq [kmod (upd_buf i (\<lambda>x. x\<lparr>b_data := d\<rparr>)), bwrite iderw i, brelse i]) s = Ret () t"
    "quiet t" "ide_dev_ok t" "cache_ok ide_dsk FSSIZE t" "content ide_dsk t = (content ide_dsk s)(b := d)"
    "ide_dsk t = (ide_dsk s)(b := d)" "dwrites t = dwrites s @ [(1, b, d)]" "bread_able b t"
    by (rule id.update_block [OF assms])
  obtain j u where u: "bread iderw 1 b t = Ret j u" "locked_for ide_dsk FSSIZE b j t u"
      "b_data (bufs u ! j) = content ide_dsk t b"
    by (rule id.bread_ok [OF t(2-4) assms(4) t(8)])
  have "kbind (bread iderw 1 b) (\<lambda>i.
             kbind (kseq [kmod (upd_buf i (\<lambda>x. x\<lparr>b_data := d\<rparr>)), bwrite iderw i, brelse i]) (\<lambda>_.
             bread iderw 1 b)) s = Ret j u"
    by (rule kbind_then [where g = "bread iderw 1 b", OF t(1)]) (rule u(1))
  with t(5-7) u(2,3) show ?thesis
    by (intro exI [of _ j] exI [of _ u]) (simp add: locked_for_def ide_dsk_def)
qed

text \<open>A machine just booted: thirty-one zeroed buffers, linked up by \<open>binit\<close>.\<close>

definition fresh_disk :: kdisk where
  "fresh_disk = disk_state (replicate (Suc NBUF) zero_buf)"

lemma fresh_cache:
  obtains t where "binit fresh_disk = Ret () t" "mru t (rev [0..<NBUF])" "quiet t" "ide_dev_ok t"
    "cache_ok ide_dsk FSSIZE t" "\<forall>b. bread_able b t" "same_machine fresh_disk t"
    "\<forall>j < NBUF. b_flags (bufs t ! j) = 0 \<and> b_dev (bufs t ! j) = 0xFFFFFFFF"
proof -
  have l: "length (bufs fresh_disk) = Suc NBUF" by (simp add: fresh_disk_def)
  from binit_mru [OF this] obtain t where t: "binit fresh_disk = Ret () t" by blast
  have z: "\<forall>i < NBUF. b_flags (bufs fresh_disk ! i) = 0 \<and> length (b_data (bufs fresh_disk ! i)) = BSIZE"
    by (simp add: fresh_disk_def zero_buf_def BSIZE_def del: replicate.simps)
  note m = binit_ok(1,3,5) [where dsk = "\<lambda>_ _. []", OF l z refl t]
  have "quiet fresh_disk" "ide_dev_ok fresh_disk"
    using idle_ctl_ok by (simp_all add: fresh_disk_def quiet_def ide_dev_ok_def BSIZE_def)
  moreover have "ide_dsk t = ide_dsk fresh_disk" using m(2) by (simp add: same_machine_def ide_dsk_def)
  ultimately show ?thesis
    using that [OF t m(1)] m(2,3) binit_ok(2,4) [where dsk = ide_dsk, OF l z _ t]
    by (simp add: same_machine_def quiet_def ide_dev_ok_def)
qed

theorem brelse_most_recent_witness:
  "\<exists>s t. binit fresh_disk = Ret () s \<and> brelse 5 (upd_buf 5 (\<lambda>x. x\<lparr>b_flags := B_BUSY\<rparr>) s) = Ret () t \<and>
     mru t (5 # remove1 5 (rev [0..<NBUF]))"
proof -
  obtain s where s: "binit fresh_disk = Ret () s" "mru s (rev [0..<NBUF])" "quiet s" by (rule fresh_cache) blast
  have "mru (upd_buf 5 (\<lambda>x. x\<lparr>b_flags := B_BUSY\<rparr>) s) (rev [0..<NBUF])" using s(2) by (rule mru_upd) simp_all
  moreover have "5 < length (bufs s)" using mru_length [OF s(2)] by (simp add: NBUF_def)
  ultimately show ?thesis
    using brelse_most_recent [of "upd_buf 5 (\<lambda>x. x\<lparr>b_flags := B_BUSY\<rparr>) s" "rev [0..<NBUF]" 5] s(1,3)
    by (auto simp: quiet_def NBUF_def)
qed

theorem bget_recycles_witness:
  "\<exists>s. binit fresh_disk = Ret () s \<and>
     bget 1 7 s = Ret 0 (upd_buf 0 (\<lambda>x. x\<lparr>b_dev := 1, b_blockno := 7, b_flags := B_BUSY\<rparr>) s)"
proof -
  obtain s where s: "binit fresh_disk = Ret () s" "mru s (rev [0..<NBUF])" "quiet s"
    "\<forall>j < NBUF. b_flags (bufs s ! j) = 0 \<and> b_dev (bufs s ! j) = 0xFFFFFFFF" by (rule fresh_cache) blast
  have "find (\<lambda>j. \<not> b_busy (bufs s ! j) \<and> \<not> b_dirty (bufs s ! j)) (rev (rev [0..<NBUF])) = Some 0"
    using s(4) by (simp add: NBUF_def upt_rec flag_bits)
  then show ?thesis using bget_recycles [OF s(2), of 1 7] s by (simp add: quiet_def)
qed

theorem bread_current_witness:
  "\<exists>s i t. binit fresh_disk = Ret () s \<and> bread iderw 1 7 s = Ret i t \<and> b_data (bufs t ! i) = replicate 512 7"
proof -
  obtain s where s: "binit fresh_disk = Ret () s" "quiet s" "ide_dev_ok s" "cache_ok ide_dsk FSSIZE s" "bread_able 7 s"
      "same_machine fresh_disk s" "\<forall>j < NBUF. b_flags (bufs s ! j) = 0 \<and> b_dev (bufs s ! j) = 0xFFFFFFFF"
    by (rule fresh_cache) blast
  have "content ide_dsk s 7 = ide_dsk s 7" using s(7) by (intro content_disk) (simp add: buf_for_def)
  moreover have "ide_dsk s 7 = replicate 512 7" using s(6) by (simp add: same_machine_def ide_dsk_def fresh_disk_def)
  ultimately show ?thesis using bread_current [OF s(2-4) _ s(5)] s(1) by (auto simp: FSSIZE_def)
qed

theorem bwrite_bread_witness:
  "\<exists>s i t. binit fresh_disk = Ret () s \<and> kbind (bread iderw 1 7) (\<lambda>i.
       kbind (kseq [kmod (upd_buf i (\<lambda>x. x\<lparr>b_data := replicate 512 9\<rparr>)), bwrite iderw i, brelse i]) (\<lambda>_.
       bread iderw 1 7)) s = Ret i t \<and> b_data (bufs t ! i) = replicate 512 9 \<and> dwrites t = [(1, 7, replicate 512 9)]"
proof -
  obtain s where s: "binit fresh_disk = Ret () s" "quiet s" "ide_dev_ok s" "cache_ok ide_dsk FSSIZE s" "bread_able 7 s"
      "same_machine fresh_disk s"
    by (rule fresh_cache) blast
  have "dwrites s = []" using s(6) by (simp add: same_machine_def fresh_disk_def)
  then show ?thesis
    using bwrite_bread [OF s(2-4) _ s(5), of "replicate 512 9"] s(1) unfolding BSIZE_def FSSIZE_def by force
qed

end
