(* ===== verification/Ondisk.thy ===== *)
theory Ondisk
  imports Bio
begin

text \<open>
  The on-disk format of \<open>src/HW3/fs.h\<close>: how the super block, inodes and directory entries
  lie in the bytes of a block. A block is a list of bytes; the C code casts a pointer into
  the block and assigns fields, here \<open>put_bytes\<close> replaces the bytes of a field and
  \<open>bytes_at\<close> reads them, in the little-endian order of the machine.
\<close>

section \<open>Fields in a block\<close>

definition bytes_at :: "u8 list \<Rightarrow> nat \<Rightarrow> nat \<Rightarrow> u8 list" where
  "bytes_at xs k n = take n (drop k xs)"

definition put_bytes :: "u8 list \<Rightarrow> nat \<Rightarrow> u8 list \<Rightarrow> u8 list" where
  "put_bytes xs k ys = take k xs @ ys @ drop (k + length ys) xs"

definition le16 :: "u16 \<Rightarrow> u8 list" where
  "le16 v = [ucast v, ucast (drop_bit 8 v)]"

definition le32 :: "u32 \<Rightarrow> u8 list" where
  "le32 v = [ucast v, ucast (drop_bit 8 v), ucast (drop_bit 16 v), ucast (drop_bit 24 v)]"

fun unle16 :: "u8 list \<Rightarrow> u16" where
  "unle16 [a, b] = ucast a OR push_bit 8 (ucast b)"
| "unle16 _ = 0"

fun unle32 :: "u8 list \<Rightarrow> u32" where
  "unle32 [a, b, c, d] = ucast a OR push_bit 8 (ucast b) OR push_bit 16 (ucast c) OR push_bit 24 (ucast d)"
| "unle32 _ = 0"

definition get16 :: "u8 list \<Rightarrow> nat \<Rightarrow> u16" where "get16 xs k = unle16 (bytes_at xs k 2)"
definition get32 :: "u8 list \<Rightarrow> nat \<Rightarrow> u32" where "get32 xs k = unle32 (bytes_at xs k 4)"
definition put16 :: "u8 list \<Rightarrow> nat \<Rightarrow> u16 \<Rightarrow> u8 list" where "put16 xs k v = put_bytes xs k (le16 v)"
definition put32 :: "u8 list \<Rightarrow> nat \<Rightarrow> u32 \<Rightarrow> u8 list" where "put32 xs k v = put_bytes xs k (le32 v)"

lemma length_le [simp]: "length (le16 v) = 2" "length (le32 w) = 4"
  by (simp_all add: le16_def le32_def)

lemma le32_unle [simp]: "unle32 (le32 v) = v"
  by (simp add: le32_def load32_bytes)

lemma le16_unle [simp]: "unle16 (le16 v) = v"
proof (rule bit_word_eqI)
  fix n
  assume "n < LENGTH(16)"
  then consider "n < 8" | "8 \<le> n" "n < 16" by fastforce
  then show "bit (unle16 (le16 v)) n = bit v n" by cases (auto simp: le16_def bit_simps)
qed

lemma put_bytes_length [simp]: "k + length ys \<le> length xs \<Longrightarrow> length (put_bytes xs k ys) = length xs"
  by (simp add: put_bytes_def)

lemma bytes_at_length [simp]: "k + n \<le> length xs \<Longrightarrow> length (bytes_at xs k n) = n"
  by (simp add: bytes_at_def)

lemma bytes_at_put [simp]:
  "k + length ys \<le> length xs \<Longrightarrow> n = length ys \<Longrightarrow> bytes_at (put_bytes xs k ys) k n = ys"
  by (simp add: bytes_at_def put_bytes_def)

lemma nth_put_bytes:
  "k + length ys \<le> length xs \<Longrightarrow> j < length xs \<Longrightarrow> put_bytes xs k ys ! j = (if k \<le> j \<and> j < k + length ys then ys ! (j - k) else xs ! j)"
  by (auto simp: put_bytes_def nth_append min_def nth_drop)

lemma nth_bytes_at: "k + n \<le> length xs \<Longrightarrow> j < n \<Longrightarrow> bytes_at xs k n ! j = xs ! (k + j)"
  by (simp add: bytes_at_def)

lemma bytes_at_put_other:
  assumes "k + length ys \<le> length xs" and "j + n \<le> length xs" and "j + n \<le> k \<or> k + length ys \<le> j"
  shows "bytes_at (put_bytes xs k ys) j n = bytes_at xs j n"
  by (rule nth_equalityI) (use assms in \<open>auto simp: nth_bytes_at nth_put_bytes\<close>)

lemma bytes_at_put_sub:
  assumes "k + length ys \<le> length xs" and "k \<le> j" and "j + n \<le> k + length ys"
  shows "bytes_at (put_bytes xs k ys) j n = bytes_at ys (j - k) n"
  by (rule nth_equalityI) (use assms in \<open>auto simp: nth_bytes_at nth_put_bytes\<close>)

lemma put_lengths [simp]:
  "k + 2 \<le> length xs \<Longrightarrow> length (put16 xs k v) = length xs" "k + 4 \<le> length xs \<Longrightarrow> length (put32 xs k w) = length xs"
  by (simp_all add: put16_def put32_def)

lemma get_put [simp]:
  "k + 2 \<le> length xs \<Longrightarrow> get16 (put16 xs k v) k = v" "k + 4 \<le> length xs \<Longrightarrow> get32 (put32 xs k w) k = w"
  by (simp_all add: get16_def get32_def put16_def put32_def)

text \<open>Reading a field that does not overlap the one written.\<close>

lemma get_put_other:
  "k + 2 \<le> length xs \<Longrightarrow> j + n \<le> length xs \<Longrightarrow> j + n \<le> k \<or> k + 2 \<le> j \<Longrightarrow> bytes_at (put16 xs k v) j n = bytes_at xs j n"
  "k + 4 \<le> length xs \<Longrightarrow> j + n \<le> length xs \<Longrightarrow> j + n \<le> k \<or> k + 4 \<le> j \<Longrightarrow> bytes_at (put32 xs k w) j n = bytes_at xs j n"
  by (simp_all add: put16_def put32_def bytes_at_put_other)

section \<open>Arrays of words\<close>

fun put_words :: "u8 list \<Rightarrow> nat \<Rightarrow> u32 list \<Rightarrow> u8 list" where
  "put_words xs k [] = xs"
| "put_words xs k (v # vs) = put_words (put32 xs k v) (k + 4) vs"

definition get_words :: "u8 list \<Rightarrow> nat \<Rightarrow> nat \<Rightarrow> u32 list" where
  "get_words xs k n = map (\<lambda>i. get32 xs (k + 4 * i)) [0..<n]"

lemma put_words_length [simp]: "k + 4 * length vs \<le> length xs \<Longrightarrow> length (put_words xs k vs) = length xs"
  by (induction xs k vs rule: put_words.induct) simp_all

lemma put_words_other:
  "k + 4 * length vs \<le> length xs \<Longrightarrow> j + n \<le> length xs \<Longrightarrow> j + n \<le> k \<or> k + 4 * length vs \<le> j \<Longrightarrow>
    bytes_at (put_words xs k vs) j n = bytes_at xs j n"
proof (induction xs k vs rule: put_words.induct)
  case (2 xs k v vs)
  have "bytes_at (put_words (put32 xs k v) (k + 4) vs) j n = bytes_at (put32 xs k v) j n"
    by (rule 2(1)) (use 2(2-) in auto)
  also have "\<dots> = bytes_at xs j n" by (rule get_put_other) (use 2(2-) in auto)
  finally show ?case by simp
qed simp

lemma get32_put_words:
  "k + 4 * length vs \<le> length xs \<Longrightarrow> i < length vs \<Longrightarrow> get32 (put_words xs k vs) (k + 4 * i) = vs ! i"
proof (induction xs k vs arbitrary: i rule: put_words.induct)
  case (2 xs k v vs)
  show ?case
  proof (cases i)
    case 0
    have "bytes_at (put_words (put32 xs k v) (k + 4) vs) k 4 = bytes_at (put32 xs k v) k 4"
      using 2(2) by (intro put_words_other) simp_all
    then show ?thesis using 0 2(2) by (simp add: get32_def) (simp add: put32_def)
  next
    case (Suc m)
    then show ?thesis using 2 by (simp add: add.assoc [symmetric])
  qed
qed simp

lemma get_put_words: "k + 4 * length vs \<le> length xs \<Longrightarrow> n = length vs \<Longrightarrow> get_words (put_words xs k vs) k n = vs"
  by (rule nth_equalityI) (simp_all add: get_words_def get32_put_words)

lemma get_words_length [simp]: "length (get_words xs k n) = n"
  by (simp add: get_words_def)

lemma get_words_cong:
  "(\<And>i. i < n \<Longrightarrow> bytes_at xs (k + 4 * i) 4 = bytes_at ys (k + 4 * i) 4) \<Longrightarrow> get_words xs k n = get_words ys k n"
  by (simp add: get_words_def get32_def)

section \<open>Super block, inodes, directory entries\<close>

definition ROOTINO :: u32 where "ROOTINO = 1"
definition NDIRECT :: nat where "NDIRECT = 12"
definition NINDIRECT :: nat where "NINDIRECT = BSIZE div 4"
definition MAXFILE :: nat where "MAXFILE = NDIRECT + NINDIRECT"
definition DIRSIZ :: nat where "DIRSIZ = 14"

record superblock =
  sb_size :: u32
  sb_nblocks :: u32
  sb_ninodes :: u32
  sb_nlog :: u32
  sb_logstart :: u32
  sb_inodestart :: u32
  sb_bmapstart :: u32

record dinode =
  d_type :: u16
  d_major :: u16
  d_minor :: u16
  d_nlink :: u16
  d_size :: u32
  d_addrs :: "u32 list"

definition DINODE_SIZE :: nat where "DINODE_SIZE = 64"
definition IPB :: nat where "IPB = BSIZE div DINODE_SIZE"
definition IBLOCK :: "u32 \<Rightarrow> superblock \<Rightarrow> u32" where "IBLOCK i sb = i div of_nat IPB + sb_inodestart sb"
definition BPB :: nat where "BPB = BSIZE * 8"
definition BBLOCK :: "u32 \<Rightarrow> superblock \<Rightarrow> u32" where "BBLOCK b sb = b div of_nat BPB + sb_bmapstart sb"

record dirent =
  de_inum :: u16
  de_name :: "u8 list"

definition DIRENT_SIZE :: nat where "DIRENT_SIZE = 2 + DIRSIZ"

definition sb_of :: "u8 list \<Rightarrow> superblock" where
  "sb_of d = \<lparr>sb_size = get32 d 0, sb_nblocks = get32 d 4, sb_ninodes = get32 d 8, sb_nlog = get32 d 12,
     sb_logstart = get32 d 16, sb_inodestart = get32 d 20, sb_bmapstart = get32 d 24\<rparr>"

definition sb_words :: "superblock \<Rightarrow> u32 list" where
  "sb_words sb = [sb_size sb, sb_nblocks sb, sb_ninodes sb, sb_nlog sb, sb_logstart sb, sb_inodestart sb, sb_bmapstart sb]"

definition get_dinode :: "u8 list \<Rightarrow> nat \<Rightarrow> dinode" where
  "get_dinode d k = \<lparr>d_type = get16 d k, d_major = get16 d (k + 2), d_minor = get16 d (k + 4), d_nlink = get16 d (k + 6),
     d_size = get32 d (k + 8), d_addrs = get_words d (k + 12) (NDIRECT + 1)\<rparr>"

definition put_dinode :: "u8 list \<Rightarrow> nat \<Rightarrow> dinode \<Rightarrow> u8 list" where
  "put_dinode d k x =
     (let d = put16 d k (d_type x);
          d = put16 d (k + 2) (d_major x);
          d = put16 d (k + 4) (d_minor x);
          d = put16 d (k + 6) (d_nlink x);
          d = put32 d (k + 8) (d_size x)
      in put_words d (k + 12) (d_addrs x))"

definition dirent_of :: "u8 list \<Rightarrow> dirent" where
  "dirent_of d = \<lparr>de_inum = get16 d 0, de_name = bytes_at d 2 DIRSIZ\<rparr>"

definition dirent_bytes :: "dirent \<Rightarrow> u8 list" where
  "dirent_bytes e = le16 (de_inum e) @ de_name e"

lemma dirent_round [simp]: "length (de_name e) = DIRSIZ \<Longrightarrow> dirent_of (dirent_bytes e) = e"
  by (simp add: dirent_of_def dirent_bytes_def get16_def bytes_at_def)

lemma length_dirent_bytes [simp]: "length (de_name e) = DIRSIZ \<Longrightarrow> length (dirent_bytes e) = DIRENT_SIZE"
  by (simp add: dirent_bytes_def DIRENT_SIZE_def)

lemma put_dinode_length [simp]:
  "length (d_addrs x) = NDIRECT + 1 \<Longrightarrow> k + DINODE_SIZE \<le> length d \<Longrightarrow> length (put_dinode d k x) = length d"
  by (simp add: put_dinode_def Let_def NDIRECT_def DINODE_SIZE_def)

lemma put_dinode_other:
  "length (d_addrs x) = NDIRECT + 1 \<Longrightarrow> k + DINODE_SIZE \<le> length d \<Longrightarrow> j + n \<le> length d \<Longrightarrow> j + n \<le> k \<or> k + DINODE_SIZE \<le> j \<Longrightarrow>
    bytes_at (put_dinode d k x) j n = bytes_at d j n"
  by (auto simp: put_dinode_def Let_def NDIRECT_def DINODE_SIZE_def put_words_other get_put_other)

lemma get_put_dinode:
  assumes "length (d_addrs x) = NDIRECT + 1" and "k + DINODE_SIZE \<le> length d"
  shows "get_dinode (put_dinode d k x) k = x"
proof -
  define d1 where "d1 = put16 d k (d_type x)"
  define d2 where "d2 = put16 d1 (k + 2) (d_major x)"
  define d3 where "d3 = put16 d2 (k + 4) (d_minor x)"
  define d4 where "d4 = put16 d3 (k + 6) (d_nlink x)"
  define d5 where "d5 = put32 d4 (k + 8) (d_size x)"
  define d6 where "d6 = put_words d5 (k + 12) (d_addrs x)"
  have a: "length (d_addrs x) = 13" "k + 64 \<le> length d" using assms by (simp_all add: NDIRECT_def DINODE_SIZE_def)
  have l: "length d1 = length d" "length d2 = length d" "length d3 = length d" "length d4 = length d" "length d5 = length d"
    using a by (simp_all add: d1_def d2_def d3_def d4_def d5_def)
  have o6: "bytes_at d6 j n = bytes_at d5 j n" if "j + n \<le> k + 12" for j n
    unfolding d6_def using a l that by (intro put_words_other) simp_all
  have o5: "bytes_at d5 j n = bytes_at d4 j n" if "j + n \<le> k + 8" for j n
    unfolding d5_def using a l that by (intro get_put_other) simp_all
  have o4: "bytes_at d4 j n = bytes_at d3 j n" if "j + n \<le> k + 6" for j n
    unfolding d4_def using a l that by (intro get_put_other) simp_all
  have o3: "bytes_at d3 j n = bytes_at d2 j n" if "j + n \<le> k + 4" for j n
    unfolding d3_def using a l that by (intro get_put_other) simp_all
  have o2: "bytes_at d2 j n = bytes_at d1 j n" if "j + n \<le> k + 2" for j n
    unfolding d2_def using a l that by (intro get_put_other) simp_all
  have g: "get16 d1 k = d_type x" "get16 d2 (k + 2) = d_major x" "get16 d3 (k + 4) = d_minor x" "get16 d4 (k + 6) = d_nlink x"
    "get32 d5 (k + 8) = d_size x" "get_words d6 (k + 12) 13 = d_addrs x"
    using a l by (simp_all add: d1_def d2_def d3_def d4_def d5_def d6_def get_put_words)
  have "get16 d6 k = d_type x" "get16 d6 (k + 2) = d_major x" "get16 d6 (k + 4) = d_minor x" "get16 d6 (k + 6) = d_nlink x"
    "get32 d6 (k + 8) = d_size x"
    using g by (simp_all add: get16_def get32_def o6 o5 o4 o3 o2)
  then have "get_dinode d6 k = x" using g(6) by (simp add: get_dinode_def NDIRECT_def)
  then show ?thesis by (simp add: put_dinode_def Let_def d6_def d5_def d4_def d3_def d2_def d1_def)
qed

lemma get_put_dinode_other:
  assumes "length (d_addrs x) = NDIRECT + 1" and "k + DINODE_SIZE \<le> length d" and "j + DINODE_SIZE \<le> length d"
    and "j + DINODE_SIZE \<le> k \<or> k + DINODE_SIZE \<le> j"
  shows "get_dinode (put_dinode d k x) j = get_dinode d j"
proof -
  have o: "bytes_at (put_dinode d k x) (j + i) n = bytes_at d (j + i) n" if "i + n \<le> 64" for i n
    using assms that by (intro put_dinode_other) (auto simp: DINODE_SIZE_def)
  have "get_words (put_dinode d k x) (j + 12) (NDIRECT + 1) = get_words d (j + 12) (NDIRECT + 1)"
    by (rule get_words_cong) (use o [of "12 + 4 * i" 4 for i] in \<open>simp add: NDIRECT_def add.assoc\<close>)
  then show ?thesis
    using o [of 0 2] o [of 2 2] o [of 4 2] o [of 6 2] o [of 8 4]
    by (simp add: get_dinode_def get16_def get32_def)
qed

end
