(* ===== verification/Blockio.thy ===== *)
theory Blockio
  imports Bio
begin

text \<open>
  The block-level view of the buffer cache, for its clients: between file-system calls no
  buffer is locked, and the common sequences \<open>bread ... brelse\<close>,
  \<open>bread ... bwrite, brelse\<close> and copying one block to another act on the contents of
  blocks without mentioning buffers.
\<close>

definition idle :: "'z kdisk_scheme \<Rightarrow> bool" where
  "idle s \<longleftrightarrow> (\<forall>i < NBUF. \<not> b_busy (bufs s ! i))"

definition ready ::
  "('z kdisk_scheme \<Rightarrow> u32 \<Rightarrow> u8 list) \<Rightarrow> ('z kdisk_scheme \<Rightarrow> bool) \<Rightarrow> u32 \<Rightarrow> 'z kdisk_scheme \<Rightarrow> bool" where
  "ready dsk ok n s \<longleftrightarrow> quiet s \<and> ok s \<and> cache_ok dsk n s \<and> idle s"

lemma finite_dirty [simp]: "finite (dirty_blocks s)"
proof -
  have "dirty_blocks s \<subseteq> (\<lambda>i. b_blockno (bufs s ! i)) ` {..<NBUF}"
    by (auto simp: dirty_blocks_def buf_for_def)
  then show ?thesis using finite_surj by blast
qed

lemma dirty_card:
  assumes "cache_ok dsk n s" and "A \<subseteq> {..<NBUF}" and "\<And>i. i \<in> A \<Longrightarrow> b_dirty (bufs s ! i)"
  shows "card A \<le> card (dirty_blocks s)"
proof -
  have d: "b_dev (bufs s ! i) = 1" if "i \<in> A" for i
    using assms that unfolding cache_ok_def buf_ok_def by blast
  have "inj_on (\<lambda>i. b_blockno (bufs s ! i)) A"
  proof (rule inj_onI)
    fix i j
    assume h: "i \<in> A" "j \<in> A" "b_blockno (bufs s ! i) = b_blockno (bufs s ! j)"
    then have "buf_for (b_blockno (bufs s ! j)) (bufs s ! i)" "buf_for (b_blockno (bufs s ! j)) (bufs s ! j)"
      using d by (simp_all add: buf_for_def)
    then show "i = j" using assms(1,2) h(1,2) unfolding cache_ok_def one_each_def by blast
  qed
  moreover have "(\<lambda>i. b_blockno (bufs s ! i)) ` A \<subseteq> dirty_blocks s"
    using assms(2,3) d unfolding dirty_blocks_def buf_for_def by blast
  ultimately show ?thesis using card_inj_on_le [of _ A "dirty_blocks s"] by simp
qed

lemma clean_buffer:
  assumes "cache_ok dsk n s" and "card (dirty_blocks s) < NBUF"
  obtains k where "k < NBUF" "\<not> b_dirty (bufs s ! k)"
proof (rule ccontr)
  assume "\<not> thesis"
  then have "card {..<NBUF} \<le> card (dirty_blocks s)" using that by (intro dirty_card [OF assms(1)]) auto
  then show False using assms(2) by simp
qed

lemma clean_buffer2:
  assumes "cache_ok dsk n s" and "card (dirty_blocks s) + 1 < NBUF" and "i < NBUF"
  obtains k where "k < NBUF" "k \<noteq> i" "\<not> b_dirty (bufs s ! k)"
proof (rule ccontr)
  assume "\<not> thesis"
  then have "card ({..<NBUF} - {i}) \<le> card (dirty_blocks s)" using that by (intro dirty_card [OF assms(1)]) auto
  then show False using assms(2,3) by simp
qed

lemma able_idle:
  assumes "cache_ok dsk n s" and "idle s" and "card (dirty_blocks s) < NBUF"
  shows "bread_able b s"
  using clean_buffer [OF assms(1,3)] assms(2) unfolding bread_able_def idle_def by metis

lemma able_second:
  assumes "locked_for dsk n a i s t" and "idle s" and "a \<noteq> b"
    and "b \<in> dirty_blocks s \<or> card (dirty_blocks s) + 1 < NBUF"
  shows "bread_able b t"
proof -
  have l: "i < NBUF" "buf_for a (bufs t ! i)" "\<And>j. j \<noteq> i \<Longrightarrow> bufs t ! j = bufs s ! j" "cache_ok dsk n t"
    "dirty_blocks t = dirty_blocks s"
    using assms(1) by (auto simp: locked_for_def)
  have nb: "\<not> b_busy (bufs t ! j)" if "j < NBUF" "j \<noteq> i" for j using that l(3) assms(2) by (simp add: idle_def)
  have ni: "\<not> buf_for b (bufs t ! i)" using l(2) assms(3) by (auto simp: buf_for_def)
  show ?thesis
  proof (cases "\<exists>j < NBUF. buf_for b (bufs t ! j)")
    case True
    then show ?thesis using ni nb unfolding bread_able_def by metis
  next
    case False
    then have "b \<notin> dirty_blocks t" by (auto simp: dirty_blocks_def)
    then have "card (dirty_blocks t) + 1 < NBUF" using assms(4) l(5) by simp
    then obtain k where "k < NBUF" "k \<noteq> i" "\<not> b_dirty (bufs t ! k)" using clean_buffer2 [OF l(4) _ l(1)] by blast
    then show ?thesis using False nb unfolding bread_able_def by blast
  qed
qed

text \<open>A block that is not dirty and not being changed has the disk's contents.\<close>

lemma content_clean:
  assumes "cache_ok dsk n s" and "\<And>i. i < NBUF \<Longrightarrow> buf_for b (bufs s ! i) \<Longrightarrow> \<not> b_busy (bufs s ! i)" and "b \<notin> dirty_blocks s"
  shows "content dsk s b = dsk s b"
proof -
  have one: "one_each (bufs s)" using assms(1) by (simp add: cache_ok_def)
  then show ?thesis
  proof (cases rule: content_cases [of s b dsk])
    case (cached i)
    then have "\<not> b_dirty (bufs s ! i)" using assms(3) unfolding dirty_blocks_def by blast
    moreover have "buf_ok (dsk s) n (bufs s ! i)" using assms(1) cached(1) by (simp add: cache_ok_def)
    ultimately show ?thesis using cached assms(2) by (simp add: buf_ok_def buf_for_def)
  qed
qed

lemma idle_relock:
  assumes "idle s" and "\<forall>j. j \<noteq> i \<longrightarrow> bufs t ! j = bufs s ! j" and "\<And>j. j \<noteq> i \<Longrightarrow> same_but_links (bufs t ! j) (bufs u ! j)"
    and "same_but_links ((bufs t ! i)\<lparr>b_flags := b_flags (bufs t ! i) AND NOT B_BUSY\<rparr>) (bufs u ! i)"
  shows "idle u"
  unfolding idle_def
proof (intro allI impI)
  fix j
  assume "j < NBUF"
  show "\<not> b_busy (bufs u ! j)"
  proof (cases "j = i")
    case True
    then show ?thesis using same_links_eqs(3) [OF assms(4)] by simp
  next
    case False
    then show ?thesis using assms(1,2) same_links_eqs(3) [OF assms(3) [OF False]] \<open>j < NBUF\<close> by (simp add: idle_def)
  qed
qed

definition same_store :: "('z kdisk_scheme \<Rightarrow> u32 \<Rightarrow> u8 list) \<Rightarrow> 'z kdisk_scheme \<Rightarrow> 'z kdisk_scheme \<Rightarrow> bool" where
  "same_store dsk s t \<longleftrightarrow> content dsk t = content dsk s \<and> dsk t = dsk s \<and> dwrites t = dwrites s \<and>
     dirty_blocks t = dirty_blocks s \<and> same_rest s t"

lemma dirty_blocks_clean:
  assumes "one_each (bufs s)" and "i < NBUF" and "buf_for b (bufs s ! i)" and "\<forall>j. j \<noteq> i \<longrightarrow> bufs t ! j = bufs s ! j"
    and "\<not> b_dirty (bufs t ! i)"
  shows "dirty_blocks t = dirty_blocks s - {b}"
proof (rule set_eqI)
  fix c
  have "\<not> buf_for b (bufs s ! j)" if "j < NBUF" "j \<noteq> i" for j using assms(1-3) that unfolding one_each_def by blast
  moreover have "c = b" if "buf_for c (bufs s ! i)" using that assms(3) by (auto simp: buf_for_def)
  ultimately show "c \<in> dirty_blocks t \<longleftrightarrow> c \<in> dirty_blocks s - {b}"
    using assms(2,4,5) unfolding dirty_blocks_def by (auto; metis)
qed

text \<open>The state after a write of block \<open>b\<close>: its contents, the disk, and the history of writes.\<close>

definition wrote :: "('z kdisk_scheme \<Rightarrow> u32 \<Rightarrow> u8 list) \<Rightarrow> u32 \<Rightarrow> u8 list \<Rightarrow> 'z kdisk_scheme \<Rightarrow> 'z kdisk_scheme \<Rightarrow> bool" where
  "wrote dsk b d s t \<longleftrightarrow> content dsk t = (content dsk s)(b := d) \<and> dsk t = (dsk s)(b := d) \<and>
     dwrites t = dwrites s @ [(1, b, d)] \<and> dirty_blocks t = dirty_blocks s - {b} \<and> same_rest s t"

context disk_driver
begin

lemma read_block:
  assumes r: "ready dsk dev_ok nblk s" and b: "b < nblk" and c: "card (dirty_blocks s) < NBUF"
  obtains t where
    "kbind (bread rw 1 b) (\<lambda>i. kbind (kget (\<lambda>s. f (b_data (bufs s ! i)))) (\<lambda>x. kbind (brelse i) (\<lambda>_. kret x))) s
       = Ret (f (content dsk s b)) t"
    "ready dsk dev_ok nblk t" "same_store dsk s t"
proof -
  have h: "quiet s" "dev_ok s" "cache_ok dsk nblk s" "idle s" using r by (simp_all add: ready_def)
  obtain i t1 where t1: "bread rw 1 b s = Ret i t1" "locked_for dsk nblk b i s t1" "quiet t1" "dev_ok t1"
      "b_valid (bufs t1 ! i)" "b_data (bufs t1 ! i) = content dsk s b"
    by (rule bread_ok [OF h(1-3) b able_idle [OF h(3,4) c]])
  have l: "i < NBUF" "buf_for b (bufs t1 ! i)" "b_busy (bufs t1 ! i)" "cache_ok dsk nblk t1" "dsk t1 = dsk s"
    "\<forall>j. j \<noteq> i \<longrightarrow> bufs t1 ! j = bufs s ! j" "dirty_blocks t1 = dirty_blocks s"
    using t1(2) by (simp_all add: locked_for_def)
  have "b_dirty (bufs t1 ! i) \<or> b_data (bufs t1 ! i) = dsk t1 b"
  proof (cases "b \<in> dirty_blocks s")
    case True
    then obtain j where j: "j < NBUF" "buf_for b (bufs t1 ! j)" "b_dirty (bufs t1 ! j)"
      using l(7) unfolding dirty_blocks_def by blast
    then have "j = i" using l unfolding cache_ok_def one_each_def by blast
    then show ?thesis using j by simp
  next
    case False
    then show ?thesis using content_clean [OF h(3) _ False] h(4) t1(6) l(5) by (simp add: idle_def)
  qed
  then obtain t where t: "brelse i t1 = Ret () t" "quiet t" "dev_ok t = dev_ok t1" "cache_ok dsk nblk t" "content dsk t = content dsk t1"
    "dsk t = dsk t1" "dwrites t = dwrites t1" "same_rest t1 t" "dirty_blocks t = dirty_blocks t1"
    "\<And>j. j \<noteq> i \<Longrightarrow> same_but_links (bufs t1 ! j) (bufs t ! j)"
    "same_but_links ((bufs t1 ! i)\<lparr>b_flags := b_flags (bufs t1 ! i) AND NOT B_BUSY\<rparr>) (bufs t ! i)"
    using brelse_ok [OF t1(3) l(4,1,2,3)] by metis
  have "idle t" by (rule idle_relock [OF h(4) l(6) t(10,11)])
  then have "ready dsk dev_ok nblk t" using t t1 by (simp add: ready_def)
  moreover have "same_store dsk s t"
    using t1(2) t by (auto simp: same_store_def locked_for_def intro: same_rest_trans)
  moreover have "kbind (bread rw 1 b) (\<lambda>i. kbind (kget (\<lambda>s. f (b_data (bufs s ! i)))) (\<lambda>x. kbind (brelse i) (\<lambda>_. kret x))) s
       = Ret (f (content dsk s b)) t"
    using t1(1,6) t(1) by (simp add: prog_simps)
  ultimately show ?thesis using that by blast
qed

lemma put_bwrite:
  assumes q: "quiet s" and dv: "dev_ok s" and co: "cache_ok dsk nblk s" and i: "i < NBUF"
    and bf: "buf_for b (bufs s ! i)" and bu: "b_busy (bufs s ! i)" and va: "b_valid (bufs s ! i)" and d: "length d = BSIZE"
  obtains t where "bwrite rw i (upd_buf i (\<lambda>x. x\<lparr>b_data := d\<rparr>) s) = Ret () t" "quiet t" "dev_ok t" "cache_ok dsk nblk t"
    "wrote dsk b d s t" "\<forall>j. j \<noteq> i \<longrightarrow> bufs t ! j = bufs s ! j"
    "buf_for b (bufs t ! i)" "b_busy (bufs t ! i)" "b_valid (bufs t ! i)" "b_data (bufs t ! i) = dsk t b"
proof -
  let ?s = "upd_buf i (\<lambda>x. x\<lparr>b_data := d\<rparr>) s"
  note p = put_data_ok [OF co i bf bu va d]
  have il: "i < length (bufs s)" and one: "one_each (bufs s)" using co i by (auto simp: cache_ok_def mru_def)
  have bs: "buf_for b (bufs ?s ! i)" "b_busy (bufs ?s ! i)" "b_valid (bufs ?s ! i)"
    using bf bu va il by (simp_all add: buf_for_def)
  have qs: "quiet ?s" "dev_ok ?s" using q dv by simp_all
  obtain t where t: "bwrite rw i ?s = Ret () t" "quiet t" "dev_ok t" "cache_ok dsk nblk t" "content dsk t = content dsk ?s"
    "dsk t = (dsk ?s)(b := content dsk ?s b)" "dwrites t = dwrites ?s @ [(1, b, content dsk ?s b)]"
    "length (bufs t) = length (bufs ?s)" "\<forall>j. j \<noteq> i \<longrightarrow> bufs t ! j = bufs ?s ! j"
    "sync_buf (content dsk ?s b) (bufs ?s ! i) (bufs t ! i)" "bnx t = bnx ?s" "bpv t = bpv ?s" "same_rest ?s t"
    by (rule bwrite_ok [OF qs p(1) i bs])
  have bt: "buf_for b (bufs t ! i)" "b_busy (bufs t ! i)" "b_valid (bufs t ! i)" "b_data (bufs t ! i) = dsk t b" "\<not> b_dirty (bufs t ! i)"
    using t(6,10) bs by (simp_all add: sync_buf_def buf_for_def)
  have oth: "\<forall>j. j \<noteq> i \<longrightarrow> bufs t ! j = bufs s ! j" using t(9) by simp
  have "wrote dsk b d s t"
    using t p(2) dirty_blocks_clean [OF one i bf oth bt(5)] by (simp add: wrote_def same_rest_def)
  then show ?thesis using that t bt oth by blast
qed

lemma write_block:
  assumes r: "ready dsk dev_ok nblk s" and b: "b < nblk" and c: "card (dirty_blocks s) < NBUF"
    and d: "length (f (content dsk s b)) = BSIZE"
  obtains t where
    "kbind (bread rw 1 b) (\<lambda>i. kseq [kmod (upd_buf i (\<lambda>x. x\<lparr>b_data := f (b_data x)\<rparr>)), bwrite rw i, brelse i]) s = Ret () t"
    "ready dsk dev_ok nblk t" "wrote dsk b (f (content dsk s b)) s t"
proof -
  have h: "quiet s" "dev_ok s" "cache_ok dsk nblk s" "idle s" using r by (simp_all add: ready_def)
  obtain i t1 where t1: "bread rw 1 b s = Ret i t1" "locked_for dsk nblk b i s t1" "quiet t1" "dev_ok t1"
      "b_valid (bufs t1 ! i)" "b_data (bufs t1 ! i) = content dsk s b"
    by (rule bread_ok [OF h(1-3) b able_idle [OF h(3,4) c]])
  have l: "i < NBUF" "buf_for b (bufs t1 ! i)" "b_busy (bufs t1 ! i)" "cache_ok dsk nblk t1"
    "\<forall>j. j \<noteq> i \<longrightarrow> bufs t1 ! j = bufs s ! j"
    using t1(2) by (simp_all add: locked_for_def)
  let ?d = "f (content dsk s b)"
  obtain t2 where t2: "bwrite rw i (upd_buf i (\<lambda>x. x\<lparr>b_data := ?d\<rparr>) t1) = Ret () t2" "quiet t2" "dev_ok t2" "cache_ok dsk nblk t2"
    "wrote dsk b ?d t1 t2" "\<forall>j. j \<noteq> i \<longrightarrow> bufs t2 ! j = bufs t1 ! j"
    "buf_for b (bufs t2 ! i)" "b_busy (bufs t2 ! i)" "b_valid (bufs t2 ! i)" "b_data (bufs t2 ! i) = dsk t2 b"
    by (rule put_bwrite [OF t1(3,4) l(4,1,2,3) t1(5) d])
  obtain t where t: "brelse i t2 = Ret () t" "quiet t" "dev_ok t = dev_ok t2" "cache_ok dsk nblk t" "content dsk t = content dsk t2"
    "dsk t = dsk t2" "dwrites t = dwrites t2" "same_rest t2 t" "dirty_blocks t = dirty_blocks t2"
    "\<And>j. j \<noteq> i \<Longrightarrow> same_but_links (bufs t2 ! j) (bufs t ! j)"
    "same_but_links ((bufs t2 ! i)\<lparr>b_flags := b_flags (bufs t2 ! i) AND NOT B_BUSY\<rparr>) (bufs t ! i)"
    using brelse_ok [OF t2(2,4) l(1) t2(7,8)] t2(10) by metis
  have "\<forall>j. j \<noteq> i \<longrightarrow> bufs t2 ! j = bufs s ! j" using l(5) t2(6) by simp
  then have "idle t" by (rule idle_relock [OF h(4) _ t(10,11)])
  then have "ready dsk dev_ok nblk t" using t t2 by (simp add: ready_def)
  moreover have "wrote dsk b ?d s t"
    using t1(2) t2(5) t by (auto simp: wrote_def locked_for_def same_rest_def)
  moreover have "upd_buf i (\<lambda>x. x\<lparr>b_data := f (b_data x)\<rparr>) t1 = upd_buf i (\<lambda>x. x\<lparr>b_data := ?d\<rparr>) t1"
    using t1(6) by (simp add: upd_buf_def)
  ultimately show ?thesis using that t1(1) t2(1) t(1) by (simp add: prog_simps)
qed

text \<open>Block \<open>b\<close>, whose buffer is \<open>y\<close>, is copied to block \<open>a\<close>, whose buffer is \<open>x\<close>.\<close>

lemma copy_locked:
  assumes q: "quiet s" "dev_ok s" "cache_ok dsk nblk s" and x: "x < NBUF" "buf_for a (bufs s ! x)" "b_busy (bufs s ! x)" "b_valid (bufs s ! x)"
    and y: "y < NBUF" "buf_for b (bufs s ! y)" "b_busy (bufs s ! y)" "b_valid (bufs s ! y)" and xy: "x \<noteq> y" "a \<noteq> b"
    and sy: "b_dirty (bufs s ! y) \<or> b_data (bufs s ! y) = dsk s b"
    and oth: "\<forall>j < NBUF. j \<noteq> x \<longrightarrow> j \<noteq> y \<longrightarrow> \<not> b_busy (bufs s ! j)" and d: "d = b_data (bufs s ! y)"
  obtains t where "kseq [kmod (upd_buf x (\<lambda>z. z\<lparr>b_data := d\<rparr>)), bwrite rw x, brelse y, brelse x] s = Ret () t"
    "ready dsk dev_ok nblk t" "wrote dsk a (content dsk s b) s t"
proof -
  have one: "one_each (bufs s)" and "buf_ok (dsk s) nblk (bufs s ! y)" using q(3) y(1) by (simp_all add: cache_ok_def)
  then have ld: "length d = BSIZE" using d by (simp add: buf_ok_def)
  have c: "content dsk s b = d" using content_cached [OF one y(1,2,4)] d by simp
  obtain t2 where t2: "bwrite rw x (upd_buf x (\<lambda>x. x\<lparr>b_data := d\<rparr>) s) = Ret () t2" "quiet t2" "dev_ok t2" "cache_ok dsk nblk t2"
    "wrote dsk a d s t2" "\<forall>j. j \<noteq> x \<longrightarrow> bufs t2 ! j = bufs s ! j"
    "buf_for a (bufs t2 ! x)" "b_busy (bufs t2 ! x)" "b_valid (bufs t2 ! x)" "b_data (bufs t2 ! x) = dsk t2 a"
    by (rule put_bwrite [OF q x ld])
  have y2: "bufs t2 ! y = bufs s ! y" "dsk t2 b = dsk s b" using t2(5,6) xy by (auto simp: wrote_def)
  obtain t3 where t3: "brelse y t2 = Ret () t3" "quiet t3" "dev_ok t3 = dev_ok t2" "cache_ok dsk nblk t3" "content dsk t3 = content dsk t2"
    "dsk t3 = dsk t2" "dwrites t3 = dwrites t2" "same_rest t2 t3" "dirty_blocks t3 = dirty_blocks t2"
    "\<And>j. j \<noteq> y \<Longrightarrow> same_but_links (bufs t2 ! j) (bufs t3 ! j)"
    "same_but_links ((bufs t2 ! y)\<lparr>b_flags := b_flags (bufs t2 ! y) AND NOT B_BUSY\<rparr>) (bufs t3 ! y)"
    using brelse_ok [OF t2(2,4) y(1), of b] y sy unfolding y2 by metis
  note e = same_links_eqs [OF t3(10) [OF xy(1)]]
  have x3: "buf_for a (bufs t3 ! x)" "b_busy (bufs t3 ! x)" "b_data (bufs t3 ! x) = dsk t3 a"
    using t2(7,8,10) t3(6) by (simp_all add: e)
  obtain t where t: "brelse x t3 = Ret () t" "quiet t" "dev_ok t = dev_ok t3" "cache_ok dsk nblk t" "content dsk t = content dsk t3"
    "dsk t = dsk t3" "dwrites t = dwrites t3" "same_rest t3 t" "dirty_blocks t = dirty_blocks t3"
    "\<And>j. j \<noteq> x \<Longrightarrow> same_but_links (bufs t3 ! j) (bufs t ! j)"
    "same_but_links ((bufs t3 ! x)\<lparr>b_flags := b_flags (bufs t3 ! x) AND NOT B_BUSY\<rparr>) (bufs t ! x)"
    using brelse_ok [OF t3(2,4) x(1) x3(1,2)] x3(3) by metis
  have "idle t"
    unfolding idle_def
  proof (intro allI impI)
    fix j
    assume j: "j < NBUF"
    show "\<not> b_busy (bufs t ! j)"
    proof (cases "j = x")
      case True
      then show ?thesis using same_links_eqs(3) [OF t(11)] by simp
    next
      case False
      have "\<not> b_busy (bufs t3 ! j)"
        using same_links_eqs(3) [OF t3(11)] same_links_eqs(3) [OF t3(10), of j] t2(6) oth j False by (cases "j = y") auto
      then show ?thesis using same_links_eqs(3) [OF t(10) [OF False]] by simp
    qed
  qed
  then have "ready dsk dev_ok nblk t" using t t3 t2 by (simp add: ready_def)
  moreover have "wrote dsk a (content dsk s b) s t"
    using t2(5) t3 t c by (auto simp: wrote_def same_rest_def)
  ultimately show ?thesis using that t2(1) t3(1) t(1) by (simp add: prog_simps)
qed

lemma locked_sync:
  assumes "locked_for dsk nblk b i s t" and "cache_ok dsk nblk s" and "b_data (bufs t ! i) = content dsk s b"
    and "\<And>j. j < NBUF \<Longrightarrow> buf_for b (bufs s ! j) \<Longrightarrow> \<not> b_busy (bufs s ! j)"
  shows "b_dirty (bufs t ! i) \<or> b_data (bufs t ! i) = dsk t b"
proof (cases "b \<in> dirty_blocks s")
  case True
  then obtain j where j: "j < NBUF" "buf_for b (bufs t ! j)" "b_dirty (bufs t ! j)"
    using assms(1) unfolding locked_for_def dirty_blocks_def by blast
  then have "j = i" using assms(1) unfolding locked_for_def cache_ok_def one_each_def by blast
  then show ?thesis using j by simp
next
  case False
  then show ?thesis using content_clean [OF assms(2) assms(4) False] assms(1,3) by (simp add: locked_for_def)
qed

lemma read_two:
  assumes r: "ready dsk dev_ok nblk s" and ab: "a < nblk" "b < nblk" "a \<noteq> b" and c: "card (dirty_blocks s) < NBUF"
    and c2: "b \<in> dirty_blocks s \<or> card (dirty_blocks s) + 1 < NBUF"
  obtains i j t1 t where "bread rw 1 a s = Ret i t1" "bread rw 1 b t1 = Ret j t" "quiet t" "dev_ok t" "cache_ok dsk nblk t"
    "i < NBUF" "buf_for a (bufs t ! i)" "b_busy (bufs t ! i)" "b_valid (bufs t ! i)"
    "b_dirty (bufs t ! i) \<or> b_data (bufs t ! i) = dsk t a"
    "j < NBUF" "buf_for b (bufs t ! j)" "b_busy (bufs t ! j)" "b_valid (bufs t ! j)"
    "b_dirty (bufs t ! j) \<or> b_data (bufs t ! j) = dsk t b" "i \<noteq> j"
    "\<forall>k < NBUF. k \<noteq> i \<longrightarrow> k \<noteq> j \<longrightarrow> \<not> b_busy (bufs t ! k)" "same_store dsk s t"
proof -
  have h: "quiet s" "dev_ok s" "cache_ok dsk nblk s" "idle s" using r by (simp_all add: ready_def)
  obtain i t1 where t1: "bread rw 1 a s = Ret i t1" "locked_for dsk nblk a i s t1" "quiet t1" "dev_ok t1"
      "b_valid (bufs t1 ! i)" "b_data (bufs t1 ! i) = content dsk s a"
    by (rule bread_ok [OF h(1-3) ab(1) able_idle [OF h(3,4) c]])
  have l1: "i < NBUF" "buf_for a (bufs t1 ! i)" "b_busy (bufs t1 ! i)" "cache_ok dsk nblk t1"
    "\<forall>k. k \<noteq> i \<longrightarrow> bufs t1 ! k = bufs s ! k"
    using t1(2) by (simp_all add: locked_for_def)
  obtain j t where t: "bread rw 1 b t1 = Ret j t" "locked_for dsk nblk b j t1 t" "quiet t" "dev_ok t"
      "b_valid (bufs t ! j)" "b_data (bufs t ! j) = content dsk t1 b"
    by (rule bread_ok [OF t1(3,4) l1(4) ab(2) able_second [OF t1(2) h(4) ab(3) c2]])
  have l: "j < NBUF" "\<not> b_busy (bufs t1 ! j)" "buf_for b (bufs t ! j)" "b_busy (bufs t ! j)" "cache_ok dsk nblk t"
    "\<forall>k. k \<noteq> j \<longrightarrow> bufs t ! k = bufs t1 ! k" "dsk t = dsk t1"
    using t(2) by (simp_all add: locked_for_def)
  have ij: "i \<noteq> j" using l(2) l1(3) by auto
  then have ti: "bufs t ! i = bufs t1 ! i" using l(6) by simp
  have sa: "b_dirty (bufs t1 ! i) \<or> b_data (bufs t1 ! i) = dsk t1 a"
    using h(4) by (intro locked_sync [OF t1(2) h(3) t1(6)]) (simp add: idle_def)
  have "\<not> b_busy (bufs t1 ! k)" if "k < NBUF" "buf_for b (bufs t1 ! k)" for k
  proof -
    have "k \<noteq> i" using that l1(2) ab(3) by (auto simp: buf_for_def)
    then show ?thesis using that l1(5) h(4) by (simp add: idle_def)
  qed
  then have sb: "b_dirty (bufs t ! j) \<or> b_data (bufs t ! j) = dsk t b"
    by (rule locked_sync [OF t(2) l1(4) t(6)])
  have oth: "\<forall>k < NBUF. k \<noteq> i \<longrightarrow> k \<noteq> j \<longrightarrow> \<not> b_busy (bufs t ! k)" using l(6) l1(5) h(4) by (simp add: idle_def)
  have st: "same_store dsk s t" using t1(2) t(2) by (auto simp: same_store_def locked_for_def same_rest_def)
  show ?thesis
    by (rule that [OF t1(1) t(1,3,4) l(5) l1(1)]) (use l1 l t1(5) t(5) ti sa sb ij oth st in simp_all)
qed

lemma wrote_after: "same_store dsk s t \<Longrightarrow> wrote dsk b d t u \<Longrightarrow> wrote dsk b d s u"
  by (auto simp: same_store_def wrote_def same_rest_def)

lemma copy_to_first:
  assumes "ready dsk dev_ok nblk s" and "a < nblk" "b < nblk" "a \<noteq> b" and "card (dirty_blocks s) < NBUF"
    and "b \<in> dirty_blocks s \<or> card (dirty_blocks s) + 1 < NBUF"
  obtains t where "kbind (bread rw 1 a) (\<lambda>i. kbind (bread rw 1 b) (\<lambda>j. kbind (kget (\<lambda>s. b_data (bufs s ! j))) (\<lambda>d.
      kseq [kmod (upd_buf i (\<lambda>z. z\<lparr>b_data := d\<rparr>)), bwrite rw i, brelse j, brelse i]))) s = Ret () t"
    "ready dsk dev_ok nblk t" "wrote dsk a (content dsk s b) s t"
proof -
  obtain i j t1 t2 where t2: "bread rw 1 a s = Ret i t1" "bread rw 1 b t1 = Ret j t2" "quiet t2" "dev_ok t2" "cache_ok dsk nblk t2"
    "i < NBUF" "buf_for a (bufs t2 ! i)" "b_busy (bufs t2 ! i)" "b_valid (bufs t2 ! i)"
    "b_dirty (bufs t2 ! i) \<or> b_data (bufs t2 ! i) = dsk t2 a"
    "j < NBUF" "buf_for b (bufs t2 ! j)" "b_busy (bufs t2 ! j)" "b_valid (bufs t2 ! j)"
    "b_dirty (bufs t2 ! j) \<or> b_data (bufs t2 ! j) = dsk t2 b" "i \<noteq> j"
    "\<forall>k < NBUF. k \<noteq> i \<longrightarrow> k \<noteq> j \<longrightarrow> \<not> b_busy (bufs t2 ! k)" "same_store dsk s t2"
    by (rule read_two [OF assms])
  obtain t where t: "kseq [kmod (upd_buf i (\<lambda>z. z\<lparr>b_data := b_data (bufs t2 ! j)\<rparr>)), bwrite rw i, brelse j, brelse i] t2 = Ret () t"
    "ready dsk dev_ok nblk t" "wrote dsk a (content dsk t2 b) t2 t"
    by (rule copy_locked [OF t2(3-9) t2(11-14) t2(16) assms(4) t2(15) t2(17) refl])
  show ?thesis
    by (rule that [OF _ t(2)]) (use t2(1,2) t(1) wrote_after [OF t2(18) t(3)] t2(18) in \<open>simp_all add: kbind_apply kget_apply same_store_def\<close>)
qed

lemma copy_to_second:
  assumes "ready dsk dev_ok nblk s" and "a < nblk" "b < nblk" "a \<noteq> b" and "card (dirty_blocks s) < NBUF"
    and "b \<in> dirty_blocks s \<or> card (dirty_blocks s) + 1 < NBUF"
  obtains t where "kbind (bread rw 1 a) (\<lambda>i. kbind (bread rw 1 b) (\<lambda>j. kbind (kget (\<lambda>s. b_data (bufs s ! i))) (\<lambda>d.
      kseq [kmod (upd_buf j (\<lambda>z. z\<lparr>b_data := d\<rparr>)), bwrite rw j, brelse i, brelse j]))) s = Ret () t"
    "ready dsk dev_ok nblk t" "wrote dsk b (content dsk s a) s t"
proof -
  obtain i j t1 t2 where t2: "bread rw 1 a s = Ret i t1" "bread rw 1 b t1 = Ret j t2" "quiet t2" "dev_ok t2" "cache_ok dsk nblk t2"
    "i < NBUF" "buf_for a (bufs t2 ! i)" "b_busy (bufs t2 ! i)" "b_valid (bufs t2 ! i)"
    "b_dirty (bufs t2 ! i) \<or> b_data (bufs t2 ! i) = dsk t2 a"
    "j < NBUF" "buf_for b (bufs t2 ! j)" "b_busy (bufs t2 ! j)" "b_valid (bufs t2 ! j)"
    "b_dirty (bufs t2 ! j) \<or> b_data (bufs t2 ! j) = dsk t2 b" "i \<noteq> j"
    "\<forall>k < NBUF. k \<noteq> i \<longrightarrow> k \<noteq> j \<longrightarrow> \<not> b_busy (bufs t2 ! k)" "same_store dsk s t2"
    by (rule read_two [OF assms])
  have oth: "\<forall>k < NBUF. k \<noteq> j \<longrightarrow> k \<noteq> i \<longrightarrow> \<not> b_busy (bufs t2 ! k)" using t2(17) by blast
  obtain t where t: "kseq [kmod (upd_buf j (\<lambda>z. z\<lparr>b_data := b_data (bufs t2 ! i)\<rparr>)), bwrite rw j, brelse i, brelse j] t2 = Ret () t"
    "ready dsk dev_ok nblk t" "wrote dsk b (content dsk t2 a) t2 t"
    by (rule copy_locked [OF t2(3-5) t2(11-14) t2(6-9) t2(16) [symmetric] assms(4) [symmetric] t2(10) oth refl])
  show ?thesis
    by (rule that [OF _ t(2)]) (use t2(1,2) t(1) wrote_after [OF t2(18) t(3)] t2(18) in \<open>simp_all add: kbind_apply kget_apply same_store_def\<close>)
qed

end

end
