(* ===== verification/Log.thy ===== *)
theory Log
  imports Ondisk Blockio
begin

text \<open>
  The redo log \<open>src/HW3/log.c\<close>. A file-system call brackets its writes by \<open>begin_op\<close>
  and \<open>end_op\<close>; the last \<open>end_op\<close> commits: the changed blocks go to the log, then the
  header (the commit point), then to their home blocks, then the header is cleared. After
  a crash \<open>initlog\<close> copies a committed log to the home blocks. The header is kept in
  memory as \<open>lh_n\<close> and \<open>lh_block\<close>. \<open>begin_op\<close> may sleep; it then ends in the context switch
  and \<open>begin_op_resume\<close> is its continuation.
\<close>

section \<open>State\<close>

definition MAXOPBLOCKS :: nat where "MAXOPBLOCKS = 10"
definition LOGSIZE :: nat where "LOGSIZE = MAXOPBLOCKS * 3"

record klog = kdisk +
  lg_start :: int
  lg_size :: int
  lg_outstanding :: int
  lg_committing :: bool
  lg_dev :: u32
  lh_n :: int
  lh_block :: "u32 list"

section \<open>The header and the copies\<close>

definition readsb :: "(nat \<Rightarrow> ('z kdisk_scheme, unit) prog) \<Rightarrow> u32 \<Rightarrow> ('z kdisk_scheme, superblock) prog" where
  "readsb rw dev =
     kbind (bread rw dev 1) (\<lambda>bp.
     kbind (kget (\<lambda>s. sb_of (b_data (bufs s ! bp)))) (\<lambda>sb.
     kbind (brelse bp) (\<lambda>_. kret sb)))"

definition log_block :: "int \<Rightarrow> nat \<Rightarrow> u32" where
  "log_block start tail = word_of_int (start + int tail + 1)"

definition install_one :: "(nat \<Rightarrow> ('z klog_scheme, unit) prog) \<Rightarrow> nat \<Rightarrow> ('z klog_scheme, unit) prog" where
  "install_one rw tail =
     kbind (kget lg_dev) (\<lambda>dev.
     kbind (kget lg_start) (\<lambda>start.
     kbind (kget (\<lambda>s. lh_block s ! tail)) (\<lambda>home.
     kbind (bread rw dev (log_block start tail)) (\<lambda>lbuf.
     kbind (bread rw dev home) (\<lambda>dbuf.
     kbind (kget (\<lambda>s. b_data (bufs s ! lbuf))) (\<lambda>d.
     kseq [kmod (upd_buf dbuf (\<lambda>b. b\<lparr>b_data := d\<rparr>)),
           bwrite rw dbuf,
           brelse lbuf,
           brelse dbuf]))))))"

definition install_trans :: "(nat \<Rightarrow> ('z klog_scheme, unit) prog) \<Rightarrow> ('z klog_scheme, unit) prog" where
  "install_trans rw = kbind (kget lh_n) (\<lambda>n. kfor [0..<nat n] (install_one rw))"

text \<open>
  The count in the header is trusted: the C code copies as many entries as it says, and
  more than \<open>LOGSIZE\<close> of them would run over the array; here such entries are dropped.
\<close>

definition head_of :: "u8 list \<Rightarrow> 'z klog_scheme \<Rightarrow> 'z klog_scheme" where
  "head_of d s = s\<lparr>lh_n := sint (get32 d 0),
     lh_block := map (\<lambda>i. if int i < sint (get32 d 0) then get32 d (4 + 4 * i) else lh_block s ! i) [0..<LOGSIZE]\<rparr>"

definition read_head :: "(nat \<Rightarrow> ('z klog_scheme, unit) prog) \<Rightarrow> ('z klog_scheme, unit) prog" where
  "read_head rw =
     kbind (kget lg_dev) (\<lambda>dev.
     kbind (kget lg_start) (\<lambda>start.
     kbind (bread rw dev (word_of_int start)) (\<lambda>buf.
     kbind (kget (\<lambda>s. b_data (bufs s ! buf))) (\<lambda>d.
     kseq [kmod (head_of d),
           brelse buf]))))"

definition put_head :: "int \<Rightarrow> u32 list \<Rightarrow> u8 list \<Rightarrow> u8 list" where
  "put_head n bs d = put_words (put32 d 0 (word_of_int n)) 4 (take (nat n) bs)"

definition write_head :: "(nat \<Rightarrow> ('z klog_scheme, unit) prog) \<Rightarrow> ('z klog_scheme, unit) prog" where
  "write_head rw =
     kbind (kget lg_dev) (\<lambda>dev.
     kbind (kget lg_start) (\<lambda>start.
     kbind (kget lh_n) (\<lambda>n.
     kbind (kget lh_block) (\<lambda>bs.
     kbind (bread rw dev (word_of_int start)) (\<lambda>buf.
     kseq [kmod (upd_buf buf (\<lambda>b. b\<lparr>b_data := put_head n bs (b_data b)\<rparr>)),
           bwrite rw buf,
           brelse buf])))))"

definition recover_from_log :: "(nat \<Rightarrow> ('z klog_scheme, unit) prog) \<Rightarrow> ('z klog_scheme, unit) prog" where
  "recover_from_log rw =
     kseq [read_head rw,
           install_trans rw,
           kmod (\<lambda>s. s\<lparr>lh_n := 0\<rparr>),
           write_head rw]"

definition initlog :: "(nat \<Rightarrow> ('z klog_scheme, unit) prog) \<Rightarrow> u32 \<Rightarrow> ('z klog_scheme, unit) prog" where
  "initlog rw dev =
     kseq [panic_if (\<lambda>_. BSIZE \<le> 4 + 4 * LOGSIZE) ''initlog: too big logheader'',
           kbind (readsb rw dev) (\<lambda>sb.
             kmod (\<lambda>s. s\<lparr>lg_start := sint (sb_logstart sb), lg_size := sint (sb_nlog sb), lg_dev := dev\<rparr>)),
           recover_from_log rw]"

section \<open>Transactions\<close>

definition begin_try :: "('z klog_scheme, unit) prog" where
  "begin_try =
     kbind (kget lg_committing) (\<lambda>c.
     kbind (kget lh_n) (\<lambda>n.
     kbind (kget lg_outstanding) (\<lambda>out.
       if c then sleep (Some LogChan) (Some LogLock)
       else if n + (out + 1) * int MAXOPBLOCKS > int LOGSIZE then sleep (Some LogChan) (Some LogLock)
       else kseq [kmod (\<lambda>s. s\<lparr>lg_outstanding := lg_outstanding s + 1\<rparr>), release LogLock])))"

definition begin_op :: "('z klog_scheme, unit) prog" where
  "begin_op = kseq [acquire LogLock, begin_try]"

definition begin_op_resume :: "('z klog_scheme, unit) prog" where
  "begin_op_resume = kseq [sleep_resume LogLock, begin_try]"

definition write_one :: "(nat \<Rightarrow> ('z klog_scheme, unit) prog) \<Rightarrow> nat \<Rightarrow> ('z klog_scheme, unit) prog" where
  "write_one rw tail =
     kbind (kget lg_dev) (\<lambda>dev.
     kbind (kget lg_start) (\<lambda>start.
     kbind (kget (\<lambda>s. lh_block s ! tail)) (\<lambda>home.
     kbind (bread rw dev (log_block start tail)) (\<lambda>to.
     kbind (bread rw dev home) (\<lambda>from.
     kbind (kget (\<lambda>s. b_data (bufs s ! from))) (\<lambda>d.
     kseq [kmod (upd_buf to (\<lambda>b. b\<lparr>b_data := d\<rparr>)),
           bwrite rw to,
           brelse from,
           brelse to]))))))"

definition write_log :: "(nat \<Rightarrow> ('z klog_scheme, unit) prog) \<Rightarrow> ('z klog_scheme, unit) prog" where
  "write_log rw = kbind (kget lh_n) (\<lambda>n. kfor [0..<nat n] (write_one rw))"

definition commit :: "(nat \<Rightarrow> ('z klog_scheme, unit) prog) \<Rightarrow> ('z klog_scheme, unit) prog" where
  "commit rw =
     kbind (kget lh_n) (\<lambda>n.
     kwhen (n > 0)
       (kseq [write_log rw,
              write_head rw,
              install_trans rw,
              kmod (\<lambda>s. s\<lparr>lh_n := 0\<rparr>),
              write_head rw]))"

definition end_op :: "(nat \<Rightarrow> ('z klog_scheme, unit) prog) \<Rightarrow> ('z klog_scheme, unit) prog" where
  "end_op rw =
     kbind (kseq [acquire LogLock,
                  kmod (\<lambda>s. s\<lparr>lg_outstanding := lg_outstanding s - 1\<rparr>),
                  panic_if lg_committing ''log.committing'']) (\<lambda>_.
     kbind (kget (\<lambda>s. lg_outstanding s = 0)) (\<lambda>do_commit.
     kseq [if do_commit then kmod (\<lambda>s. s\<lparr>lg_committing := True\<rparr>) else wakeup (Some LogChan),
           release LogLock,
           kwhen do_commit
             (kseq [commit rw,
                    acquire LogLock,
                    kmod (\<lambda>s. s\<lparr>lg_committing := False\<rparr>),
                    wakeup (Some LogChan),
                    release LogLock])]))"

text \<open>The index of the block in the header, or the number of entries when it is not there.\<close>

fun log_index :: "u32 \<Rightarrow> u32 list \<Rightarrow> nat" where
  "log_index b [] = 0"
| "log_index b (x # xs) = (if x = b then 0 else Suc (log_index b xs))"

definition log_add :: "u32 \<Rightarrow> 'z klog_scheme \<Rightarrow> 'z klog_scheme" where
  "log_add b s =
     (let i = log_index b (take (nat (lh_n s)) (lh_block s)) in
      s\<lparr>lh_block := (lh_block s)[i := b], lh_n := (if int i = lh_n s then lh_n s + 1 else lh_n s)\<rparr>)"

definition log_write :: "nat \<Rightarrow> ('z klog_scheme, unit) prog" where
  "log_write b =
     kseq [panic_if (\<lambda>s. lh_n s \<ge> int LOGSIZE \<or> lh_n s \<ge> lg_size s - 1) ''too big a transaction'',
           panic_if (\<lambda>s. lg_outstanding s < 1) ''log_write outside of trans'',
           acquire LogLock,
           kmod (\<lambda>s. log_add (b_blockno (bufs s ! b)) s),
           kmod (upd_buf b (\<lambda>x. x\<lparr>b_flags := b_flags x OR B_DIRTY\<rparr>)),
           release LogLock]"

section \<open>Sequences of block writes\<close>

definition apply_ws :: "(u32 \<Rightarrow> u8 list) \<Rightarrow> (u32 \<times> u32 \<times> u8 list) list \<Rightarrow> u32 \<Rightarrow> u8 list" where
  "apply_ws D ws = foldl (\<lambda>D (dev, b, d). D(b := d)) D ws"

definition wrote_all :: "('z kdisk_scheme \<Rightarrow> u32 \<Rightarrow> u8 list) \<Rightarrow> (u32 \<times> u32 \<times> u8 list) list \<Rightarrow> 'z kdisk_scheme \<Rightarrow> 'z kdisk_scheme \<Rightarrow> bool" where
  "wrote_all dsk ws s t \<longleftrightarrow> content dsk t = apply_ws (content dsk s) ws \<and> dsk t = apply_ws (dsk s) ws \<and>
     dwrites t = dwrites s @ ws \<and> dirty_blocks t = dirty_blocks s - fst ` snd ` set ws \<and> same_rest s t"

lemma apply_ws_simps [simp]:
  "apply_ws D [] = D" "apply_ws D ((dev, b, d) # ws) = apply_ws (D(b := d)) ws"
  "apply_ws D (ws @ vs) = apply_ws (apply_ws D ws) vs"
  by (simp_all add: apply_ws_def)

lemma apply_ws_other: "b \<notin> fst ` snd ` set ws \<Longrightarrow> apply_ws D ws b = D b"
  by (induction ws arbitrary: D) (auto simp: image_iff)

lemma apply_ws_map:
  assumes "distinct (map f xs)" and "x \<in> set xs"
  shows "apply_ws D (map (\<lambda>i. (1, f i, g i)) xs) (f x) = g x"
  using assms
proof (induction xs arbitrary: D)
  case (Cons y ys)
  then show ?case
  proof (cases "x = y")
    case True
    then have "f x \<notin> fst ` snd ` set (map (\<lambda>i. (1 :: u32, f i, g i)) ys)" using Cons.prems by auto
    then show ?thesis using True by (simp add: apply_ws_other)
  qed auto
qed simp

lemma wrote_all_Nil [simp]: "wrote_all dsk [] s s"
  by (simp add: wrote_all_def same_rest_def)

lemma wrote_all_trans: "wrote_all dsk ws s t \<Longrightarrow> wrote_all dsk vs t u \<Longrightarrow> wrote_all dsk (ws @ vs) s u"
  by (auto simp: wrote_all_def same_rest_def)

lemma wrote_all_one: "wrote dsk b d s t \<Longrightarrow> wrote_all dsk [(1, b, d)] s t"
  by (simp add: wrote_all_def wrote_def)

lemma same_store_wrote: "same_store dsk s t \<Longrightarrow> wrote_all dsk [] s t"
  by (simp add: wrote_all_def same_store_def)

lemma log_more:
  assumes "same_rest s t"
  shows "lg_start t = lg_start s" "lg_size t = lg_size s" "lg_outstanding t = lg_outstanding s" "lg_committing t = lg_committing s"
    "lg_dev t = lg_dev s" "lh_n t = lh_n s" "lh_block t = lh_block s"
  using assms by (cases s; cases t; simp add: same_rest_def)+

lemma same_rest_lh: "same_rest s t \<Longrightarrow> same_rest (s\<lparr>lh_n := x\<rparr>) (t\<lparr>lh_n := x\<rparr>)"
  by (cases s; cases t) (simp add: same_rest_def)

section \<open>A well-formed log\<close>

definition in_log :: "int \<Rightarrow> int \<Rightarrow> u32 \<Rightarrow> bool" where
  "in_log start sz b \<longleftrightarrow> start \<le> uint b \<and> uint b < start + sz"

definition log_geom :: "u32 \<Rightarrow> int \<Rightarrow> int \<Rightarrow> bool" where
  "log_geom nblk start sz \<longleftrightarrow> 0 \<le> start \<and> 1 \<le> sz \<and> start + sz \<le> uint nblk \<and> uint nblk \<le> 2 ^ 31"

definition blocks_ok :: "u32 \<Rightarrow> int \<Rightarrow> int \<Rightarrow> u32 list \<Rightarrow> bool" where
  "blocks_ok nblk start sz bs \<longleftrightarrow> length bs \<le> LOGSIZE \<and> int (length bs) < sz \<and> distinct bs \<and>
     (\<forall>b \<in> set bs. b < nblk \<and> \<not> in_log start sz b)"

lemma log_block_uint:
  assumes "log_geom nblk start sz" and "int tail < sz - 1"
  shows "uint (log_block start tail) = start + int tail + 1"
  unfolding log_block_def uint_word_of_int
  using assms by (intro mod_pos_pos_trivial) (simp_all add: log_geom_def)

lemma head_uint: "log_geom nblk start sz \<Longrightarrow> uint (word_of_int start :: u32) = start"
  unfolding uint_word_of_int by (intro mod_pos_pos_trivial) (simp_all add: log_geom_def)

lemma log_block_facts:
  assumes "log_geom nblk start sz" and "int tail < sz - 1"
  shows "log_block start tail < nblk" "in_log start sz (log_block start tail)" "log_block start tail \<noteq> word_of_int start"
proof -
  note u = log_block_uint [OF assms]
  show "log_block start tail < nblk" "in_log start sz (log_block start tail)"
    using u assms by (auto simp: word_less_def log_geom_def in_log_def)
  show "log_block start tail \<noteq> word_of_int start"
    using u head_uint [OF assms(1)] by auto
qed

lemma head_facts:
  assumes "log_geom nblk start sz"
  shows "(word_of_int start :: u32) < nblk" "in_log start sz (word_of_int start)"
  using head_uint [OF assms] assms by (auto simp: word_less_def log_geom_def in_log_def)

lemma log_blocks_distinct:
  assumes "log_geom nblk start sz" and "int n < sz"
  shows "distinct (map (log_block start) [0..<n])"
proof -
  have "inj_on (log_block start) {0..<n}"
  proof (rule inj_onI)
    fix i j
    assume h: "i \<in> {0..<n}" "j \<in> {0..<n}" "log_block start i = log_block start j"
    have "uint (log_block start i) = start + int i + 1" using h(1) assms by (intro log_block_uint) auto
    moreover have "uint (log_block start j) = start + int j + 1" using h(2) assms by (intro log_block_uint) auto
    ultimately have "start + int i + 1 = start + int j + 1" using h(3) by metis
    then show "i = j" by simp
  qed
  then show ?thesis by (simp add: distinct_map)
qed

text \<open>The blocks the header in memory names.\<close>

definition logged :: "'z klog_scheme \<Rightarrow> u32 list" where
  "logged s = take (nat (lh_n s)) (lh_block s)"

definition log_ok :: "u32 \<Rightarrow> 'z klog_scheme \<Rightarrow> bool" where
  "log_ok nblk s \<longleftrightarrow> lg_dev s = 1 \<and> log_geom nblk (lg_start s) (lg_size s) \<and> length (lh_block s) = LOGSIZE \<and>
     0 \<le> lh_n s \<and> lh_n s \<le> int LOGSIZE \<and> blocks_ok nblk (lg_start s) (lg_size s) (logged s)"

lemma log_ok_length: "log_ok nblk s \<Longrightarrow> length (logged s) = nat (lh_n s)"
  by (simp add: log_ok_def logged_def min_absorb2 nat_le_iff)

lemma log_ok_same: "same_rest s t \<Longrightarrow> log_ok nblk t = log_ok nblk s"
  by (simp add: log_ok_def logged_def log_more [of s t])

lemma kfor_append: "kfor (xs @ ys) f s = kbind (kfor xs f) (\<lambda>_. kfor ys f) s"
proof (induction xs arbitrary: s)
  case (Cons x xs)
  show ?case by (cases "f x s") (simp_all add: kbind_apply Cons)
qed simp

definition log_ws :: "int \<Rightarrow> (u32 \<Rightarrow> u8 list) \<Rightarrow> u32 list \<Rightarrow> (u32 \<times> u32 \<times> u8 list) list" where
  "log_ws start C bs = map (\<lambda>k. (1, log_block start k, C (bs ! k))) [0..<length bs]"

definition home_ws :: "int \<Rightarrow> (u32 \<Rightarrow> u8 list) \<Rightarrow> u32 list \<Rightarrow> (u32 \<times> u32 \<times> u8 list) list" where
  "home_ws start C bs = map (\<lambda>k. (1, bs ! k, C (log_block start k))) [0..<length bs]"

locale log_disk = disk_driver rw dsk dev_ok nblk
  for rw :: "nat \<Rightarrow> ('z klog_scheme, unit) prog" and dsk :: "'z klog_scheme \<Rightarrow> u32 \<Rightarrow> u8 list"
    and dev_ok :: "'z klog_scheme \<Rightarrow> bool" and nblk :: u32
begin

lemma kfor_wrote_all:
  assumes "\<And>k s. k < n \<Longrightarrow> ready dsk dev_ok nblk s \<Longrightarrow> wrote_all dsk (map w [0..<k]) s0 s \<Longrightarrow>
      \<exists>t. f k s = Ret () t \<and> ready dsk dev_ok nblk t \<and> wrote_all dsk [w k] s t"
    and "ready dsk dev_ok nblk s0"
  shows "\<exists>t. kfor [0..<n] f s0 = Ret () t \<and> ready dsk dev_ok nblk t \<and> wrote_all dsk (map w [0..<n]) s0 t"
  using assms(1)
proof (induction n)
  case 0
  then show ?case using assms(2) by simp
next
  case (Suc n)
  have "\<exists>t. kfor [0..<n] f s0 = Ret () t \<and> ready dsk dev_ok nblk t \<and> wrote_all dsk (map w [0..<n]) s0 t"
    using Suc.prems by (intro Suc.IH) simp_all
  then obtain s where s: "kfor [0..<n] f s0 = Ret () s" "ready dsk dev_ok nblk s" "wrote_all dsk (map w [0..<n]) s0 s" by blast
  obtain t where t: "f n s = Ret () t" "ready dsk dev_ok nblk t" "wrote_all dsk [w n] s t"
    using Suc.prems [of n s] s by auto
  have "kfor ([0..<n] @ [n]) f s0 = Ret () t" using s(1) t(1) by (simp add: kfor_append prog_simps)
  then show ?case using t(2) wrote_all_trans [OF s(3) t(3)] by auto
qed

lemma write_log_ok:
  assumes r: "ready dsk dev_ok nblk s0" and lo: "log_ok nblk s0" and d: "set (logged s0) \<subseteq> dirty_blocks s0"
    and c: "card (dirty_blocks s0) < NBUF"
  shows "\<exists>t. write_log rw s0 = Ret () t \<and> ready dsk dev_ok nblk t \<and>
    wrote_all dsk (log_ws (lg_start s0) (content dsk s0) (logged s0)) s0 t"
proof -
  define w where "w = (\<lambda>k. (1 :: u32, log_block (lg_start s0) k, content dsk s0 (logged s0 ! k)))"
  have ln: "length (logged s0) = nat (lh_n s0)" by (rule log_ok_length [OF lo])
  have g: "log_geom nblk (lg_start s0) (lg_size s0)" "int (nat (lh_n s0)) < lg_size s0" "lg_dev s0 = 1"
    using lo ln by (auto simp: log_ok_def blocks_ok_def)
  have "\<exists>t. kfor [0..<nat (lh_n s0)] (write_one rw) s0 = Ret () t \<and> ready dsk dev_ok nblk t \<and>
      wrote_all dsk (map w [0..<nat (lh_n s0)]) s0 t"
  proof (rule kfor_wrote_all [OF _ r])
    fix k s
    assume k: "k < nat (lh_n s0)" and rs: "ready dsk dev_ok nblk s" and ws: "wrote_all dsk (map w [0..<k]) s0 s"
    let ?a = "log_block (lg_start s0) k" and ?b = "logged s0 ! k"
    have lb: "in_log (lg_start s0) (lg_size s0) (log_block (lg_start s0) j)" if "j \<le> k" for j
      using that k g by (intro log_block_facts(2) [OF g(1)]) linarith
    have a: "?a < nblk" using k g by (intro log_block_facts(1) [OF g(1)]) linarith
    have bm: "?b \<in> set (logged s0)" using k ln by simp
    then have b: "?b < nblk" "\<not> in_log (lg_start s0) (lg_size s0) ?b" "?b \<in> dirty_blocks s0"
      using lo d by (auto simp: log_ok_def blocks_ok_def)
    have nw: "?b \<notin> fst ` snd ` set (map w [0..<k])" using lb b(2) by (fastforce simp: w_def)
    have s: "content dsk s ?b = content dsk s0 ?b" "?b \<in> dirty_blocks s" "dirty_blocks s \<subseteq> dirty_blocks s0" "same_rest s0 s"
      using ws apply_ws_other [OF nw] b(3) nw by (auto simp: wrote_all_def)
    have cs: "card (dirty_blocks s) < NBUF" using card_mono [OF _ s(3)] c by simp
    have ab: "?a \<noteq> ?b" using lb [of k] b(2) by auto
    have ls: "lg_dev s = 1" "lg_start s = lg_start s0" "lh_block s ! k = ?b"
      using log_more [OF s(4)] g(3) k lo by (simp_all add: logged_def)
    obtain t where t: "kbind (bread rw 1 ?a) (\<lambda>i. kbind (bread rw 1 ?b) (\<lambda>j. kbind (kget (\<lambda>s. b_data (bufs s ! j))) (\<lambda>d.
      kseq [kmod (upd_buf i (\<lambda>z. z\<lparr>b_data := d\<rparr>)), bwrite rw i, brelse j, brelse i]))) s = Ret () t"
      "ready dsk dev_ok nblk t" "wrote dsk ?a (content dsk s ?b) s t"
      by (rule copy_to_first [OF rs a b(1) ab cs disjI1 [OF s(2)]])
    have "write_one rw k s = Ret () t" using t(1) ls by (simp add: write_one_def)
    then show "\<exists>t. write_one rw k s = Ret () t \<and> ready dsk dev_ok nblk t \<and> wrote_all dsk [w k] s t"
      using t(2) wrote_all_one [OF t(3)] s(1) by (auto simp: w_def)
  qed
  then show ?thesis by (simp add: write_log_def log_ws_def ln w_def)
qed

lemma install_trans_ok:
  assumes r: "ready dsk dev_ok nblk s0" and lo: "log_ok nblk s0" and c: "card (dirty_blocks s0) < NBUF"
    and d: "set (logged s0) \<subseteq> dirty_blocks s0 \<or> card (dirty_blocks s0) + 1 < NBUF"
  shows "\<exists>t. install_trans rw s0 = Ret () t \<and> ready dsk dev_ok nblk t \<and>
    wrote_all dsk (home_ws (lg_start s0) (content dsk s0) (logged s0)) s0 t"
proof -
  define w where "w = (\<lambda>k. (1 :: u32, logged s0 ! k, content dsk s0 (log_block (lg_start s0) k)))"
  have ln: "length (logged s0) = nat (lh_n s0)" by (rule log_ok_length [OF lo])
  have g: "log_geom nblk (lg_start s0) (lg_size s0)" "int (nat (lh_n s0)) < lg_size s0" "lg_dev s0 = 1" "distinct (logged s0)"
    using lo ln by (auto simp: log_ok_def blocks_ok_def)
  have hb: "logged s0 ! j < nblk" "\<not> in_log (lg_start s0) (lg_size s0) (logged s0 ! j)" if "j < nat (lh_n s0)" for j
    using lo that ln by (auto simp: log_ok_def blocks_ok_def)
  have "\<exists>t. kfor [0..<nat (lh_n s0)] (install_one rw) s0 = Ret () t \<and> ready dsk dev_ok nblk t \<and>
      wrote_all dsk (map w [0..<nat (lh_n s0)]) s0 t"
  proof (rule kfor_wrote_all [OF _ r])
    fix k s
    assume k: "k < nat (lh_n s0)" and rs: "ready dsk dev_ok nblk s" and ws: "wrote_all dsk (map w [0..<k]) s0 s"
    let ?a = "log_block (lg_start s0) k" and ?b = "logged s0 ! k"
    have a: "?a < nblk" "in_log (lg_start s0) (lg_size s0) ?a"
      using k g by (intro log_block_facts [OF g(1)], linarith)+
    have na: "?a \<notin> fst ` snd ` set (map w [0..<k])" using a(2) hb(2) k by (fastforce simp: w_def)
    have nb: "?b \<notin> fst ` snd ` set (map w [0..<k])"
      using g(4) k ln by (auto simp: w_def nth_eq_iff_index_eq)
    have s: "content dsk s ?a = content dsk s0 ?a" "dirty_blocks s \<subseteq> dirty_blocks s0" "same_rest s0 s"
      "?b \<in> dirty_blocks s0 \<Longrightarrow> ?b \<in> dirty_blocks s"
      using ws apply_ws_other [OF na] nb by (auto simp: wrote_all_def)
    have cs: "card (dirty_blocks s) \<le> card (dirty_blocks s0)" using card_mono [OF _ s(2)] by simp
    have bd: "?b \<in> dirty_blocks s \<or> card (dirty_blocks s) + 1 < NBUF"
      using d cs s(4) k ln by (metis add_le_mono1 nth_mem order_le_less_trans subsetD)
    have ab: "?a \<noteq> ?b" using a(2) hb(2) [OF k] by auto
    have ls: "lg_dev s = 1" "lg_start s = lg_start s0" "lh_block s ! k = ?b"
      using log_more [OF s(3)] g(3) k lo by (simp_all add: logged_def)
    obtain t where t: "kbind (bread rw 1 ?a) (\<lambda>i. kbind (bread rw 1 ?b) (\<lambda>j. kbind (kget (\<lambda>s. b_data (bufs s ! i))) (\<lambda>d.
      kseq [kmod (upd_buf j (\<lambda>z. z\<lparr>b_data := d\<rparr>)), bwrite rw j, brelse i, brelse j]))) s = Ret () t"
      "ready dsk dev_ok nblk t" "wrote dsk ?b (content dsk s ?a) s t"
      using copy_to_second [OF rs a(1) hb(1) [OF k] ab _ bd] cs c by (metis (no_types, lifting) order_le_less_trans)
    have "install_one rw k s = Ret () t" using t(1) ls by (simp add: install_one_def)
    then show "\<exists>t. install_one rw k s = Ret () t \<and> ready dsk dev_ok nblk t \<and> wrote_all dsk [w k] s t"
      using t(2) wrote_all_one [OF t(3)] s(1) by (auto simp: w_def)
  qed
  then show ?thesis by (simp add: install_trans_def home_ws_def ln w_def)
qed

lemma put_head_length: "length d = BSIZE \<Longrightarrow> length bs \<le> LOGSIZE \<Longrightarrow> length (put_head n bs d) = BSIZE"
  by (simp add: put_head_def BSIZE_def LOGSIZE_def MAXOPBLOCKS_def)

lemma content_length:
  assumes "ready dsk dev_ok nblk s" and "b < nblk"
  shows "length (content dsk s b) = BSIZE"
proof -
  have co: "cache_ok dsk nblk s" and "dev_ok s" and one: "one_each (bufs s)" using assms(1) by (auto simp: ready_def cache_ok_def)
  show ?thesis
    using one
  proof (cases rule: content_cases [of s b dsk])
    case (cached i)
    then show ?thesis using co by (simp add: cache_ok_def buf_ok_def)
  next
    case disk
    then show ?thesis using dsk_len [OF \<open>dev_ok s\<close> assms(2)] by simp
  qed
qed

lemma write_head_ok:
  assumes r: "ready dsk dev_ok nblk s" and g: "lg_dev s = 1" "log_geom nblk (lg_start s) (lg_size s)" "length (lh_block s) = LOGSIZE"
    and c: "card (dirty_blocks s) < NBUF"
  shows "\<exists>t. write_head rw s = Ret () t \<and> ready dsk dev_ok nblk t \<and>
    wrote_all dsk [(1, word_of_int (lg_start s), put_head (lh_n s) (lh_block s) (content dsk s (word_of_int (lg_start s))))] s t"
proof -
  let ?h = "word_of_int (lg_start s) :: u32" and ?f = "put_head (lh_n s) (lh_block s)"
  have h: "?h < nblk" using head_facts [OF g(2)] by simp
  have l: "length (?f (content dsk s ?h)) = BSIZE" using put_head_length [OF content_length [OF r h]] g(3) by simp
  obtain t where "kbind (bread rw 1 ?h) (\<lambda>i. kseq [kmod (upd_buf i (\<lambda>x. x\<lparr>b_data := ?f (b_data x)\<rparr>)), bwrite rw i, brelse i]) s = Ret () t"
    "ready dsk dev_ok nblk t" "wrote dsk ?h (?f (content dsk s ?h)) s t"
    by (rule write_block [where f = ?f, OF r h c l])
  then show ?thesis using wrote_all_one g(1) by (auto simp: write_head_def)
qed

lemma lh_frame [simp]:
  "dsk (s\<lparr>lh_n := x\<rparr>) = dsk s" "dev_ok (s\<lparr>lh_n := x\<rparr>) = dev_ok s" "content dsk (s\<lparr>lh_n := x\<rparr>) = content dsk s"
  "dirty_blocks (s\<lparr>lh_n := x\<rparr>) = dirty_blocks s" "ready dsk dev_ok nblk (s\<lparr>lh_n := x\<rparr>) = ready dsk dev_ok nblk s"
proof -
  show d: "dsk (s\<lparr>lh_n := x\<rparr>) = dsk s" by (rule dsk_cong) simp_all
  show v: "dev_ok (s\<lparr>lh_n := x\<rparr>) = dev_ok s" by (rule dev_cong) simp_all
  show "content dsk (s\<lparr>lh_n := x\<rparr>) = content dsk s" by (simp add: content_def fun_eq_iff d split: option.split)
  show "dirty_blocks (s\<lparr>lh_n := x\<rparr>) = dirty_blocks s" by (simp add: dirty_blocks_def)
  have "bnx (s\<lparr>lh_n := x\<rparr>) = bnx s" "bpv (s\<lparr>lh_n := x\<rparr>) = bpv s" by (simp_all add: bnx_def bpv_def fun_eq_iff)
  then have "mru (s\<lparr>lh_n := x\<rparr>) ys = mru s ys" for ys by (simp add: mru_def)
  then show "ready dsk dev_ok nblk (s\<lparr>lh_n := x\<rparr>) = ready dsk dev_ok nblk s"
    by (simp add: ready_def cache_ok_def quiet_def idle_def d v)
qed

end

text \<open>The disk writes of a commit, in order.\<close>

definition commit_ws :: "(u32 \<Rightarrow> u8 list) \<Rightarrow> 'z klog_scheme \<Rightarrow> (u32 \<times> u32 \<times> u8 list) list" where
  "commit_ws C s =
     (let h = word_of_int (lg_start s); d1 = put_head (lh_n s) (lh_block s) (C h); d2 = put_head 0 (lh_block s) d1 in
      log_ws (lg_start s) C (logged s) @ [(1, h, d1)] @ map (\<lambda>b. (1, b, C b)) (logged s) @ [(1, h, d2)])"

lemma wrote_allD:
  assumes "wrote_all dsk ws s t"
  shows "content dsk t = apply_ws (content dsk s) ws" "dsk t = apply_ws (dsk s) ws" "dirty_blocks t = dirty_blocks s - fst ` snd ` set ws"
    "same_rest s t" "lg_start t = lg_start s" "lg_size t = lg_size s" "lg_dev t = lg_dev s" "lh_n t = lh_n s" "lh_block t = lh_block s"
    "logged t = logged s" "card (dirty_blocks t) \<le> card (dirty_blocks s)"
proof -
  show *: "same_rest s t" "content dsk t = apply_ws (content dsk s) ws" "dsk t = apply_ws (dsk s) ws"
    "dirty_blocks t = dirty_blocks s - fst ` snd ` set ws" using assms by (simp_all add: wrote_all_def)
  show "lg_start t = lg_start s" "lg_size t = lg_size s" "lg_dev t = lg_dev s" "lh_n t = lh_n s" "lh_block t = lh_block s"
    "logged t = logged s" by (simp_all add: log_more [OF *(1)] logged_def)
  show "card (dirty_blocks t) \<le> card (dirty_blocks s)" unfolding *(4) by (rule card_mono) auto
qed

lemma not_log_ws:
  assumes "log_ok nblk s" and "b = word_of_int (lg_start s) \<or> \<not> in_log (lg_start s) (lg_size s) b"
  shows "b \<notin> fst ` snd ` set (log_ws (lg_start s) C (logged s))"
proof
  assume "b \<in> fst ` snd ` set (log_ws (lg_start s) C (logged s))"
  then obtain k where k: "k < length (logged s)" "b = log_block (lg_start s) k" by (auto simp: log_ws_def)
  moreover have "log_geom nblk (lg_start s) (lg_size s)" "int (length (logged s)) < lg_size s"
    using assms(1) by (auto simp: log_ok_def blocks_ok_def)
  ultimately show False using log_block_facts(2,3) [of nblk "lg_start s" "lg_size s" k] assms(2) by auto
qed

lemma log_ws_get:
  assumes "log_ok nblk s" and "k < length (logged s)"
  shows "apply_ws D (log_ws (lg_start s) C (logged s)) (log_block (lg_start s) k) = C (logged s ! k)"
  unfolding log_ws_def
  by (rule apply_ws_map) (use assms in \<open>auto intro!: log_blocks_distinct simp: log_ok_def blocks_ok_def\<close>)

context log_disk
begin

lemma commit_ok:
  assumes r: "ready dsk dev_ok nblk s" and lo: "log_ok nblk s" and n: "lh_n s > 0" and d: "set (logged s) \<subseteq> dirty_blocks s"
    and c: "card (dirty_blocks s) < NBUF"
  shows "\<exists>t. commit rw s = Ret () t \<and> ready dsk dev_ok nblk t \<and> wrote_all dsk (commit_ws (content dsk s) s) (s\<lparr>lh_n := 0\<rparr>) t"
proof -
  let ?C = "content dsk s" and ?h = "word_of_int (lg_start s) :: u32" and ?ws = "log_ws (lg_start s) (content dsk s) (logged s)"
  have g: "lg_dev s = 1" "log_geom nblk (lg_start s) (lg_size s)" "length (lh_block s) = LOGSIZE"
    using lo by (auto simp: log_ok_def)
  have nl: "\<not> in_log (lg_start s) (lg_size s) b" if "b \<in> set (logged s)" for b using lo that by (auto simp: log_ok_def blocks_ok_def)
  obtain s1 where s1: "write_log rw s = Ret () s1" "ready dsk dev_ok nblk s1" "wrote_all dsk ?ws s s1"
    using write_log_ok [OF r lo d c] by blast
  note e1 = wrote_allD [OF s1(3)]
  have h1: "content dsk s1 ?h = ?C ?h" unfolding e1(1) by (rule apply_ws_other, rule not_log_ws [OF lo]) simp
  let ?d1 = "put_head (lh_n s) (lh_block s) (?C ?h)"
  obtain s2 where s2: "write_head rw s1 = Ret () s2" "ready dsk dev_ok nblk s2" "wrote_all dsk [(1, ?h, ?d1)] s1 s2"
    using write_head_ok [OF s1(2)] g e1 c h1 by force
  note e2 = wrote_allD [OF s2(3)]
  have lo2: "log_ok nblk s2" using lo log_ok_same [OF e1(4)] log_ok_same [OF e2(4)] by simp
  have d2: "set (logged s2) \<subseteq> dirty_blocks s2"
  proof
    fix b
    assume "b \<in> set (logged s2)"
    then have b: "b \<in> set (logged s)" by (simp add: e1 e2)
    then have "b \<notin> fst ` snd ` set ?ws" "b \<noteq> ?h" using nl head_facts(2) [OF g(2)] not_log_ws [OF lo] by auto
    then show "b \<in> dirty_blocks s2" unfolding e2(3) e1(3) using b d by auto
  qed
  have c2: "content dsk s2 (log_block (lg_start s) k) = ?C (logged s ! k)" if "k < length (logged s)" for k
  proof -
    have "log_block (lg_start s) k \<noteq> ?h" using that lo by (intro log_block_facts(3) [OF g(2)]) (auto simp: log_ok_def blocks_ok_def)
    then show ?thesis using log_ws_get [OF lo that] by (simp add: e2 e1)
  qed
  have cc: "card (dirty_blocks s2) < NBUF" using e1(11) e2(11) c by linarith
  have hw: "home_ws (lg_start s) (content dsk s2) (logged s) = map (\<lambda>b. (1, b, ?C b)) (logged s)"
    by (rule nth_equalityI) (simp_all add: home_ws_def c2)
  obtain s3 where s3: "install_trans rw s2 = Ret () s3" "ready dsk dev_ok nblk s3" "wrote_all dsk (map (\<lambda>b. (1, b, ?C b)) (logged s)) s2 s3"
    using install_trans_ok [OF s2(2) lo2 cc disjI1 [OF d2]] hw by (auto simp: e1(5,10) e2(5,10))
  note e3 = wrote_allD [OF s3(3)]
  let ?s4 = "s3\<lparr>lh_n := 0\<rparr>"
  have "content dsk s3 ?h = ?d1"
    unfolding e3(1) using nl head_facts(2) [OF g(2)] by (subst apply_ws_other) (auto simp: e2)
  then obtain t where t: "write_head rw ?s4 = Ret () t" "ready dsk dev_ok nblk t"
      "wrote_all dsk [(1, ?h, put_head 0 (lh_block s) ?d1)] ?s4 t"
    using write_head_ok [of ?s4] s3(2) g e1 e2 e3 c by force
  have "wrote_all dsk (?ws @ [(1, ?h, ?d1)] @ map (\<lambda>b. (1, b, ?C b)) (logged s)) s s3"
    using wrote_all_trans [OF s1(3) wrote_all_trans [OF s2(3) s3(3)]] .
  then have "wrote_all dsk (?ws @ [(1, ?h, ?d1)] @ map (\<lambda>b. (1, b, ?C b)) (logged s)) (s\<lparr>lh_n := 0\<rparr>) ?s4"
    by (simp add: wrote_all_def same_rest_lh)
  from wrote_all_trans [OF this t(3)] have "wrote_all dsk (commit_ws ?C s) (s\<lparr>lh_n := 0\<rparr>) t"
    by (simp add: commit_ws_def Let_def)
  moreover have "commit rw s = Ret () t" using n s1(1) s2(1) s3(1) t(1) by (simp add: commit_def prog_simps)
  ultimately show ?thesis using t(2) by blast
qed

end

section \<open>Recovery\<close>

text \<open>Updates of the log's own fields leave everything below it alone.\<close>

lemma truncate_fields:
  assumes "kdisk.truncate t = kdisk.truncate s"
  shows "bufs t = bufs s" "disk t = disk s" "mem t = mem s" "memdisk t = memdisk s" "disksize t = disksize s" "idequeue t = idequeue s"
    "idedev t = idedev s" "havedisk1 t = havedisk1 s" "held t = held s" "others t = others s" "cur t = cur s" "procs t = procs s"
    "dwrites t = dwrites s" "quiet t = quiet s" "dirty_blocks t = dirty_blocks s" "idle t = idle s" "mru t ys = mru s ys"
proof -
  show f: "bufs t = bufs s" "disk t = disk s" "mem t = mem s" "memdisk t = memdisk s" "disksize t = disksize s" "idequeue t = idequeue s"
    "idedev t = idedev s" "havedisk1 t = havedisk1 s" "held t = held s" "others t = others s" "cur t = cur s" "procs t = procs s"
    "dwrites t = dwrites s"
    using assms by (simp_all add: kdisk.truncate_def)
  have "bnx t = bnx s" "bpv t = bpv s" using f(1) by (simp_all add: bnx_def bpv_def fun_eq_iff)
  then show "quiet t = quiet s" "dirty_blocks t = dirty_blocks s" "idle t = idle s" "mru t ys = mru s ys"
    using f by (simp_all add: quiet_def dirty_blocks_def idle_def mru_def)
qed

lemma truncate_head [simp]: "kdisk.truncate (head_of d s) = kdisk.truncate s"
  by (simp add: head_of_def kdisk.truncate_def)

lemma same_rest_head: "same_rest s t \<Longrightarrow> same_rest (head_of d s) (head_of d t)"
  by (cases s; cases t) (simp add: same_rest_def head_of_def)

context log_disk
begin

lemma truncate_frame:
  assumes "kdisk.truncate t = kdisk.truncate s"
  shows "dsk t = dsk s" "dev_ok t = dev_ok s" "content dsk t = content dsk s" "cache_ok dsk nblk t = cache_ok dsk nblk s"
    "ready dsk dev_ok nblk t = ready dsk dev_ok nblk s"
proof -
  note f = truncate_fields [OF assms]
  show d: "dsk t = dsk s" by (rule dsk_cong) (simp_all add: f)
  show v: "dev_ok t = dev_ok s" by (rule dev_cong) (simp_all add: f)
  show "content dsk t = content dsk s" by (simp add: content_def fun_eq_iff d f split: option.split)
  show c: "cache_ok dsk nblk t = cache_ok dsk nblk s" by (simp add: cache_ok_def d f)
  show "ready dsk dev_ok nblk t = ready dsk dev_ok nblk s" by (simp add: ready_def c v f)
qed

lemma read_head_ok:
  assumes r: "ready dsk dev_ok nblk s" and g: "lg_dev s = 1" "log_geom nblk (lg_start s) (lg_size s)" and c: "card (dirty_blocks s) < NBUF"
  shows "\<exists>t. read_head rw s = Ret () t \<and> ready dsk dev_ok nblk t \<and>
    same_store dsk (head_of (content dsk s (word_of_int (lg_start s))) s) t"
proof -
  let ?h = "word_of_int (lg_start s) :: u32"
  have hd: "?h < nblk" using head_facts [OF g(2)] by simp
  have h: "quiet s" "dev_ok s" "cache_ok dsk nblk s" "idle s" using r by (simp_all add: ready_def)
  define d where "d = content dsk s ?h"
  obtain i t1 where t1: "bread rw 1 ?h s = Ret i t1" "locked_for dsk nblk ?h i s t1" "quiet t1" "dev_ok t1"
      "b_valid (bufs t1 ! i)" "b_data (bufs t1 ! i) = content dsk s ?h"
    by (rule bread_ok [OF h(1-3) hd able_idle [OF h(3,4) c]])
  have l: "i < NBUF" "buf_for ?h (bufs t1 ! i)" "b_busy (bufs t1 ! i)" "cache_ok dsk nblk t1"
    "\<forall>j. j \<noteq> i \<longrightarrow> bufs t1 ! j = bufs s ! j"
    using t1(2) by (simp_all add: locked_for_def)
  have sy: "b_dirty (bufs t1 ! i) \<or> b_data (bufs t1 ! i) = dsk t1 ?h"
    using h(4) by (intro locked_sync [OF t1(2) h(3) t1(6)]) (simp add: idle_def)
  define u where "u = head_of d t1"
  have ut: "kdisk.truncate u = kdisk.truncate t1" by (simp add: u_def)
  note f = truncate_fields [OF ut] truncate_frame [OF ut]
  have uq: "quiet u" "cache_ok dsk nblk u" "buf_for ?h (bufs u ! i)" "b_busy (bufs u ! i)"
    using t1(3) l by (simp_all add: f)
  obtain t where t: "brelse i u = Ret () t" "quiet t" "dev_ok t = dev_ok u" "cache_ok dsk nblk t" "content dsk t = content dsk u"
    "dsk t = dsk u" "dwrites t = dwrites u" "same_rest u t" "dirty_blocks t = dirty_blocks u"
    "\<And>j. j \<noteq> i \<Longrightarrow> same_but_links (bufs u ! j) (bufs t ! j)"
    "same_but_links ((bufs u ! i)\<lparr>b_flags := b_flags (bufs u ! i) AND NOT B_BUSY\<rparr>) (bufs t ! i)"
    using brelse_ok [OF uq(1,2) l(1) uq(3,4)] sy unfolding f by metis
  have "\<forall>j. j \<noteq> i \<longrightarrow> bufs u ! j = bufs s ! j" using l(5) by (simp add: f)
  then have "idle t" by (rule idle_relock [OF h(4) _ t(10,11)])
  then have "ready dsk dev_ok nblk t" using t t1(4) by (simp add: ready_def f)
  moreover have "same_rest (head_of d s) u" using t1(2) unfolding u_def by (intro same_rest_head) (simp add: locked_for_def)
  then have "same_store dsk (head_of d s) t"
    using t t1(2) truncate_frame [OF truncate_head, of d s] truncate_fields [OF truncate_head, of d s]
    by (auto simp: same_store_def locked_for_def f intro: same_rest_trans)
  moreover have "read_head rw s = Ret () t"
    using t1(1,6) t(1) g(1) by (simp add: read_head_def prog_simps u_def d_def)
  ultimately show ?thesis unfolding d_def by blast
qed

end

text \<open>What recovery does to the disk: the header's count and blocks, and the writes.\<close>

definition disk_n :: "u8 list \<Rightarrow> int" where "disk_n d = sint (get32 d 0)"
definition disk_blocks :: "u8 list \<Rightarrow> u32 list" where "disk_blocks d = get_words d 4 (nat (disk_n d))"

definition recover_ws :: "int \<Rightarrow> (u32 \<Rightarrow> u8 list) \<Rightarrow> (u32 \<times> u32 \<times> u8 list) list" where
  "recover_ws start C =
     (let h = word_of_int start in home_ws start C (disk_blocks (C h)) @ [(1, h, put32 (C h) 0 0)])"

lemma put_head_0 [simp]: "put_head 0 bs d = put32 d 0 0"
  by (simp add: put_head_def)

lemma head_of_fields [simp]:
  "lg_start (head_of d s) = lg_start s" "lg_size (head_of d s) = lg_size s" "lg_dev (head_of d s) = lg_dev s"
  "lh_n (head_of d s) = disk_n d" "length (lh_block (head_of d s)) = LOGSIZE"
  "disk_n d \<le> int LOGSIZE \<Longrightarrow> logged (head_of d s) = disk_blocks d"
  by (auto simp: head_of_def disk_n_def logged_def disk_blocks_def get_words_def take_map intro!: map_cong)

context log_disk
begin

lemma recover_ok:
  assumes r: "ready dsk dev_ok nblk s" and g: "lg_dev s = 1" "log_geom nblk (lg_start s) (lg_size s)" and c: "card (dirty_blocks s) + 1 < NBUF"
    and d: "d = content dsk s (word_of_int (lg_start s))" "0 \<le> disk_n d" "disk_n d \<le> int LOGSIZE"
      "blocks_ok nblk (lg_start s) (lg_size s) (disk_blocks d)"
  shows "\<exists>t. recover_from_log rw s = Ret () t \<and> ready dsk dev_ok nblk t \<and> lh_n t = 0 \<and>
    lg_dev t = lg_dev s \<and> lg_start t = lg_start s \<and> lg_size t = lg_size s \<and> length (lh_block t) = LOGSIZE \<and>
    content dsk t = apply_ws (content dsk s) (recover_ws (lg_start s) (content dsk s)) \<and>
    dsk t = apply_ws (dsk s) (recover_ws (lg_start s) (content dsk s)) \<and> dirty_blocks t \<subseteq> dirty_blocks s"
proof -
  let ?h = "word_of_int (lg_start s) :: u32" and ?s = "head_of d s"
  have cs: "card (dirty_blocks s) < NBUF" using c by simp
  note ft = truncate_fields [OF truncate_head, of d s] truncate_frame [OF truncate_head, of d s]
  obtain s1 where s1: "read_head rw s = Ret () s1" "ready dsk dev_ok nblk s1" "same_store dsk ?s s1"
    using read_head_ok [OF r g cs] d(1) by blast
  have w1: "wrote_all dsk [] ?s s1" by (rule same_store_wrote [OF s1(3)])
  note e1 = wrote_allD [OF w1, simplified]
  have lo: "log_ok nblk s1" using g d(2-) by (simp add: log_ok_def e1)
  have "card (dirty_blocks s1) < NBUF" "card (dirty_blocks s1) + 1 < NBUF" using c by (simp_all add: e1 ft)
  then obtain s2 where s2: "install_trans rw s1 = Ret () s2" "ready dsk dev_ok nblk s2"
      "wrote_all dsk (home_ws (lg_start s) (content dsk s) (disk_blocks d)) s1 s2"
    using install_trans_ok [OF s1(2) lo] d(3) by (auto simp: e1 ft)
  note e2 = wrote_allD [OF s2(3)]
  let ?s3 = "s2\<lparr>lh_n := 0\<rparr>"
  have "?h \<notin> fst ` snd ` set (home_ws (lg_start s) (content dsk s) (disk_blocks d))"
    using head_facts(2) [OF g(2)] d(4) by (auto simp: home_ws_def blocks_ok_def)
  then have hd: "content dsk s2 ?h = d" by (simp add: e2 apply_ws_other e1 ft) (simp add: d(1))
  have "card (dirty_blocks ?s3) < NBUF" using e2(11) cs by (simp add: e1 ft)
  then obtain t where t: "write_head rw ?s3 = Ret () t" "ready dsk dev_ok nblk t" "wrote_all dsk [(1, ?h, put32 d 0 0)] ?s3 t"
    using write_head_ok [of ?s3] s2(2) g hd by (auto simp: e1 e2)
  note e3 = wrote_allD [OF t(3)]
  have "recover_from_log rw s = Ret () t" using s1(1) s2(1) t(1) by (simp add: recover_from_log_def prog_simps)
  then show ?thesis
    using t(2) by (auto simp: e3 e2 e1 ft recover_ws_def Let_def d(1) [symmetric])
qed

lemma initlog_ok:
  assumes r: "ready dsk dev_ok nblk s" and c: "card (dirty_blocks s) + 1 < NBUF" and b1: "1 < nblk"
    and sb: "sint (sb_logstart (sb_of (content dsk s 1))) = start" "sint (sb_nlog (sb_of (content dsk s 1))) = sz"
    and g: "log_geom nblk start sz"
    and d: "d = content dsk s (word_of_int start)" "0 \<le> disk_n d" "disk_n d \<le> int LOGSIZE" "blocks_ok nblk start sz (disk_blocks d)"
  shows "\<exists>t. initlog rw 1 s = Ret () t \<and> ready dsk dev_ok nblk t \<and> lh_n t = 0 \<and>
    lg_dev t = 1 \<and> lg_start t = start \<and> lg_size t = sz \<and> length (lh_block t) = LOGSIZE \<and>
    content dsk t = apply_ws (content dsk s) (recover_ws start (content dsk s)) \<and>
    dsk t = apply_ws (dsk s) (recover_ws start (content dsk s)) \<and> dirty_blocks t \<subseteq> dirty_blocks s"
proof -
  have cs: "card (dirty_blocks s) < NBUF" using c by simp
  obtain s1 where s1: "readsb rw 1 s = Ret (sb_of (content dsk s 1)) s1" "ready dsk dev_ok nblk s1" "same_store dsk s s1"
    unfolding readsb_def by (rule read_block [OF r b1 cs])
  let ?u = "s1\<lparr>lg_start := start, lg_size := sz, lg_dev := 1\<rparr>"
  have ut: "kdisk.truncate ?u = kdisk.truncate s1" by (simp add: kdisk.truncate_def)
  note f = truncate_fields [OF ut] truncate_frame [OF ut]
  have st: "content dsk s1 = content dsk s" "dsk s1 = dsk s" "dirty_blocks s1 = dirty_blocks s"
    using s1(3) by (simp_all add: same_store_def)
  have ge: "lg_dev ?u = 1" "log_geom nblk (lg_start ?u) (lg_size ?u)" using g by simp_all
  have "\<exists>t. recover_from_log rw ?u = Ret () t \<and> ready dsk dev_ok nblk t \<and> lh_n t = 0 \<and>
    lg_dev t = lg_dev ?u \<and> lg_start t = lg_start ?u \<and> lg_size t = lg_size ?u \<and> length (lh_block t) = LOGSIZE \<and>
    content dsk t = apply_ws (content dsk ?u) (recover_ws (lg_start ?u) (content dsk ?u)) \<and>
    dsk t = apply_ws (dsk ?u) (recover_ws (lg_start ?u) (content dsk ?u)) \<and> dirty_blocks t \<subseteq> dirty_blocks ?u"
    using recover_ok [of ?u, OF _ ge _ _ d(2,3)] s1(2) c d st by (simp add: f)
  then obtain t where t: "recover_from_log rw ?u = Ret () t" "ready dsk dev_ok nblk t" "lh_n t = 0"
    "lg_dev t = 1" "lg_start t = start" "lg_size t = sz" "length (lh_block t) = LOGSIZE"
    "content dsk t = apply_ws (content dsk s) (recover_ws start (content dsk s))"
    "dsk t = apply_ws (dsk s) (recover_ws start (content dsk s))" "dirty_blocks t \<subseteq> dirty_blocks s"
    by (auto simp: f st)
  have "initlog rw 1 s = Ret () t"
    using s1(1) t(1) sb by (simp add: initlog_def prog_simps BSIZE_def LOGSIZE_def MAXOPBLOCKS_def)
  then show ?thesis using t by blast
qed

end

section \<open>Crashes during a commit\<close>

lemma take_append_cases:
  assumes "k \<le> length (a @ [x] @ b @ [y])"
  obtains (logging) "take k (a @ [x] @ b @ [y]) = take k a" "k \<le> length a"
    | (installing) j where "take k (a @ [x] @ b @ [y]) = a @ [x] @ take j b" "j \<le> length b"
    | (complete) "take k (a @ [x] @ b @ [y]) = a @ [x] @ b @ [y]"
proof -
  consider "k \<le> length a" | "length a < k" "k \<le> Suc (length a + length b)" | "k = length a + length b + 2" using assms by force
  then show thesis
  proof cases
    case 1 then show ?thesis using logging by simp
  next
    case 2
    then have "take k (a @ [x] @ b @ [y]) = a @ [x] @ take (k - length a - 1) b"
      by (cases "k - length a") simp_all
    then show ?thesis using installing [of "k - length a - 1"] 2 by simp
  next
    case 3 then show ?thesis using complete by simp
  qed
qed

lemma put_head_get:
  assumes "length d = BSIZE" and "length bs = LOGSIZE" and "0 \<le> n" "n \<le> int LOGSIZE"
  shows "disk_n (put_head n bs d) = n" "disk_blocks (put_head n bs d) = take (nat n) bs" "disk_n (put32 d 0 0) = 0"
    "disk_n (put32 (put_head n bs d) 0 0) = 0"
proof -
  let ?d = "put32 d 0 (word_of_int n)"
  have l: "length (take (nat n) bs) = nat n" "nat n \<le> 30" "n \<le> 30" using assms by (auto simp: LOGSIZE_def MAXOPBLOCKS_def min_def)
  have ld: "length ?d = 512" using assms(1) by (simp add: BSIZE_def)
  have "bytes_at (put_words ?d 4 (take (nat n) bs)) 0 4 = bytes_at ?d 0 4"
    using l ld by (intro put_words_other) simp_all
  then have "get32 (put_head n bs d) 0 = word_of_int n"
    using assms(1) by (simp add: put_head_def get32_def BSIZE_def) (simp add: put32_def BSIZE_def)
  then show n: "disk_n (put_head n bs d) = n"
    using assms(3) l(3) by (simp add: disk_n_def signed_take_bit_int_eq_self sint_sbintrunc')
  show "disk_blocks (put_head n bs d) = take (nat n) bs"
    unfolding disk_blocks_def n using get_put_words [of 4 "take (nat n) bs" ?d "nat n"] l ld by (simp add: put_head_def)
  show "disk_n (put32 d 0 0) = 0" using assms(1) by (simp add: disk_n_def BSIZE_def)
  have "length (put_head n bs d) = 512" using l ld by (simp add: put_head_def)
  then show "disk_n (put32 (put_head n bs d) 0 0) = 0" by (simp add: disk_n_def)
qed

lemma apply_homes:
  assumes "distinct bs"
  shows "apply_ws E (map (\<lambda>b. (1, b, C b)) bs) b = (if b \<in> set bs then C b else E b)"
proof -
  have "distinct (map (\<lambda>b. b) bs)" using assms by simp
  from apply_ws_map [OF this, of b E C] apply_ws_other [of b "map (\<lambda>b. (1, b, C b)) bs" E]
  show ?thesis by (auto simp: image_image)
qed

lemma commit_final:
  assumes lo: "log_ok nblk s" and h: "h = word_of_int (lg_start s)" and l: "length (C0 h) = BSIZE"
    and C: "\<forall>b. b \<notin> set (logged s) \<longrightarrow> C b = C0 b"
  shows "disk_n (apply_ws C0 (commit_ws C s) h) = 0"
    and "\<not> in_log (lg_start s) (lg_size s) b \<Longrightarrow> apply_ws C0 (commit_ws C s) b = C b"
proof -
  have lk: "log_geom nblk (lg_start s) (lg_size s)" "length (lh_block s) = LOGSIZE" "0 \<le> lh_n s" "lh_n s \<le> int LOGSIZE"
    "\<And>b. b \<in> set (logged s) \<Longrightarrow> \<not> in_log (lg_start s) (lg_size s) b" "distinct (logged s)"
    using lo by (auto simp: log_ok_def blocks_ok_def)
  have hin: "in_log (lg_start s) (lg_size s) h" "h \<notin> set (logged s)" using head_facts(2) [OF lk(1)] lk(5) h by auto
  then have "length (C h) = BSIZE" using C l by simp
  from put_head_get(4) [OF this lk(2-4)] show "disk_n (apply_ws C0 (commit_ws C s) h) = 0"
    by (simp add: commit_ws_def Let_def h)
  show "apply_ws C0 (commit_ws C s) b = C b" if "\<not> in_log (lg_start s) (lg_size s) b"
  proof -
    have "b \<noteq> h" using that hin(1) by auto
    then show ?thesis
      using that C apply_ws_other [OF not_log_ws [OF lo], of b C0]
      by (auto simp: commit_ws_def Let_def h apply_homes [OF lk(6)])
  qed
qed

text \<open>
  The three kinds of disk a crash can leave: the log is being written and the header still
  says 0; the header is written and all of the log is there; the header is cleared again and all
  home blocks are up to date.
\<close>

lemma crash_cases:
  assumes lo: "log_ok nblk s" and h: "h = word_of_int (lg_start s)" and d0: "disk_n (C0 h) = 0" "length (C0 h) = BSIZE"
    and C: "\<forall>b. b \<notin> set (logged s) \<longrightarrow> C b = C0 b"
    and k: "k \<le> length (commit_ws C s)" and D: "D = apply_ws C0 (take k (commit_ws C s))"
  obtains (before) "disk_n (D h) = 0" "\<And>b. \<not> in_log (lg_start s) (lg_size s) b \<Longrightarrow> D b = C0 b"
    | (committed) "disk_n (D h) = lh_n s" "disk_blocks (D h) = logged s"
        "\<And>i. i < length (logged s) \<Longrightarrow> D (log_block (lg_start s) i) = C (logged s ! i)"
        "\<And>b. b \<notin> set (logged s) \<Longrightarrow> \<not> in_log (lg_start s) (lg_size s) b \<Longrightarrow> D b = C b"
    | (after) "disk_n (D h) = 0" "\<And>b. \<not> in_log (lg_start s) (lg_size s) b \<Longrightarrow> D b = C b"
proof -
  let ?in = "in_log (lg_start s) (lg_size s)" and ?ws = "log_ws (lg_start s) C (logged s)" and ?hs = "map (\<lambda>b. (1 :: u32, b, C b)) (logged s)"
  define d1 where "d1 = put_head (lh_n s) (lh_block s) (C h)"
  have cw: "commit_ws C s = ?ws @ [(1, h, d1)] @ ?hs @ [(1, h, put32 d1 0 0)]"
    by (simp add: commit_ws_def h d1_def Let_def)
  have lk: "log_geom nblk (lg_start s) (lg_size s)" "length (lh_block s) = LOGSIZE" "0 \<le> lh_n s" "lh_n s \<le> int LOGSIZE"
    "\<And>b. b \<in> set (logged s) \<Longrightarrow> \<not> ?in b" "int (length (logged s)) < lg_size s"
    using lo by (auto simp: log_ok_def blocks_ok_def)
  have hin: "?in h" "h \<notin> set (logged s)" using head_facts(2) [OF lk(1)] lk(5) h by auto
  then have Ch: "C h = C0 h" using C by blast
  note ph = put_head_get [OF _ lk(2-4), of "C h", folded d1_def]
  have d1: "disk_n d1 = lh_n s" "disk_blocks d1 = logged s" "disk_n (put32 d1 0 0) = 0"
    using ph d0(2) Ch by (simp_all add: logged_def)
  have lb: "?in (log_block (lg_start s) i)" "log_block (lg_start s) i \<noteq> h" if "i < length (logged s)" for i
    using log_block_facts(2,3) [OF lk(1)] that lk(6) h by auto
  have off: "apply_ws C0 ?ws b = C0 b" if "\<not> ?in b \<or> b = h" for b
    using apply_ws_other [OF not_log_ws [OF lo], of b] that h by auto
  from k show thesis
    unfolding cw
  proof (cases rule: take_append_cases)
    case logging
    have n: "b \<notin> fst ` snd ` set (take k ?ws)" if "\<not> ?in b \<or> b = h" for b
      using not_log_ws [OF lo, of b] that h set_take_subset [of k ?ws] by blast
    have "D b = C0 b" if "\<not> ?in b \<or> b = h" for b
      unfolding D cw logging(1) by (rule apply_ws_other [OF n [OF that]])
    then show thesis using before d0(1) by simp
  next
    case (installing j)
    have sub: "set (take j ?hs) \<subseteq> set ?hs" by (rule set_take_subset)
    have nb: "b \<notin> fst ` snd ` set (take j ?hs)" if "b \<notin> set (logged s)" for b using that sub by auto
    have D': "D b = ((apply_ws C0 ?ws)(h := d1)) b" if "b \<notin> set (logged s)" for b
      unfolding D cw installing(1) using apply_ws_other [OF nb [OF that]] by simp
    have "disk_n (D h) = lh_n s" "disk_blocks (D h) = logged s" using D' [OF hin(2)] d1 by simp_all
    moreover have "D (log_block (lg_start s) i) = C (logged s ! i)" if "i < length (logged s)" for i
      using D' [of "log_block (lg_start s) i"] lk(5) lb [OF that] log_ws_get [OF lo that, of C0 C] by auto
    moreover have "D b = C b" if "b \<notin> set (logged s)" "\<not> ?in b" for b
      using D' [OF that(1)] that hin(1) off C by auto
    ultimately show thesis by (rule committed)
  next
    case complete
    have "D = apply_ws C0 (commit_ws C s)" unfolding D cw complete ..
    then have "disk_n (D h) = 0" "\<And>b. \<not> ?in b \<Longrightarrow> D b = C b"
      using commit_final [OF lo h d0(2) C] by simp_all
    then show thesis by (rule after)
  qed
qed

lemma home_ws_get:
  assumes "distinct bs" and "\<And>i. i < length bs \<Longrightarrow> D (log_block start i) = C (bs ! i)"
  shows "apply_ws D (home_ws start D bs) b = (if b \<in> set bs then C b else D b)"
proof (cases "b \<in> set bs")
  case True
  then obtain i where i: "i < length bs" "b = bs ! i" by (auto simp: in_set_conv_nth)
  have "apply_ws D (home_ws start D bs) (bs ! i) = D (log_block start i)"
    unfolding home_ws_def using assms(1) i(1) by (intro apply_ws_map) (simp_all add: map_nth)
  then show ?thesis using True i assms(2) by simp
next
  case False
  then have "b \<notin> fst ` snd ` set (home_ws start D bs)" by (auto simp: home_ws_def)
  then show ?thesis using False by (simp add: apply_ws_other)
qed

lemma put32_n0: "length d = BSIZE \<Longrightarrow> disk_n (put32 d 0 0) = 0"
  by (simp add: disk_n_def BSIZE_def)

lemma recover_ws_header: "apply_ws E (recover_ws start D) (word_of_int start) = put32 (D (word_of_int start)) 0 0"
  by (simp add: recover_ws_def Let_def)

lemma recover_ws_off:
  "b \<noteq> word_of_int start \<Longrightarrow>
    apply_ws D (recover_ws start D) b = apply_ws D (home_ws start D (disk_blocks (D (word_of_int start)))) b"
  by (simp add: recover_ws_def Let_def)

context log_disk
begin

lemma content_idle: "ready dsk dev_ok nblk s \<Longrightarrow> b \<notin> dirty_blocks s \<Longrightarrow> content dsk s b = dsk s b"
  by (rule content_clean [where n = nblk]) (auto simp: ready_def idle_def)

lemma crash_recovers:
  assumes lo: "log_ok nblk s" and h: "h = word_of_int (lg_start s)" and d0: "disk_n (C0 h) = 0" "length (C0 h) = BSIZE"
    and C: "\<forall>b. b \<notin> set (logged s) \<longrightarrow> C b = C0 b"
    and k: "k \<le> length (commit_ws C s)" and D: "dsk s' = apply_ws C0 (take k (commit_ws C s))"
    and r: "ready dsk dev_ok nblk s'" "dirty_blocks s' = {}"
    and sb: "sint (sb_logstart (sb_of (C0 1))) = lg_start s" "sint (sb_nlog (sb_of (C0 1))) = lg_size s"
    and b1: "1 < nblk" "1 \<notin> set (logged s)" "\<not> in_log (lg_start s) (lg_size s) 1"
  shows "\<exists>t. initlog rw 1 s' = Ret () t \<and> ready dsk dev_ok nblk t \<and> dirty_blocks t = {} \<and> lh_n t = 0 \<and> disk_n (dsk t h) = 0 \<and>
    ((\<forall>b. \<not> in_log (lg_start s) (lg_size s) b \<longrightarrow> dsk t b = C0 b) \<or> (\<forall>b. \<not> in_log (lg_start s) (lg_size s) b \<longrightarrow> dsk t b = C b))"
proof -
  let ?in = "in_log (lg_start s) (lg_size s)"
  have g: "log_geom nblk (lg_start s) (lg_size s)" "lh_n s \<le> int LOGSIZE" "0 \<le> lh_n s" "distinct (logged s)"
    "blocks_ok nblk (lg_start s) (lg_size s) (logged s)" "blocks_ok nblk (lg_start s) (lg_size s) []"
    using lo by (auto simp: log_ok_def blocks_ok_def log_geom_def)
  have cd: "content dsk s' = dsk s'" using content_idle [OF r(1)] r(2) by auto
  have hh: "?in h" "h < nblk" using head_facts [OF g(1)] h by auto
  have l: "length (dsk s' h) = BSIZE" using content_length [OF r(1) hh(2)] cd by simp
  define D' where "D' = apply_ws (dsk s') (recover_ws (lg_start s) (dsk s'))"
  have dh: "disk_n (D' h) = 0" using recover_ws_header [of "dsk s'" "lg_start s" "dsk s'"] put32_n0 [OF l] by (simp add: D'_def h)
  have off: "D' b = apply_ws (dsk s') (home_ws (lg_start s) (dsk s') (disk_blocks (dsk s' h))) b" if "\<not> ?in b" for b
    using that hh(1) recover_ws_off [of b "lg_start s" "dsk s'"] by (auto simp: D'_def h)
  have "dsk s' 1 = C0 1 \<and> 0 \<le> disk_n (dsk s' h) \<and> disk_n (dsk s' h) \<le> int LOGSIZE \<and>
      blocks_ok nblk (lg_start s) (lg_size s) (disk_blocks (dsk s' h)) \<and>
      ((\<forall>b. \<not> ?in b \<longrightarrow> D' b = C0 b) \<or> (\<forall>b. \<not> ?in b \<longrightarrow> D' b = C b))"
    using lo h d0 C k D
  proof (cases rule: crash_cases)
    case before
    then have "disk_blocks (dsk s' h) = []" by (simp add: disk_blocks_def get_words_def)
    then show ?thesis using before off g(6) b1(3) by (auto simp: home_ws_def)
  next
    case committed
    have "D' b = C b" if "\<not> ?in b" for b
      unfolding off [OF that] committed(2) using home_ws_get [where C = C and D = "dsk s'", OF g(4) committed(3)] committed(4) that by auto
    then show ?thesis using committed g b1 C by auto
  next
    case after
    then have "disk_blocks (dsk s' h) = []" by (simp add: disk_blocks_def get_words_def)
    then show ?thesis using after off g(6) b1 C by (auto simp: home_ws_def)
  qed
  then have f: "dsk s' 1 = C0 1" "0 \<le> disk_n (dsk s' h)" "disk_n (dsk s' h) \<le> int LOGSIZE"
      "blocks_ok nblk (lg_start s) (lg_size s) (disk_blocks (dsk s' h))"
      "(\<forall>b. \<not> ?in b \<longrightarrow> D' b = C0 b) \<or> (\<forall>b. \<not> ?in b \<longrightarrow> D' b = C b)" by blast+
  have c: "card (dirty_blocks s') + 1 < NBUF" using r(2) by (simp add: NBUF_def)
  obtain t where "initlog rw 1 s' = Ret () t" "ready dsk dev_ok nblk t" "lh_n t = 0" "dsk t = D'" "dirty_blocks t \<subseteq> dirty_blocks s'"
    using initlog_ok [OF r(1) c b1(1) _ _ g(1) _ f(2-4)] sb cd h f(1) by (auto simp: D'_def)
  then show ?thesis using dh f(5) r(2) by auto
qed

end

interpretation lid: log_disk iderw ide_dsk ide_dev_ok FSSIZE
  by unfold_locales

interpretation lmd: log_disk memide_rw "mem_dsk n" "mem_dev_ok n" n for n
  by unfold_locales

section \<open>Transactions\<close>

lemma log_index_le: "log_index b xs \<le> length xs"
  by (induction xs) auto

lemma log_index_eq: "log_index b xs = length xs \<longleftrightarrow> b \<notin> set xs"
  by (induction xs) auto

lemma log_index_nth: "log_index b xs < length xs \<Longrightarrow> xs ! log_index b xs = b"
  by (induction xs) auto

lemma log_add_ok:
  assumes lo: "log_ok nblk s" and n: "lh_n s < int LOGSIZE" "lh_n s < lg_size s - 1"
    and b: "b < nblk" "\<not> in_log (lg_start s) (lg_size s) b"
  shows "log_ok nblk (log_add b s)"
    and "logged (log_add b s) = (if b \<in> set (logged s) then logged s else logged s @ [b])"
proof -
  let ?i = "log_index b (logged s)" and ?n = "nat (lh_n s)"
  have ln: "length (logged s) = ?n" "length (lh_block s) = LOGSIZE" "0 \<le> lh_n s" using log_ok_length [OF lo] lo by (auto simp: log_ok_def)
  show lg: "logged (log_add b s) = (if b \<in> set (logged s) then logged s else logged s @ [b])"
  proof (cases "b \<in> set (logged s)")
    case True
    then have i: "?i < length (logged s)" using log_index_le [of b "logged s"] log_index_eq [of b "logged s"] by linarith
    have "lh_block s ! ?i = b" using log_index_nth [OF i] i ln by (simp add: logged_def)
    then have "(lh_block s)[?i := b] = lh_block s" by (metis list_update_id)
    then show ?thesis using True i ln by (simp add: log_add_def logged_def [symmetric] Let_def) (simp add: logged_def)
  next
    case False
    then have "?i = ?n" using log_index_eq [of b "logged s"] ln by simp
    moreover have "nat (lh_n s + 1) = Suc ?n" "?n < LOGSIZE" using ln n by auto
    ultimately show ?thesis
      using False ln by (simp add: log_add_def logged_def [symmetric] Let_def) (simp add: logged_def take_Suc_conv_app_nth)
  qed
  have f: "lg_dev (log_add b s) = lg_dev s" "lg_start (log_add b s) = lg_start s" "lg_size (log_add b s) = lg_size s"
    "length (lh_block (log_add b s)) = LOGSIZE" "0 \<le> lh_n (log_add b s)" "lh_n (log_add b s) \<le> int LOGSIZE"
    using ln n by (auto simp: log_add_def Let_def)
  have "blocks_ok nblk (lg_start s) (lg_size s) (logged (log_add b s))"
    using lo b n ln unfolding lg by (auto simp: log_ok_def blocks_ok_def)
  then show "log_ok nblk (log_add b s)" using lo f by (simp add: log_ok_def)
qed

lemma log_write_eq:
  assumes "lh_n s < int LOGSIZE" "lh_n s < lg_size s - 1" "1 \<le> lg_outstanding s" "held s = {}" "others s = {}"
  shows "log_write i s = Ret () (upd_buf i (\<lambda>x. x\<lparr>b_flags := b_flags x OR B_DIRTY\<rparr>) (log_add (b_blockno (bufs s ! i)) s))"
proof -
  let ?u = "upd_buf i (\<lambda>x. x\<lparr>b_flags := b_flags x OR B_DIRTY\<rparr>) (log_add (b_blockno (bufs s ! i)) s)"
  have "held ?u = {}" using assms by (simp add: log_add_def Let_def)
  moreover have "log_add b (s\<lparr>held := h\<rparr>) = (log_add b s)\<lparr>held := h\<rparr>" for b h by (simp add: log_add_def Let_def)
  ultimately show ?thesis
    using assms held_idem [of ?u] by (simp add: log_write_def acquire_def prog_simps upd_buf_held)
qed

lemma truncate_add [simp]: "kdisk.truncate (log_add b s) = kdisk.truncate s"
  by (simp add: log_add_def Let_def kdisk.truncate_def)

lemma log_fields_upd_buf [simp]:
  "lg_start (upd_buf i f s) = lg_start s" "lg_size (upd_buf i f s) = lg_size s" "lg_dev (upd_buf i f s) = lg_dev s"
  "lg_outstanding (upd_buf i f s) = lg_outstanding s" "lg_committing (upd_buf i f s) = lg_committing s"
  "lh_n (upd_buf i f s) = lh_n s" "lh_block (upd_buf i f s) = lh_block s" "logged (upd_buf i f s) = logged s"
  "log_ok n (upd_buf i f s) = log_ok n s"
  by (simp_all add: upd_buf_def logged_def log_ok_def)

lemma log_fields_add [simp]:
  "lg_start (log_add b s) = lg_start s" "lg_size (log_add b s) = lg_size s" "lg_dev (log_add b s) = lg_dev s"
  "lg_outstanding (log_add b s) = lg_outstanding s" "lg_committing (log_add b s) = lg_committing s"
  by (simp_all add: log_add_def Let_def)

text \<open>Nothing above the log and the cache changed.\<close>

definition same_above :: "'z klog_scheme \<Rightarrow> 'z klog_scheme \<Rightarrow> bool" where
  "same_above s t \<longleftrightarrow> klog.more t = klog.more s \<and> pipes t = pipes s \<and> cur t = cur s \<and>
     initproc t = initproc s \<and> nextpid t = nextpid s \<and> ticks t = ticks s \<and> map proc_core (procs t) = map proc_core (procs s)"

lemma same_above_rest: "same_rest s t \<Longrightarrow> same_above s t"
  by (cases s; cases t) (simp add: same_rest_def same_above_def)

lemma same_above_trans: "same_above s t \<Longrightarrow> same_above t u \<Longrightarrow> same_above s u"
  by (simp add: same_above_def)

lemma same_above_simps [simp]: "same_above s (upd_buf i f s)" "same_above s (log_add b s)" "same_above s s"
  by (simp_all add: same_above_def upd_buf_def log_add_def Let_def)

context log_disk
begin

text \<open>Marking a locked, valid buffer dirty, as \<open>log_write\<close> does.\<close>

lemma mark_dirty:
  assumes co: "cache_ok dsk nblk s" and i: "i < NBUF" and bf: "buf_for b (bufs s ! i)" and bu: "b_busy (bufs s ! i)"
    and va: "b_valid (bufs s ! i)"
  defines "t \<equiv> upd_buf i (\<lambda>x. x\<lparr>b_flags := b_flags x OR B_DIRTY\<rparr>) s"
  shows "cache_ok dsk nblk t" "content dsk t = content dsk s" "dirty_blocks t = insert b (dirty_blocks s)"
proof -
  have oki: "buf_ok (dsk s) nblk (bufs s ! i)" and one: "one_each (bufs s)" and il: "i < length (bufs s)"
    using co i by (auto simp: cache_ok_def mru_def)
  have c: "content dsk s b = b_data (bufs s ! i)" using content_cached [OF one i bf va] .
  have uq: "\<forall>j < NBUF. buf_for b (bufs s ! j) \<longrightarrow> j = i" using one i bf unfolding one_each_def by blast
  have bs: "buf_for b (bufs t ! i)" using bf il by (simp add: buf_for_def t_def)
  have ok: "buf_ok (dsk t) nblk (bufs t ! i)" using oki il bf bu va by (simp add: buf_ok_def buf_for_def t_def)
  show "cache_ok dsk nblk t" "content dsk t = content dsk s"
    using cache_step [OF co i _ _ _ _ _ bs ok uq] bf il va c by (simp_all add: t_def links_upd_buf fun_upd_idem)
  show "dirty_blocks t = insert b (dirty_blocks s)"
  proof (rule set_eqI)
    fix c
    have "buf_for c (bufs t ! j) \<and> b_dirty (bufs t ! j) \<longleftrightarrow>
        (if j = i then c = b else buf_for c (bufs s ! j) \<and> b_dirty (bufs s ! j))" for j
      using bs il bf by (cases "j = i") (auto simp: t_def buf_for_def)
    moreover have "buf_for c (bufs s ! i) \<Longrightarrow> c = b" using bf by (auto simp: buf_for_def)
    ultimately show "c \<in> dirty_blocks t \<longleftrightarrow> c \<in> insert b (dirty_blocks s)"
      using i unfolding dirty_blocks_def mem_Collect_eq insert_iff by metis
  qed
qed

lemma log_write_ok:
  assumes q: "quiet s" and co: "cache_ok dsk nblk s" and lo: "log_ok nblk s" and i: "i < NBUF"
    and bf: "buf_for b (bufs s ! i)" and bu: "b_busy (bufs s ! i)" and va: "b_valid (bufs s ! i)"
    and n: "lh_n s < int LOGSIZE" "lh_n s < lg_size s - 1" and out: "1 \<le> lg_outstanding s"
    and b: "\<not> in_log (lg_start s) (lg_size s) b"
  obtains t where "log_write i s = Ret () t" "quiet t" "dev_ok t = dev_ok s" "cache_ok dsk nblk t" "log_ok nblk t"
    "logged t = (if b \<in> set (logged s) then logged s else logged s @ [b])"
    "content dsk t = content dsk s" "dsk t = dsk s" "dwrites t = dwrites s" "dirty_blocks t = insert b (dirty_blocks s)"
    "\<forall>j. j \<noteq> i \<longrightarrow> bufs t ! j = bufs s ! j" "bufs t ! i = (bufs s ! i)\<lparr>b_flags := b_flags (bufs s ! i) OR B_DIRTY\<rparr>"
    "lg_start t = lg_start s" "lg_size t = lg_size s" "lg_outstanding t = lg_outstanding s" "lg_committing t = lg_committing s"
    "same_above s t"
proof -
  let ?u = "log_add b s"
  define t where "t = upd_buf i (\<lambda>x. x\<lparr>b_flags := b_flags x OR B_DIRTY\<rparr>) ?u"
  have e: "log_write i s = Ret () t"
    using log_write_eq [OF n out] q bf by (simp add: quiet_def buf_for_def t_def)
  note f = truncate_fields [OF truncate_add, of b s] truncate_frame [OF truncate_add, of b s]
  have oki: "buf_ok (dsk s) nblk (bufs s ! i)" and il: "i < length (bufs s)" using co i by (auto simp: cache_ok_def mru_def)
  have bn: "b < nblk" using oki bf by (simp add: buf_ok_def buf_for_def)
  have "cache_ok dsk nblk ?u" "buf_for b (bufs ?u ! i)" "b_busy (bufs ?u ! i)" "b_valid (bufs ?u ! i)"
    using co bf bu va by (simp_all add: f)
  note m = mark_dirty [OF this(1) i this(2-4), folded t_def]
  note a = log_add_ok [OF lo n bn b]
  show ?thesis
    by (rule that [OF e]) (use m a q il same_above_trans [OF same_above_simps(2,1)] in \<open>simp_all add: t_def f\<close>)
qed

end

text \<open>The state after a logged write of block \<open>b\<close>.\<close>

definition logged_put ::
  "('z klog_scheme \<Rightarrow> u32 \<Rightarrow> u8 list) \<Rightarrow> u32 \<Rightarrow> u8 list \<Rightarrow> 'z klog_scheme \<Rightarrow> 'z klog_scheme \<Rightarrow> bool" where
  "logged_put dsk b d s t \<longleftrightarrow> content dsk t = (content dsk s)(b := d) \<and> dsk t = dsk s \<and> dwrites t = dwrites s \<and>
     dirty_blocks t = insert b (dirty_blocks s) \<and> logged t = (if b \<in> set (logged s) then logged s else logged s @ [b]) \<and>
     lg_start t = lg_start s \<and> lg_size t = lg_size s \<and> lg_outstanding t = lg_outstanding s \<and>
     lg_committing t = lg_committing s \<and> same_above s t"

context log_disk
begin

lemma log_update:
  assumes r: "ready dsk dev_ok nblk s" and lo: "log_ok nblk s" and b: "b < nblk" "\<not> in_log (lg_start s) (lg_size s) b"
    and c: "card (dirty_blocks s) < NBUF" and n: "lh_n s < int LOGSIZE" "lh_n s < lg_size s - 1" and out: "1 \<le> lg_outstanding s"
    and d: "length (f (content dsk s b)) = BSIZE"
  obtains t where
    "kbind (bread rw 1 b) (\<lambda>i. kseq [kmod (upd_buf i (\<lambda>x. x\<lparr>b_data := f (b_data x)\<rparr>)), log_write i, brelse i]) s = Ret () t"
    "ready dsk dev_ok nblk t" "log_ok nblk t" "logged_put dsk b (f (content dsk s b)) s t"
proof -
  have h: "quiet s" "dev_ok s" "cache_ok dsk nblk s" "idle s" using r by (simp_all add: ready_def)
  obtain i t1 where t1: "bread rw 1 b s = Ret i t1" "locked_for dsk nblk b i s t1" "quiet t1" "dev_ok t1"
      "b_valid (bufs t1 ! i)" "b_data (bufs t1 ! i) = content dsk s b"
    by (rule bread_ok [OF h(1-3) b(1) able_idle [OF h(3,4) c]])
  have l: "i < NBUF" "buf_for b (bufs t1 ! i)" "b_busy (bufs t1 ! i)" "cache_ok dsk nblk t1"
    "\<forall>j. j \<noteq> i \<longrightarrow> bufs t1 ! j = bufs s ! j" "same_rest s t1"
    using t1(2) by (simp_all add: locked_for_def)
  note lm = log_more [OF l(6)]
  let ?d = "f (content dsk s b)"
  define t2 where "t2 = upd_buf i (\<lambda>x. x\<lparr>b_data := ?d\<rparr>) t1"
  note p = put_data_ok [OF l(4,1,2,3) t1(5) d, folded t2_def]
  have il: "i < length (bufs t1)" using l(1,4) by (auto simp: cache_ok_def mru_def)
  have t2: "quiet t2" "log_ok nblk t2" "buf_for b (bufs t2 ! i)" "b_busy (bufs t2 ! i)" "b_valid (bufs t2 ! i)"
    "lh_n t2 < int LOGSIZE" "lh_n t2 < lg_size t2 - 1" "1 \<le> lg_outstanding t2" "\<not> in_log (lg_start t2) (lg_size t2) b"
    using t1 l il lo n out b(2) log_ok_same [OF l(6)] by (simp_all add: t2_def lm buf_for_def)
  obtain t3 where t3: "log_write i t2 = Ret () t3" "quiet t3" "dev_ok t3 = dev_ok t2" "cache_ok dsk nblk t3" "log_ok nblk t3"
    "logged t3 = (if b \<in> set (logged t2) then logged t2 else logged t2 @ [b])"
    "content dsk t3 = content dsk t2" "dsk t3 = dsk t2" "dwrites t3 = dwrites t2" "dirty_blocks t3 = insert b (dirty_blocks t2)"
    "\<forall>j. j \<noteq> i \<longrightarrow> bufs t3 ! j = bufs t2 ! j" "bufs t3 ! i = (bufs t2 ! i)\<lparr>b_flags := b_flags (bufs t2 ! i) OR B_DIRTY\<rparr>"
    "lg_start t3 = lg_start t2" "lg_size t3 = lg_size t2" "lg_outstanding t3 = lg_outstanding t2" "lg_committing t3 = lg_committing t2"
    "same_above t2 t3"
    by (rule log_write_ok [OF t2(1) p(1) t2(2) l(1) t2(3-9)])
  have b3: "buf_for b (bufs t3 ! i)" "b_busy (bufs t3 ! i)" "b_dirty (bufs t3 ! i)"
    using t2(3,4) by (simp_all add: t3(12) buf_for_def)
  obtain t where t: "brelse i t3 = Ret () t" "quiet t" "dev_ok t = dev_ok t3" "cache_ok dsk nblk t" "content dsk t = content dsk t3"
    "dsk t = dsk t3" "dwrites t = dwrites t3" "same_rest t3 t" "dirty_blocks t = dirty_blocks t3"
    "\<And>j. j \<noteq> i \<Longrightarrow> same_but_links (bufs t3 ! j) (bufs t ! j)"
    "same_but_links ((bufs t3 ! i)\<lparr>b_flags := b_flags (bufs t3 ! i) AND NOT B_BUSY\<rparr>) (bufs t ! i)"
    using brelse_ok [OF t3(2,4) l(1) b3(1,2)] b3(3) by metis
  have "\<forall>j. j \<noteq> i \<longrightarrow> bufs t3 ! j = bufs s ! j" using l(5) t3(11) by (simp add: t2_def)
  then have "idle t" by (rule idle_relock [OF h(4) _ t(10,11)])
  then have rt: "ready dsk dev_ok nblk t" using t t3(3) t1(4) by (simp add: ready_def t2_def)
  have dt2: "dirty_blocks t2 = dirty_blocks t1"
    using il l(2) by (intro dirty_blocks_step [OF l(1), where c = b]) (simp_all add: t2_def buf_for_def)
  note tm = log_more [OF t(8)]
  have lg: "logged t = logged t3" "logged t1 = logged s" by (simp_all add: logged_def tm lm)
  have sa: "same_above s t"
    using same_above_rest [OF l(6)] same_above_simps(1) [of t1] t3(17) same_above_rest [OF t(8)]
    unfolding t2_def by (meson same_above_trans)
  have put: "logged_put dsk b ?d s t"
    using t1(2) t3 t p(2) dt2 sa by (simp add: logged_put_def lg tm locked_for_def lm t2_def)
  have "upd_buf i (\<lambda>x. x\<lparr>b_data := f (b_data x)\<rparr>) t1 = t2"
    using t1(6) by (simp add: upd_buf_def t2_def)
  then have "kbind (bread rw 1 b) (\<lambda>i. kseq [kmod (upd_buf i (\<lambda>x. x\<lparr>b_data := f (b_data x)\<rparr>)), log_write i, brelse i]) s = Ret () t"
    using t1(1) t3(1) t(1) by (simp add: prog_simps)
  then show ?thesis using that rt put t3(5) log_ok_same [OF t(8)] by blast
qed

lemma wakeup_frame [simp]:
  "dsk (wakeup1 ch s) = dsk s" "dev_ok (wakeup1 ch s) = dev_ok s" "content dsk (wakeup1 ch s) = content dsk s"
  "dirty_blocks (wakeup1 ch s) = dirty_blocks s" "dwrites (wakeup1 ch s) = dwrites s"
proof -
  show d: "dsk (wakeup1 ch s) = dsk s" by (rule dsk_cong) (simp_all add: wakeup1_def)
  show "dev_ok (wakeup1 ch s) = dev_ok s" by (rule dev_cong) (simp_all add: wakeup1_def)
  show "content dsk (wakeup1 ch s) = content dsk s"
    by (simp add: content_def fun_eq_iff d split: option.split) (simp add: wakeup1_def)
  show "dirty_blocks (wakeup1 ch s) = dirty_blocks s" "dwrites (wakeup1 ch s) = dwrites s"
    by (simp_all add: dirty_blocks_def wakeup1_def)
qed

lemma ready_wakeup: "ready dsk dev_ok nblk s \<Longrightarrow> ready dsk dev_ok nblk (wakeup1 ch s)"
proof -
  assume r: "ready dsk dev_ok nblk s"
  then have "quiet (wakeup1 ch s)" by (auto simp: ready_def quiet_def wakeup1_def wake_one_def)
  moreover have "bufs (wakeup1 ch s) = bufs s" by (simp add: wakeup1_def)
  moreover from this have "bnx (wakeup1 ch s) = bnx s" "bpv (wakeup1 ch s) = bpv s" by (simp_all add: bnx_def bpv_def fun_eq_iff)
  ultimately show ?thesis using r by (simp add: ready_def cache_ok_def idle_def mru_def)
qed

text \<open>A commit in any state between operations: the disk and the contents afterwards.\<close>

lemma commit_effect:
  assumes r: "ready dsk dev_ok nblk s" and lo: "log_ok nblk s" and n: "lh_n s < int NBUF" and d: "dirty_blocks s = set (logged s)"
  obtains t where "commit rw s = Ret () t" "ready dsk dev_ok nblk t" "lh_n t = 0" "dirty_blocks t = {}"
    "same_rest (s\<lparr>lh_n := 0\<rparr>) t"
    "\<And>b. \<not> in_log (lg_start s) (lg_size s) b \<Longrightarrow> dsk t b = content dsk s b \<and> content dsk t b = content dsk s b"
proof (cases "0 < lh_n s")
  case True
  have c: "card (dirty_blocks s) < NBUF"
    using True n card_length [of "logged s"] log_ok_length [OF lo] d by (simp add: nat_less_iff le_less_trans)
  obtain t where t: "commit rw s = Ret () t" "ready dsk dev_ok nblk t" "wrote_all dsk (commit_ws (content dsk s) s) (s\<lparr>lh_n := 0\<rparr>) t"
    using commit_ok [OF r lo True _ c] d by auto
  note e = wrote_allD [OF t(3)]
  have C: "\<forall>b. b \<notin> set (logged s) \<longrightarrow> content dsk s b = dsk s b" using content_idle [OF r] d by auto
  have hf: "in_log (lg_start s) (lg_size s) (word_of_int (lg_start s))" "(word_of_int (lg_start s) :: u32) < nblk"
    using head_facts [of nblk "lg_start s" "lg_size s"] lo by (auto simp: log_ok_def)
  have lh: "length (dsk s (word_of_int (lg_start s))) = BSIZE"
    using content_length [OF r hf(2)] C hf(1) lo by (auto simp: log_ok_def blocks_ok_def)
  have "(1, b, content dsk s b) \<in> set (commit_ws (content dsk s) s)" if "b \<in> set (logged s)" for b
    using that by (simp add: commit_ws_def Let_def)
  then have dt: "dirty_blocks t = {}" using d by (force simp: e(3) image_iff)
  have "dsk t b = content dsk s b" if "\<not> in_log (lg_start s) (lg_size s) b" for b
    using commit_final(2) [OF lo refl lh C that] by (simp add: e(2))
  moreover have "content dsk t b = dsk t b" for b using content_idle [OF t(2)] dt by simp
  ultimately show ?thesis using that [OF t(1,2) _ dt e(4)] e(8) by simp
next
  case False
  then have "lh_n s = 0" "dirty_blocks s = {}" using lo d by (auto simp: log_ok_def logged_def)
  moreover from this have "same_rest (s\<lparr>lh_n := 0\<rparr>) s" by (cases s) (simp add: same_rest_def)
  ultimately show ?thesis
    using False r content_idle [OF r] by (intro that [of s]) (simp_all add: commit_def kwhen_def)
qed

end

lemma log_held_swap:
  "s\<lparr>held := h, lg_outstanding := x\<rparr> = s\<lparr>lg_outstanding := x, held := h\<rparr>"
  "s\<lparr>held := h, lg_committing := c\<rparr> = s\<lparr>lg_committing := c, held := h\<rparr>"
  by (cases s; simp)+

section \<open>Properties\<close>

text \<open>C1. Crash atomicity of the log. \<open>commit\<close> puts the new contents of all logged blocks on the disk and
  clears the log. If the machine stops after any number of the commit's disk writes and boots from the
  disk as it then is, \<open>initlog\<close> succeeds, leaves an empty log, and outside the log area the disk is
  either exactly as before the commit or exactly as after it.\<close>

theorem commit_crash_atomic:
  assumes "ready ide_dsk ide_dev_ok FSSIZE s" and "log_ok FSSIZE s" and "0 < lh_n s" and "lh_n s < int NBUF"
    and "dirty_blocks s = set (logged s)" and "h = word_of_int (lg_start s)" and "disk_n (ide_dsk s h) = 0"
    and "sint (sb_logstart (sb_of (ide_dsk s 1))) = lg_start s" and "sint (sb_nlog (sb_of (ide_dsk s 1))) = lg_size s"
    and "1 \<notin> set (logged s)" and "\<not> in_log (lg_start s) (lg_size s) 1"
  shows "\<exists>t ws. commit iderw s = Ret () t \<and> dwrites t = dwrites s @ ws \<and> lh_n t = 0 \<and> disk_n (ide_dsk t h) = 0 \<and>
     (\<forall>b. \<not> in_log (lg_start s) (lg_size s) b \<longrightarrow> ide_dsk t b = content ide_dsk s b) \<and>
     (\<forall>k \<le> length ws. \<forall>s'. ready ide_dsk ide_dev_ok FSSIZE s' \<and> dirty_blocks s' = {} \<and>
          ide_dsk s' = apply_ws (ide_dsk s) (take k ws) \<longrightarrow>
        (\<exists>t'. initlog iderw 1 s' = Ret () t' \<and> lh_n t' = 0 \<and> disk_n (ide_dsk t' h) = 0 \<and>
           ((\<forall>b. \<not> in_log (lg_start s) (lg_size s) b \<longrightarrow> ide_dsk t' b = ide_dsk s b) \<or>
            (\<forall>b. \<not> in_log (lg_start s) (lg_size s) b \<longrightarrow> ide_dsk t' b = content ide_dsk s b))))"
proof -
  let ?C = "content ide_dsk s" and ?in = "in_log (lg_start s) (lg_size s)"
  define ws where "ws = commit_ws ?C s"
  have len: "card (set (logged s)) < NBUF"
    using assms(3,4) card_length [of "logged s"] log_ok_length [OF assms(2)] by (simp add: nat_less_iff le_less_trans)
  obtain t where t: "commit iderw s = Ret () t" "ready ide_dsk ide_dev_ok FSSIZE t" "wrote_all ide_dsk ws (s\<lparr>lh_n := 0\<rparr>) t"
    using lid.commit_ok [OF assms(1-3)] assms(5) len by (auto simp: ws_def)
  note e = wrote_allD [OF t(3)]
  have C: "\<forall>b. b \<notin> set (logged s) \<longrightarrow> ?C b = ide_dsk s b" using lid.content_idle [OF assms(1)] assms(5) by auto
  have hf: "?in h" "h < FSSIZE" using head_facts [of FSSIZE "lg_start s" "lg_size s"] assms(2,6) by (auto simp: log_ok_def)
  have hC: "?C h = ide_dsk s h" using C hf(1) assms(2) by (auto simp: log_ok_def blocks_ok_def)
  have lh: "length (ide_dsk s h) = BSIZE" using lid.content_length [OF assms(1) hf(2)] hC by simp
  have fin: "disk_n (ide_dsk t h) = 0 \<and> (\<forall>b. \<not> ?in b \<longrightarrow> ide_dsk t b = ?C b)"
    using commit_final [OF assms(2,6) lh C] by (simp add: e(2) ws_def)
  have "\<exists>t'. initlog iderw 1 s' = Ret () t' \<and> lh_n t' = 0 \<and> disk_n (ide_dsk t' h) = 0 \<and>
           ((\<forall>b. \<not> ?in b \<longrightarrow> ide_dsk t' b = ide_dsk s b) \<or> (\<forall>b. \<not> ?in b \<longrightarrow> ide_dsk t' b = ?C b))"
    if k: "k \<le> length ws" and s': "ready ide_dsk ide_dev_ok FSSIZE s'" "dirty_blocks s' = {}" "ide_dsk s' = apply_ws (ide_dsk s) (take k ws)" for k s'
  proof -
    have "\<exists>t'. initlog iderw 1 s' = Ret () t' \<and> ready ide_dsk ide_dev_ok FSSIZE t' \<and> dirty_blocks t' = {} \<and> lh_n t' = 0 \<and> disk_n (ide_dsk t' h) = 0 \<and>
      ((\<forall>b. \<not> ?in b \<longrightarrow> ide_dsk t' b = ide_dsk s b) \<or> (\<forall>b. \<not> ?in b \<longrightarrow> ide_dsk t' b = ?C b))"
      using s' by (intro lid.crash_recovers [OF assms(2,6,7) lh C k [unfolded ws_def]])
        (use assms in \<open>simp_all add: ws_def FSSIZE_def\<close>)
    then show ?thesis by blast
  qed
  then show ?thesis
    using t(1) fin e(8) t(3) by (intro exI [of _ t] exI [of _ ws]) (auto simp: wrote_all_def)
qed

text \<open>C20. \<open>end_op\<close> by an operation that is not the last one writes nothing to the disk and wakes up
  the sleepers on the log; the last one commits: then every logged block is on the disk, no
  buffer is dirty, the log is empty, and the flag that keeps others out is cleared.\<close>

theorem end_op_commits:
  assumes "ready ide_dsk ide_dev_ok FSSIZE s" and "log_ok FSSIZE s" and "lh_n s < int NBUF" and "dirty_blocks s = set (logged s)"
    and "\<not> lg_committing s"
  shows "if lg_outstanding s \<noteq> 1
    then end_op iderw s = Ret () (wakeup1 (Some LogChan) (s\<lparr>lg_outstanding := lg_outstanding s - 1\<rparr>))
    else \<exists>t. end_op iderw s = Ret () t \<and> lg_outstanding t = 0 \<and> \<not> lg_committing t \<and> lh_n t = 0 \<and> dirty_blocks t = {} \<and>
      ready ide_dsk ide_dev_ok FSSIZE t \<and>
      (\<forall>b. \<not> in_log (lg_start s) (lg_size s) b \<longrightarrow> ide_dsk t b = content ide_dsk s b \<and> content ide_dsk t b = content ide_dsk s b)"
proof (cases "lg_outstanding s = 1")
  case False
  let ?u = "s\<lparr>lg_outstanding := lg_outstanding s - 1\<rparr>"
  have h: "held s = {}" "others s = {}" using assms(1) by (simp_all add: ready_def quiet_def)
  have "wakeup (Some LogChan) (?u\<lparr>held := {LogLock}\<rparr>) = Ret () ((wakeup1 (Some LogChan) ?u)\<lparr>held := {LogLock}\<rparr>)"
    using h by (subst wakeup_free) (simp_all add: lock_free_def wakeup1_def)
  then have "end_op iderw s = Ret () (wakeup1 (Some LogChan) ?u)"
    using h False assms(5) held_idem [of "wakeup1 (Some LogChan) ?u"]
    by (simp add: end_op_def acquire_def prog_simps wakeup1_def log_held_swap)
  then show ?thesis using False by simp
next
  case True
  let ?u = "s\<lparr>lg_outstanding := 0, lg_committing := True\<rparr>"
  have h: "held s = {}" "others s = {}" using assms(1) by (simp_all add: ready_def quiet_def)
  have ut: "kdisk.truncate ?u = kdisk.truncate s" by (simp add: kdisk.truncate_def)
  note f = truncate_fields [OF ut] lid.truncate_frame [OF ut]
  have lg: "logged ?u = logged s" "log_ok FSSIZE ?u" using assms(2) by (simp_all add: logged_def log_ok_def)
  have "ready ide_dsk ide_dev_ok FSSIZE ?u" "lh_n ?u < int NBUF" "dirty_blocks ?u = set (logged ?u)"
    using assms lg by (simp_all add: f)
  then obtain t1 where t1: "commit iderw ?u = Ret () t1" "ready ide_dsk ide_dev_ok FSSIZE t1" "lh_n t1 = 0" "dirty_blocks t1 = {}"
      "same_rest (?u\<lparr>lh_n := 0\<rparr>) t1"
      "\<And>b. \<not> in_log (lg_start s) (lg_size s) b \<Longrightarrow> ide_dsk t1 b = content ide_dsk s b \<and> content ide_dsk t1 b = content ide_dsk s b"
    using lid.commit_effect [of ?u] lg(2) by (auto simp: f)
  let ?v = "t1\<lparr>lg_committing := False\<rparr>"
  have vt: "kdisk.truncate ?v = kdisk.truncate t1" by (simp add: kdisk.truncate_def)
  note g = truncate_fields [OF vt] lid.truncate_frame [OF vt]
  have h1: "held t1 = {}" "others t1 = {}" using t1(2) by (simp_all add: ready_def quiet_def)
  have "wakeup (Some LogChan) (?v\<lparr>held := {LogLock}\<rparr>) = Ret () ((wakeup1 (Some LogChan) ?v)\<lparr>held := {LogLock}\<rparr>)"
    using h1 by (subst wakeup_free) (simp_all add: lock_free_def wakeup1_def)
  moreover have "commit iderw (?u\<lparr>held := {}\<rparr>) = Ret () t1"
    by (subst held_idem) (simp_all add: h t1(1))
  ultimately have e: "end_op iderw s = Ret () (wakeup1 (Some LogChan) ?v)"
    using h h1 True assms(5) held_idem [of "wakeup1 (Some LogChan) ?v"]
    by (simp add: end_op_def acquire_def prog_simps wakeup1_def log_held_swap)
  have "ready ide_dsk ide_dev_ok FSSIZE (wakeup1 (Some LogChan) ?v)" using t1(2) by (intro lid.ready_wakeup) (simp add: g)
  moreover have "lg_outstanding (wakeup1 (Some LogChan) ?v) = 0" using log_more(3) [OF t1(5)] by (simp add: wakeup1_def)
  ultimately show ?thesis
    using True e t1(3,4,6) by (simp add: g) (simp add: wakeup1_def)
qed

text \<open>
  The reservation is one block short: \<open>begin_op\<close> lets three operations in at once on an empty log, which
  together may log \<open>LOGSIZE\<close> blocks, but on a log of \<open>LOGSIZE\<close> blocks, one of which is the header, the
  write of the last of them panics.
\<close>

lemma reservation_one_short:
  assumes "held s = {}" "others s = {}" "cur s = Some p" "p < length (procs s)"
    and "\<not> lg_committing s" "lh_n s = 0" "lg_outstanding s = 2" "lg_size s = int LOGSIZE"
  shows "\<exists>t. begin_op s = Ret () t \<and> lg_outstanding t * int MAXOPBLOCKS = int LOGSIZE \<and>
    (\<forall>b bs. log_write b (t\<lparr>lh_n := int LOGSIZE - 1, lh_block := bs\<rparr>) = Panic ''too big a transaction'')"
proof -
  have "s\<lparr>lg_outstanding := 3, held := {}\<rparr> = s\<lparr>lg_outstanding := 3\<rparr>"
    using assms(1) held_idem [of "s\<lparr>lg_outstanding := 3\<rparr>"] by simp
  then have "begin_op s = Ret () (s\<lparr>lg_outstanding := 3\<rparr>)"
    using assms by (simp add: begin_op_def begin_try_def acquire_def prog_simps LOGSIZE_def MAXOPBLOCKS_def)
  then show ?thesis
    using assms(8) by (auto simp: LOGSIZE_def MAXOPBLOCKS_def log_write_def prog_simps)
qed

section \<open>Example runs\<close>

text \<open>A boot disk: the super block says that the log has 30 blocks from block 2 on.\<close>

definition boot_sb :: superblock where
  "boot_sb = \<lparr>sb_size = 1000, sb_nblocks = 941, sb_ninodes = 200, sb_nlog = 30, sb_logstart = 2, sb_inodestart = 32, sb_bmapstart = 58\<rparr>"

definition boot_disk :: "u32 \<Rightarrow> u8 list" where
  "boot_disk b = (if b = 1 then put_words (replicate 512 0) 0 (sb_words boot_sb) else replicate 512 0)"

definition fresh_log :: klog where
  "fresh_log = kdisk.extend ((disk_state (replicate (Suc NBUF) zero_buf))\<lparr>disk := \<lambda>_. boot_disk\<rparr>)
     \<lparr>lg_start = 2, lg_size = 30, lg_outstanding = 1, lg_committing = False, lg_dev = 1, lh_n = 0, lh_block = replicate 30 0\<rparr>"

lemma fresh_log_facts [simp]:
  "bufs fresh_log = replicate (Suc NBUF) zero_buf" "disk fresh_log = (\<lambda>_. boot_disk)" "quiet fresh_log"
  "ide_dsk fresh_log = boot_disk" "kdisk.more fresh_log =
     \<lparr>lg_start = 2, lg_size = 30, lg_outstanding = 1, lg_committing = False, lg_dev = 1, lh_n = 0, lh_block = replicate 30 0\<rparr>"
  by (simp_all add: fresh_log_def kdisk.defs disk_state_def kpipe.defs pipe_state_def kphys.defs kcore.defs core_with_def
      quiet_def ide_dsk_def)

lemma fresh_log_dev: "ide_dev_ok fresh_log"
  using idle_ctl_ok
  by (simp add: ide_dev_ok_def fresh_log_def kdisk.defs disk_state_def kpipe.defs pipe_state_def kphys.defs kcore.defs
      core_with_def boot_disk_def BSIZE_def sb_words_def)

lemma boot_disk_sb: "sint (sb_logstart (sb_of (boot_disk 1))) = 2" "sint (sb_nlog (sb_of (boot_disk 1))) = 30" "disk_n (boot_disk 2) = 0"
proof -
  have b: "boot_disk 1 = put_words (replicate 512 0) 0 (sb_words boot_sb)" by (simp add: boot_disk_def)
  have l: "length (sb_words boot_sb) = 7" by (simp add: sb_words_def)
  have "get32 (boot_disk 1) (0 + 4 * 4) = 2" "get32 (boot_disk 1) (0 + 4 * 3) = 30"
    using get32_put_words [of 0 "sb_words boot_sb" "replicate 512 0" 4] get32_put_words [of 0 "sb_words boot_sb" "replicate 512 0" 3]
    unfolding b by (simp_all add: l) (simp_all add: sb_words_def boot_sb_def)
  then show "sint (sb_logstart (sb_of (boot_disk 1))) = 2" "sint (sb_nlog (sb_of (boot_disk 1))) = 30"
    by (simp_all add: sb_of_def)
  show "disk_n (boot_disk 2) = 0" by (simp add: boot_disk_def disk_n_def get32_def bytes_at_def numeral_eq_Suc)
qed

text \<open>The state after \<open>binit\<close> on a machine at rest, with a log geometry already in memory.\<close>

lemma booted:
  assumes "bufs s = replicate (Suc NBUF) zero_buf" and "quiet s" and "ide_dev_ok s" and "lg_dev s = 1" and "lg_start s = 2" and "lg_size s = 30"
    and "lh_n s = 0" and "length (lh_block s) = 30" and "\<not> lg_committing s" and "lg_outstanding s = 1"
  obtains t where "binit s = Ret () t" "ready ide_dsk ide_dev_ok FSSIZE t" "log_ok FSSIZE t" "logged t = []"
    "dirty_blocks t = {}" "ide_dsk t = ide_dsk s" "lg_start t = 2" "lg_size t = 30" "lg_outstanding t = 1" "lh_n t = 0"
    "\<not> lg_committing t" "kdisk.more t = kdisk.more s"
proof -
  have l: "length (bufs s) = Suc NBUF" using assms(1) by (simp del: replicate.simps)
  from binit_mru [OF this] obtain t where t: "binit s = Ret () t" by blast
  have z: "\<forall>i < NBUF. b_flags (bufs s ! i) = 0 \<and> length (b_data (bufs s ! i)) = BSIZE"
    using assms(1) by (simp add: zero_buf_def BSIZE_def del: replicate.simps)
  note m = binit_ok(3,5) [where dsk = "\<lambda>_ _. []", OF l z refl t]
  have d: "ide_dsk t = ide_dsk s" using m(1) by (simp add: same_machine_def ide_dsk_def)
  have "cache_ok ide_dsk FSSIZE t" by (rule binit_ok(2) [OF l z d t])
  moreover have "idle t" "dirty_blocks t = {}" using m(2) by (auto simp: idle_def dirty_blocks_def flag_bits)
  moreover have "quiet t" "ide_dev_ok t"
    using m(1) assms(2,3) by (simp_all add: same_machine_def quiet_def ide_dev_ok_def)
  moreover have mr: "kdisk.more t = kdisk.more s" using m(1) by (simp add: same_machine_def)
  have lf: "lg_start t = 2" "lg_size t = 30" "lg_outstanding t = 1" "\<not> lg_committing t" "lg_dev t = 1" "lh_n t = 0" "length (lh_block t) = 30"
    using mr assms(4-10) by (cases s; cases t; simp)+
  moreover have "log_ok FSSIZE t" "logged t = []"
    using lf by (simp_all add: log_ok_def logged_def log_geom_def blocks_ok_def FSSIZE_def LOGSIZE_def MAXOPBLOCKS_def)
  ultimately show ?thesis using that t d mr by (simp add: ready_def)
qed

lemma booted_log:
  obtains s where "binit fresh_log = Ret () s" "ready ide_dsk ide_dev_ok FSSIZE s" "log_ok FSSIZE s" "logged s = []"
    "dirty_blocks s = {}" "ide_dsk s = boot_disk" "lg_start s = 2" "lg_size s = 30" "lg_outstanding s = 1" "lh_n s = 0"
    "\<not> lg_committing s"
proof -
  have "lg_dev fresh_log = 1" "lg_start fresh_log = 2" "lg_size fresh_log = 30" "lh_n fresh_log = 0" "length (lh_block fresh_log) = 30"
    "\<not> lg_committing fresh_log" "lg_outstanding fresh_log = 1"
    by (simp_all add: fresh_log_def kdisk.defs)
  from booted [OF fresh_log_facts(1,3) fresh_log_dev this] show ?thesis using that by (metis fresh_log_facts(4))
qed

definition put9 :: "(klog, unit) prog" where
  "put9 = kbind (bread iderw 1 100) (\<lambda>i.
     kseq [kmod (upd_buf i (\<lambda>x. x\<lparr>b_data := replicate 512 9\<rparr>)), log_write i, brelse i])"

lemma one_logged:
  obtains s where "kbind binit (\<lambda>_. put9) fresh_log = Ret () s" "ready ide_dsk ide_dev_ok FSSIZE s" "log_ok FSSIZE s" "logged s = [100]"
    "dirty_blocks s = {100}" "ide_dsk s = boot_disk" "lg_start s = 2" "lg_size s = 30" "lg_outstanding s = 1" "lh_n s = 1"
    "\<not> lg_committing s" "content ide_dsk s 100 = replicate 512 9"
proof -
  obtain s where s: "binit fresh_log = Ret () s" "ready ide_dsk ide_dev_ok FSSIZE s" "log_ok FSSIZE s" "logged s = []"
    "dirty_blocks s = {}" "ide_dsk s = boot_disk" "lg_start s = 2" "lg_size s = 30" "lg_outstanding s = 1" "lh_n s = 0"
    "\<not> lg_committing s" by (rule booted_log)
  obtain t where t: "put9 s = Ret () t" "ready ide_dsk ide_dev_ok FSSIZE t" "log_ok FSSIZE t"
      "logged_put ide_dsk 100 (replicate 512 9) s t"
    using lid.log_update [OF s(2,3), of 100 "\<lambda>_. replicate 512 9"] s
    unfolding put9_def by (auto simp: FSSIZE_def in_log_def NBUF_def LOGSIZE_def MAXOPBLOCKS_def BSIZE_def)
  have f: "logged t = [100]" "dirty_blocks t = {100}" "ide_dsk t = boot_disk" "lg_start t = 2" "lg_size t = 30" "lg_outstanding t = 1"
    "\<not> lg_committing t" "content ide_dsk t 100 = replicate 512 9"
    using t(4) s by (simp_all add: logged_put_def)
  have "lh_n t = 1" using log_ok_length [OF t(3)] t(3) f(1) by (simp add: log_ok_def)
  then show ?thesis using that [of t] t f s(1) by (simp add: prog_simps)
qed

theorem commit_crash_atomic_witness:
  "\<exists>s t ws. kbind binit (\<lambda>_. put9) fresh_log = Ret () s \<and> commit iderw s = Ret () t \<and> dwrites t = dwrites s @ ws \<and>
     ide_dsk t 100 = replicate 512 9 \<and>
     (\<forall>k \<le> length ws. \<forall>s' :: klog. ready ide_dsk ide_dev_ok FSSIZE s' \<and> dirty_blocks s' = {} \<and>
          ide_dsk s' = apply_ws boot_disk (take k ws) \<longrightarrow>
        (\<exists>t'. initlog iderw 1 s' = Ret () t' \<and> (ide_dsk t' 100 = replicate 512 0 \<or> ide_dsk t' 100 = replicate 512 9)))"
proof -
  obtain s where s: "kbind binit (\<lambda>_. put9) fresh_log = Ret () s" "ready ide_dsk ide_dev_ok FSSIZE s" "log_ok FSSIZE s" "logged s = [100]"
    "dirty_blocks s = {100}" "ide_dsk s = boot_disk" "lg_start s = 2" "lg_size s = 30" "lg_outstanding s = 1" "lh_n s = 1"
    "\<not> lg_committing s" "content ide_dsk s 100 = replicate 512 9" by (rule one_logged)
  have i: "\<not> in_log (lg_start s) (lg_size s) 100" "\<not> in_log (lg_start s) (lg_size s) 1" by (simp_all add: in_log_def s)
  have b: "boot_disk 100 = replicate 512 0" by (simp add: boot_disk_def)
  have a: "0 < lh_n s" "lh_n s < int NBUF" "dirty_blocks s = set (logged s)" "2 = word_of_int (lg_start s)" "disk_n (ide_dsk s 2) = 0"
    "sint (sb_logstart (sb_of (ide_dsk s 1))) = lg_start s" "sint (sb_nlog (sb_of (ide_dsk s 1))) = lg_size s" "1 \<notin> set (logged s)"
    using boot_disk_sb by (simp_all add: s NBUF_def)
  from commit_crash_atomic [OF s(2,3) a i(2)] obtain t ws where t: "commit iderw s = Ret () t" "dwrites t = dwrites s @ ws"
     "\<forall>b. \<not> in_log (lg_start s) (lg_size s) b \<longrightarrow> ide_dsk t b = content ide_dsk s b"
     "\<forall>k \<le> length ws. \<forall>s' :: klog. ready ide_dsk ide_dev_ok FSSIZE s' \<and> dirty_blocks s' = {} \<and>
          ide_dsk s' = apply_ws (ide_dsk s) (take k ws) \<longrightarrow>
        (\<exists>t'. initlog iderw 1 s' = Ret () t' \<and> lh_n t' = 0 \<and> disk_n (ide_dsk t' 2) = 0 \<and>
           ((\<forall>b. \<not> in_log (lg_start s) (lg_size s) b \<longrightarrow> ide_dsk t' b = ide_dsk s b) \<or>
            (\<forall>b. \<not> in_log (lg_start s) (lg_size s) b \<longrightarrow> ide_dsk t' b = content ide_dsk s b)))"
    by blast
  from t(4) have "\<forall>k \<le> length ws. \<forall>s' :: klog. ready ide_dsk ide_dev_ok FSSIZE s' \<and> dirty_blocks s' = {} \<and>
          ide_dsk s' = apply_ws boot_disk (take k ws) \<longrightarrow>
        (\<exists>t'. initlog iderw 1 s' = Ret () t' \<and> (ide_dsk t' 100 = replicate 512 0 \<or> ide_dsk t' 100 = replicate 512 9))"
    unfolding s(6) b [symmetric] s(12) [symmetric] using i(1) by meson
  then show ?thesis using s(1) t(1,2) t(3) i(1) s(12) by metis
qed

theorem end_op_commits_witness:
  "\<exists>s t. kbind binit (\<lambda>_. put9) fresh_log = Ret () s \<and> end_op iderw s = Ret () t \<and> ide_dsk t 100 = replicate 512 9 \<and> lh_n t = 0"
proof -
  obtain s where s: "kbind binit (\<lambda>_. put9) fresh_log = Ret () s" "ready ide_dsk ide_dev_ok FSSIZE s" "log_ok FSSIZE s" "logged s = [100]"
    "dirty_blocks s = {100}" "ide_dsk s = boot_disk" "lg_start s = 2" "lg_size s = 30" "lg_outstanding s = 1" "lh_n s = 1"
    "\<not> lg_committing s" "content ide_dsk s 100 = replicate 512 9" by (rule one_logged)
  have i: "\<not> in_log (lg_start s) (lg_size s) 100" by (simp add: in_log_def s)
  have "lh_n s < int NBUF" "dirty_blocks s = set (logged s)" by (simp_all add: s NBUF_def)
  from end_op_commits [OF s(2,3) this s(11)] s(1,9,12) i show ?thesis by auto
qed

end
