(* ===== verification/Inode.thy ===== *)
theory Inode
  imports Log
begin

text \<open>
  The lower half of \<open>src/HW3/fs.c\<close>: the block allocator (\<open>balloc\<close>, \<open>bfree\<close>), the inode cache
  (\<open>iget\<close>, \<open>idup\<close>, \<open>ilock\<close>, \<open>iunlock\<close>, \<open>iput\<close>, \<open>ialloc\<close>, \<open>iupdate\<close>) and the block map of an
  inode (\<open>bmap\<close>, \<open>itrunc\<close>). From here on the disk driver is \<open>iderw\<close>. The record also
  holds the console and the device table, which the upper half of the file system needs.
  A pointer to an inode is its index in the cache.
\<close>

section \<open>State\<close>

definition NINODE :: nat where "NINODE = 50"
definition NDEV :: nat where "NDEV = 10"
definition ROOTDEV :: u32 where "ROOTDEV = 1"

definition I_BUSY :: u32 where "I_BUSY = 1"
definition I_VALID :: u32 where "I_VALID = 2"

definition T_DIR :: u16 where "T_DIR = 1"
definition T_FILE :: u16 where "T_FILE = 2"
definition T_DEV :: u16 where "T_DEV = 3"

record inode =
  i_dev :: u32
  i_inum :: u32
  i_ref :: int
  i_flags :: u32
  i_type :: u16
  i_major :: u16
  i_minor :: u16
  i_nlink :: u16
  i_size :: u32
  i_addrs :: "u32 list"

text \<open>The functions a device registers; the console is the only device of the kernel.\<close>

datatype devfun = ConsoleRead | ConsoleWrite

record kfs = klog +
  sb :: superblock
  inodes :: "inode list"
  devsw :: "(devfun option \<times> devfun option) list"
  panicked :: bool
  cons_locking :: bool
  in_buf :: "u8 list"
  in_r :: u32
  in_w :: u32
  in_e :: u32
  crt :: "u16 list"
  crt_pos :: int
  uart :: bool
  uart_out :: "u8 list"

definition upd_inode :: "nat \<Rightarrow> (inode \<Rightarrow> inode) \<Rightarrow> 'z kfs_scheme \<Rightarrow> 'z kfs_scheme" where
  "upd_inode i f s = s\<lparr>inodes := (inodes s)[i := f (inodes s ! i)]\<rparr>"

definition i_busy :: "inode \<Rightarrow> bool" where "i_busy x \<longleftrightarrow> i_flags x AND I_BUSY \<noteq> 0"
definition i_valid :: "inode \<Rightarrow> bool" where "i_valid x \<longleftrightarrow> i_flags x AND I_VALID \<noteq> 0"

section \<open>Blocks\<close>

definition bzero :: "u32 \<Rightarrow> u32 \<Rightarrow> ('z kfs_scheme, unit) prog" where
  "bzero dev bno =
     kbind (bread iderw dev bno) (\<lambda>bp.
     kseq [kmod (upd_buf bp (\<lambda>b. b\<lparr>b_data := replicate BSIZE 0\<rparr>)),
           log_write bp,
           brelse bp])"

text \<open>A bit of the free map: byte \<open>bi/8\<close>, bit \<open>bi%8\<close> of its block.\<close>

definition bit_mask :: "nat \<Rightarrow> u8" where "bit_mask bi = push_bit (bi mod 8) 1"

definition in_use :: "u8 list \<Rightarrow> nat \<Rightarrow> bool" where "in_use d bi \<longleftrightarrow> d ! (bi div 8) AND bit_mask bi \<noteq> 0"

definition mark :: "nat \<Rightarrow> u8 list \<Rightarrow> u8 list" where
  "mark bi d = d[bi div 8 := d ! (bi div 8) OR bit_mask bi]"

definition unmark :: "nat \<Rightarrow> u8 list \<Rightarrow> u8 list" where
  "unmark bi d = d[bi div 8 := d ! (bi div 8) AND NOT (bit_mask bi)]"

text \<open>The outer loop of \<open>balloc\<close> over the blocks of the free map, \<open>b = k * BPB\<close>.\<close>

fun balloc_from :: "u32 \<Rightarrow> nat list \<Rightarrow> ('z kfs_scheme, u32) prog" where
  "balloc_from dev [] = kpanic ''balloc: out of blocks''"
| "balloc_from dev (k # ks) =
     kbind (kget sb) (\<lambda>SB.
     kbind (bread iderw dev (BBLOCK (of_nat (k * BPB)) SB)) (\<lambda>bp.
     kbind (kget (\<lambda>s. find (\<lambda>bi. \<not> in_use (b_data (bufs s ! bp)) bi) [0..<min BPB (unat (sb_size SB) - k * BPB)])) (\<lambda>r.
       case r of
         Some bi \<Rightarrow>
           kbind (kseq [kmod (upd_buf bp (\<lambda>b. b\<lparr>b_data := mark bi (b_data b)\<rparr>)),
                        log_write bp,
                        brelse bp]) (\<lambda>_.
           kbind (bzero dev (of_nat (k * BPB + bi))) (\<lambda>_.
           kret (of_nat (k * BPB + bi))))
       | None \<Rightarrow> kbind (brelse bp) (\<lambda>_. balloc_from dev ks))))"

definition balloc :: "u32 \<Rightarrow> ('z kfs_scheme, u32) prog" where
  "balloc dev = kbind (kget (\<lambda>s. unat (sb_size (sb s)))) (\<lambda>n. balloc_from dev [0..<(n + BPB - 1) div BPB])"

definition bfree :: "u32 \<Rightarrow> u32 \<Rightarrow> ('z kfs_scheme, unit) prog" where
  "bfree dev b =
     kbind (readsb iderw dev) (\<lambda>SB.
     kbind (kmod (\<lambda>s. s\<lparr>sb := SB\<rparr>)) (\<lambda>_.
     kbind (bread iderw dev (BBLOCK b SB)) (\<lambda>bp.
     kseq [panic_if (\<lambda>s. \<not> in_use (b_data (bufs s ! bp)) (unat b mod BPB)) ''freeing free block'',
           kmod (upd_buf bp (\<lambda>x. x\<lparr>b_data := unmark (unat b mod BPB) (b_data x)\<rparr>)),
           log_write bp,
           brelse bp])))"

section \<open>The inode cache\<close>

definition iinit :: "u32 \<Rightarrow> ('z kfs_scheme, unit) prog" where
  "iinit dev = kbind (readsb iderw dev) (\<lambda>SB. kmod (\<lambda>s. s\<lparr>sb := SB\<rparr>))"

definition iget :: "u32 \<Rightarrow> u32 \<Rightarrow> ('z kfs_scheme, nat) prog" where
  "iget dev inum =
     kbind (acquire IcacheLock) (\<lambda>_.
     kbind (kget (\<lambda>s. find_idx (\<lambda>x. i_ref x > 0 \<and> i_dev x = dev \<and> i_inum x = inum) (inodes s))) (\<lambda>r.
       case r of
         Some i \<Rightarrow>
           kbind (kseq [kmod (upd_inode i (\<lambda>x. x\<lparr>i_ref := i_ref x + 1\<rparr>)), release IcacheLock]) (\<lambda>_. kret i)
       | None \<Rightarrow>
           kbind (kget (\<lambda>s. find_idx (\<lambda>x. i_ref x = 0) (inodes s))) (\<lambda>e.
             case e of
               None \<Rightarrow> kpanic ''iget: no inodes''
             | Some i \<Rightarrow>
                 kbind (kseq [kmod (upd_inode i (\<lambda>x. x\<lparr>i_dev := dev, i_inum := inum, i_ref := 1, i_flags := 0\<rparr>)),
                              release IcacheLock]) (\<lambda>_. kret i))))"

definition idup :: "nat \<Rightarrow> ('z kfs_scheme, nat) prog" where
  "idup ip =
     kbind (kseq [acquire IcacheLock,
                  kmod (upd_inode ip (\<lambda>x. x\<lparr>i_ref := i_ref x + 1\<rparr>)),
                  release IcacheLock]) (\<lambda>_. kret ip)"

text \<open>Byte offset of an inode in its block: entry \<open>inum % IPB\<close>.\<close>

definition dinode_off :: "u32 \<Rightarrow> nat" where "dinode_off inum = unat inum mod IPB * DINODE_SIZE"

definition load_inode :: "dinode \<Rightarrow> inode \<Rightarrow> inode" where
  "load_inode d x = x\<lparr>i_type := d_type d, i_major := d_major d, i_minor := d_minor d, i_nlink := d_nlink d,
     i_size := d_size d, i_addrs := d_addrs d\<rparr>"

definition dinode_of :: "inode \<Rightarrow> dinode" where
  "dinode_of x = \<lparr>d_type = i_type x, d_major = i_major x, d_minor = i_minor x, d_nlink = i_nlink x,
     d_size = i_size x, d_addrs = i_addrs x\<rparr>"

definition ilock_load :: "nat \<Rightarrow> ('z kfs_scheme, unit) prog" where
  "ilock_load ip =
     kbind (kget (\<lambda>s. inodes s ! ip)) (\<lambda>x.
     kwhen (\<not> i_valid x)
       (kbind (kget sb) (\<lambda>SB.
        kbind (bread iderw (i_dev x) (IBLOCK (i_inum x) SB)) (\<lambda>bp.
        kbind (kget (\<lambda>s. get_dinode (b_data (bufs s ! bp)) (dinode_off (i_inum x)))) (\<lambda>d.
        kseq [kmod (upd_inode ip (load_inode d)),
              brelse bp,
              kmod (upd_inode ip (\<lambda>x. x\<lparr>i_flags := i_flags x OR I_VALID\<rparr>)),
              panic_if (\<lambda>s. i_type (inodes s ! ip) = 0) ''ilock: no type''])))))"

text \<open>The loop \<open>while(ip->flags & I_BUSY) sleep(...)\<close>: either the path goes to sleep, or it goes on.\<close>

definition ilock_try :: "nat \<Rightarrow> ('z kfs_scheme, unit) prog" where
  "ilock_try ip =
     kbind (kget (\<lambda>s. i_busy (inodes s ! ip))) (\<lambda>busy.
       if busy then sleep (Some (InodeChan ip)) (Some IcacheLock)
       else kseq [kmod (upd_inode ip (\<lambda>x. x\<lparr>i_flags := i_flags x OR I_BUSY\<rparr>)),
                  release IcacheLock,
                  ilock_load ip])"

definition ilock :: "nat \<Rightarrow> ('z kfs_scheme, unit) prog" where
  "ilock ip =
     kseq [panic_if (\<lambda>s. i_ref (inodes s ! ip) < 1) ''ilock'',
           acquire IcacheLock,
           ilock_try ip]"

definition ilock_resume :: "nat \<Rightarrow> ('z kfs_scheme, unit) prog" where
  "ilock_resume ip = kseq [sleep_resume IcacheLock, ilock_try ip]"

definition iunlock :: "nat \<Rightarrow> ('z kfs_scheme, unit) prog" where
  "iunlock ip =
     kseq [panic_if (\<lambda>s. \<not> i_busy (inodes s ! ip) \<or> i_ref (inodes s ! ip) < 1) ''iunlock'',
           acquire IcacheLock,
           kmod (upd_inode ip (\<lambda>x. x\<lparr>i_flags := i_flags x AND NOT I_BUSY\<rparr>)),
           wakeup (Some (InodeChan ip)),
           release IcacheLock]"

definition iupdate :: "nat \<Rightarrow> ('z kfs_scheme, unit) prog" where
  "iupdate ip =
     kbind (kget (\<lambda>s. inodes s ! ip)) (\<lambda>x.
     kbind (kget sb) (\<lambda>SB.
     kbind (bread iderw (i_dev x) (IBLOCK (i_inum x) SB)) (\<lambda>bp.
     kseq [kmod (upd_buf bp (\<lambda>b. b\<lparr>b_data := put_dinode (b_data b) (dinode_off (i_inum x)) (dinode_of x)\<rparr>)),
           log_write bp,
           brelse bp])))"

definition zero_dinode :: "u16 \<Rightarrow> dinode" where
  "zero_dinode ty = \<lparr>d_type = ty, d_major = 0, d_minor = 0, d_nlink = 0, d_size = 0, d_addrs = replicate (NDIRECT + 1) 0\<rparr>"

fun ialloc_from :: "u32 \<Rightarrow> u16 \<Rightarrow> nat list \<Rightarrow> ('z kfs_scheme, nat) prog" where
  "ialloc_from dev ty [] = kpanic ''ialloc: no inodes''"
| "ialloc_from dev ty (inum # is) =
     kbind (kget sb) (\<lambda>SB.
     kbind (bread iderw dev (IBLOCK (of_nat inum) SB)) (\<lambda>bp.
     kbind (kget (\<lambda>s. d_type (get_dinode (b_data (bufs s ! bp)) (dinode_off (of_nat inum))))) (\<lambda>t.
       if t = 0 then
         kbind (kseq [kmod (upd_buf bp (\<lambda>b. b\<lparr>b_data := put_dinode (b_data b) (dinode_off (of_nat inum)) (zero_dinode ty)\<rparr>)),
                      log_write bp,
                      brelse bp]) (\<lambda>_.
         iget dev (of_nat inum))
       else kbind (brelse bp) (\<lambda>_. ialloc_from dev ty is))))"

definition ialloc :: "u32 \<Rightarrow> u16 \<Rightarrow> ('z kfs_scheme, nat) prog" where
  "ialloc dev ty = kbind (kget (\<lambda>s. unat (sb_ninodes (sb s)))) (\<lambda>n. ialloc_from dev ty [1..<n])"

section \<open>The blocks of an inode\<close>

definition set_addr :: "nat \<Rightarrow> nat \<Rightarrow> u32 \<Rightarrow> 'z kfs_scheme \<Rightarrow> 'z kfs_scheme" where
  "set_addr ip k a = upd_inode ip (\<lambda>x. x\<lparr>i_addrs := (i_addrs x)[k := a]\<rparr>)"

text \<open>\<open>if((addr = ip->addrs[k]) == 0) ip->addrs[k] = addr = balloc(ip->dev);\<close>\<close>

definition addr_or_alloc :: "nat \<Rightarrow> nat \<Rightarrow> ('z kfs_scheme, u32) prog" where
  "addr_or_alloc ip k =
     kbind (kget (\<lambda>s. inodes s ! ip)) (\<lambda>x.
       if i_addrs x ! k \<noteq> 0 then kret (i_addrs x ! k)
       else kbind (balloc (i_dev x)) (\<lambda>a. kbind (kmod (set_addr ip k a)) (\<lambda>_. kret a)))"

definition bmap :: "nat \<Rightarrow> nat \<Rightarrow> ('z kfs_scheme, u32) prog" where
  "bmap ip bn =
     (if bn < NDIRECT then addr_or_alloc ip bn
      else if bn - NDIRECT < NINDIRECT then
        kbind (addr_or_alloc ip NDIRECT) (\<lambda>ind.
        kbind (kget (\<lambda>s. i_dev (inodes s ! ip))) (\<lambda>dev.
        kbind (bread iderw dev ind) (\<lambda>bp.
        kbind (kget (\<lambda>s. get32 (b_data (bufs s ! bp)) (4 * (bn - NDIRECT)))) (\<lambda>addr.
        kbind (if addr \<noteq> 0 then kret addr
               else kbind (balloc dev) (\<lambda>a.
                    kbind (kseq [kmod (upd_buf bp (\<lambda>b. b\<lparr>b_data := put32 (b_data b) (4 * (bn - NDIRECT)) a\<rparr>)),
                                 log_write bp]) (\<lambda>_. kret a))) (\<lambda>addr.
        kbind (brelse bp) (\<lambda>_. kret addr))))))
      else kpanic ''bmap: out of range'')"

definition itrunc_direct :: "nat \<Rightarrow> nat \<Rightarrow> ('z kfs_scheme, unit) prog" where
  "itrunc_direct ip i =
     kbind (kget (\<lambda>s. inodes s ! ip)) (\<lambda>x.
     kwhen (i_addrs x ! i \<noteq> 0) (kseq [bfree (i_dev x) (i_addrs x ! i), kmod (set_addr ip i 0)]))"

definition itrunc :: "nat \<Rightarrow> ('z kfs_scheme, unit) prog" where
  "itrunc ip =
     kbind (kfor [0..<NDIRECT] (itrunc_direct ip)) (\<lambda>_.
     kbind (kget (\<lambda>s. inodes s ! ip)) (\<lambda>x.
     kbind (kwhen (i_addrs x ! NDIRECT \<noteq> 0)
       (kbind (bread iderw (i_dev x) (i_addrs x ! NDIRECT)) (\<lambda>bp.
        kseq [kfor [0..<NINDIRECT] (\<lambda>j.
                kbind (kget (\<lambda>s. get32 (b_data (bufs s ! bp)) (4 * j))) (\<lambda>a. kwhen (a \<noteq> 0) (bfree (i_dev x) a))),
              brelse bp,
              bfree (i_dev x) (i_addrs x ! NDIRECT),
              kmod (set_addr ip NDIRECT 0)]))) (\<lambda>_.
     kseq [kmod (upd_inode ip (\<lambda>x. x\<lparr>i_size := 0\<rparr>)),
           iupdate ip])))"

definition iput :: "nat \<Rightarrow> ('z kfs_scheme, unit) prog" where
  "iput ip =
     kbind (acquire IcacheLock) (\<lambda>_.
     kbind (kget (\<lambda>s. inodes s ! ip)) (\<lambda>x.
     kseq [kwhen (i_ref x = 1 \<and> i_valid x \<and> i_nlink x = 0)
             (kseq [panic_if (\<lambda>s. i_busy (inodes s ! ip)) ''iput busy'',
                    kmod (upd_inode ip (\<lambda>x. x\<lparr>i_flags := i_flags x OR I_BUSY\<rparr>)),
                    release IcacheLock,
                    itrunc ip,
                    kmod (upd_inode ip (\<lambda>x. x\<lparr>i_type := 0\<rparr>)),
                    iupdate ip,
                    acquire IcacheLock,
                    kmod (upd_inode ip (\<lambda>x. x\<lparr>i_flags := 0\<rparr>)),
                    wakeup (Some (InodeChan ip))]),
           kmod (upd_inode ip (\<lambda>x. x\<lparr>i_ref := i_ref x - 1\<rparr>)),
           release IcacheLock]))"

definition iunlockput :: "nat \<Rightarrow> ('z kfs_scheme, unit) prog" where
  "iunlockput ip = kseq [iunlock ip, iput ip]"

section \<open>Logged updates\<close>

text \<open>
  Inside a transaction: the buffer cache is at rest, the log is in order, and there is room for
  \<open>n\<close> more blocks in the log and in the cache.
\<close>

definition in_op :: "nat \<Rightarrow> 'z kfs_scheme \<Rightarrow> bool" where
  "in_op n s \<longleftrightarrow> ready ide_dsk ide_dev_ok FSSIZE s \<and> log_ok FSSIZE s \<and> 1 \<le> lg_outstanding s \<and>
     lh_n s + int n \<le> int LOGSIZE \<and> lh_n s + int n \<le> lg_size s - 1 \<and> card (dirty_blocks s) + n < NBUF"

text \<open>The current contents of a block, and a block the log does not live in.\<close>

abbreviation blk :: "'z kfs_scheme \<Rightarrow> u32 \<Rightarrow> u8 list" where
  "blk s \<equiv> content ide_dsk s"

definition data_block :: "'z kfs_scheme \<Rightarrow> u32 \<Rightarrow> bool" where
  "data_block s b \<longleftrightarrow> b < FSSIZE \<and> \<not> in_log (lg_start s) (lg_size s) b"

text \<open>What a logged update of block contents leaves alone.\<close>

definition same_fs :: "'z kfs_scheme \<Rightarrow> 'z kfs_scheme \<Rightarrow> bool" where
  "same_fs s t \<longleftrightarrow> klog.more t = klog.more s \<and> lg_start t = lg_start s \<and> lg_size t = lg_size s \<and>
     ide_dsk t = ide_dsk s \<and> dwrites t = dwrites s \<and> cur t = cur s \<and> map proc_core (procs t) = map proc_core (procs s)"

lemma same_fs_refl [simp]: "same_fs s s"
  by (simp add: same_fs_def)

lemma same_fs_trans: "same_fs s t \<Longrightarrow> same_fs t u \<Longrightarrow> same_fs s u"
  by (simp add: same_fs_def)

lemma same_fsD:
  assumes "same_fs s t"
  shows "sb t = sb s" "inodes t = inodes s" "data_block t b = data_block s b" "lg_start t = lg_start s" "lg_size t = lg_size s"
proof -
  have m: "klog.more t = klog.more s" using assms by (simp add: same_fs_def)
  show "sb t = sb s" "inodes t = inodes s" using m by (cases s; cases t; simp)+
  show "data_block t b = data_block s b" "lg_start t = lg_start s" "lg_size t = lg_size s"
    using assms by (simp_all add: same_fs_def data_block_def)
qed

lemma in_opD:
  assumes "in_op (Suc n) s"
  shows "ready ide_dsk ide_dev_ok FSSIZE s" "log_ok FSSIZE s" "card (dirty_blocks s) < NBUF" "lh_n s < int LOGSIZE"
    "lh_n s < lg_size s - 1" "1 \<le> lg_outstanding s" "quiet s" "ide_dev_ok s" "cache_ok ide_dsk FSSIZE s" "idle s"
  using assms by (auto simp: in_op_def ready_def)

lemma logged_put_in_op:
  assumes "in_op (Suc n) s" and "logged_put ide_dsk b d s t" and "ready ide_dsk ide_dev_ok FSSIZE t" and "log_ok FSSIZE t"
  shows "in_op n t" and "same_fs s t"
proof -
  have p: "dirty_blocks t = insert b (dirty_blocks s)" "logged t = (if b \<in> set (logged s) then logged s else logged s @ [b])"
    "lg_size t = lg_size s" "lg_outstanding t = lg_outstanding s"
    using assms(2) by (simp_all add: logged_put_def)
  have "length (logged t) \<le> Suc (length (logged s))" using p(2) by simp
  then have "lh_n t \<le> lh_n s + 1"
    using log_ok_length [OF assms(4)] log_ok_length [OF in_opD(2) [OF assms(1)]] assms(4) in_opD(2) [OF assms(1)]
    by (simp add: log_ok_def) linarith
  moreover have "card (dirty_blocks t) \<le> Suc (card (dirty_blocks s))" using p(1) by (simp add: card_insert_le_m1 card_insert_if)
  ultimately show "in_op n t" using assms(1,3,4) p(3,4) by (auto simp: in_op_def)
  show "same_fs s t" using assms(2) by (simp add: same_fs_def logged_put_def same_above_def)
qed

text \<open>Locking a block for an update: the state after \<open>bread\<close>, from which either the update or the release goes on.\<close>

lemma bread_update:
  assumes "in_op (Suc n) s" and "data_block s b" and "length (f (blk s b)) = BSIZE"
  obtains i t1 t where "bread iderw 1 b s = Ret i t1" "b_data (bufs t1 ! i) = blk s b" "same_fs s t1"
    "kseq [kmod (upd_buf i (\<lambda>x. x\<lparr>b_data := f (b_data x)\<rparr>)), log_write i, brelse i] t1 = Ret () t"
    "in_op n t" "same_fs s t" "blk t = (blk s)(b := f (blk s b))"
proof -
  note d = in_opD [OF assms(1)]
  have b: "b < FSSIZE" "\<not> in_log (lg_start s) (lg_size s) b" using assms(2) by (simp_all add: data_block_def)
  obtain i t1 where t1: "bread iderw 1 b s = Ret i t1" "locked_for ide_dsk FSSIZE b i s t1" "quiet t1" "ide_dev_ok t1"
      "b_valid (bufs t1 ! i)" "b_data (bufs t1 ! i) = blk s b"
    by (rule id.bread_ok [OF d(7-9) b(1) able_idle [OF d(9,10,3)]])
  obtain t where t: "kbind (bread iderw 1 b) (\<lambda>i. kseq [kmod (upd_buf i (\<lambda>x. x\<lparr>b_data := f (b_data x)\<rparr>)), log_write i, brelse i]) s = Ret () t"
    "ready ide_dsk ide_dev_ok FSSIZE t" "log_ok FSSIZE t" "logged_put ide_dsk b (f (blk s b)) s t"
    by (rule lid.log_update [where f = f, OF d(1,2) b d(3-6) assms(3)])
  note p = logged_put_in_op [OF assms(1) t(4,2,3)]
  have "same_fs s t1" using t1(2) log_more [of s t1] same_above_rest [of s t1] by (auto simp: locked_for_def same_fs_def same_above_def)
  moreover have "blk t = (blk s)(b := f (blk s b))" using t(4) by (simp add: logged_put_def)
  ultimately show ?thesis using that t1(1,6) t(1) p by simp
qed

lemma bread_look:
  assumes "in_op (Suc n) s" and "b < FSSIZE"
  obtains i t1 t where "bread iderw 1 b s = Ret i t1" "b_data (bufs t1 ! i) = blk s b" "same_fs s t1"
    "brelse i t1 = Ret () t" "in_op (Suc n) t" "same_fs s t" "blk t = blk s"
proof -
  note d = in_opD [OF assms(1)]
  obtain i t1 where t1: "bread iderw 1 b s = Ret i t1" "locked_for ide_dsk FSSIZE b i s t1" "quiet t1" "ide_dev_ok t1"
      "b_valid (bufs t1 ! i)" "b_data (bufs t1 ! i) = blk s b"
    by (rule id.bread_ok [OF d(7-9) assms(2) able_idle [OF d(9,10,3)]])
  obtain t where t: "kbind (bread iderw 1 b) (\<lambda>i. kbind (kget (\<lambda>s. id (b_data (bufs s ! i)))) (\<lambda>x. kbind (brelse i) (\<lambda>_. kret x))) s
       = Ret (id (blk s b)) t" "ready ide_dsk ide_dev_ok FSSIZE t" "same_store ide_dsk s t"
    by (rule id.read_block [OF d(1) assms(2) d(3)])
  have sr: "same_rest s t" "same_rest s t1" using t(3) t1(2) by (simp_all add: same_store_def locked_for_def)
  note lm = log_more [OF sr(1)]
  have "brelse i t1 = Ret () t" using t(1) t1(1) by (auto simp: kbind_eq_Ret)
  moreover have "same_fs s t1" "same_fs s t"
    using t1(2) t(3) log_more [OF sr(2)] lm same_above_rest [OF sr(1)] same_above_rest [OF sr(2)]
    by (auto simp: locked_for_def same_store_def same_fs_def same_above_def)
  moreover have "in_op (Suc n) t" using assms(1) t(2,3) lm log_ok_same [OF sr(1)] by (simp add: in_op_def same_store_def)
  moreover have "blk t = blk s" using t(3) by (simp add: same_store_def)
  ultimately show ?thesis using that t1(1,6) by blast
qed

section \<open>Allocating and freeing blocks\<close>

text \<open>The disk has fewer blocks than one block of the free map has bits.\<close>

lemma one_bitmap_block: "0 < unat n \<Longrightarrow> n \<le> FSSIZE \<Longrightarrow> [0..<(unat n + BPB - 1) div BPB] = [0]"
proof -
  assume "0 < unat n" "n \<le> FSSIZE"
  then have "(unat n + BPB - 1) div BPB = 1"
    by (intro div_nat_eqI) (simp_all add: FSSIZE_def BPB_def BSIZE_def word_le_nat_alt)
  then show ?thesis by simp
qed

lemma mark_facts:
  assumes "bi < BPB" and "length d = BSIZE"
  shows "length (mark bi d) = BSIZE" "length (unmark bi d) = BSIZE" "in_use (mark bi d) bi"
    "\<not> in_use d bi \<Longrightarrow> unmark bi (mark bi d) = d"
proof -
  have l: "bi div 8 < length d" using assms by (simp add: BPB_def less_mult_imp_div_less mult.commute)
  have m: "bit_mask bi \<noteq> 0" by (simp add: bit_mask_def push_bit_eq_mult) 
  show "length (mark bi d) = BSIZE" "length (unmark bi d) = BSIZE" using assms(2) by (simp_all add: mark_def unmark_def)
  show "in_use (mark bi d) bi" using l m by (simp add: in_use_def mark_def bit.conj_disj_distrib2 or_eq_0_iff)
  assume "\<not> in_use d bi"
  then have z: "d ! (bi div 8) AND bit_mask bi = 0" by (simp add: in_use_def)
  have "(d ! (bi div 8) OR bit_mask bi) AND NOT (bit_mask bi) = d ! (bi div 8)"
    by (rule bit_word_eqI) (use z in \<open>auto simp: bit_simps bit_eq_iff\<close>)
  then show "unmark bi (mark bi d) = d" using l by (simp add: mark_def unmark_def)
qed

lemma bzero_ok:
  assumes "in_op (Suc n) s" and "data_block s b"
  obtains t where "bzero 1 b s = Ret () t" "in_op n t" "same_fs s t" "blk t = (blk s)(b := replicate BSIZE 0)"
proof -
  obtain i t1 t where t: "bread iderw 1 b s = Ret i t1"
    "kseq [kmod (upd_buf i (\<lambda>x. x\<lparr>b_data := (\<lambda>_. replicate BSIZE 0) (b_data x)\<rparr>)), log_write i, brelse i] t1 = Ret () t"
    "in_op n t" "same_fs s t" "blk t = (blk s)(b := replicate BSIZE 0)"
    by (rule bread_update [OF assms, of "\<lambda>_. replicate BSIZE 0"]) simp_all
  then have "bzero 1 b s = Ret () t" by (simp add: bzero_def)
  then show ?thesis using that t by blast
qed

text \<open>The free map of the disk, and the first free block in it.\<close>

definition bitmap :: "'z kfs_scheme \<Rightarrow> u8 list" where
  "bitmap s = blk s (sb_bmapstart (sb s))"

definition first_free :: "'z kfs_scheme \<Rightarrow> nat \<Rightarrow> bool" where
  "first_free s b \<longleftrightarrow> b < unat (sb_size (sb s)) \<and> \<not> in_use (bitmap s) b \<and> (\<forall>c < b. in_use (bitmap s) c)"

definition fs_ok :: "'z kfs_scheme \<Rightarrow> bool" where
  "fs_ok s \<longleftrightarrow> sb_size (sb s) \<le> FSSIZE \<and> data_block s (sb_bmapstart (sb s)) \<and> sb_of (blk s 1) = sb s \<and> sb_bmapstart (sb s) \<noteq> 1 \<and>
     (\<forall>b < unat (sb_size (sb s)). \<not> in_use (bitmap s) b \<longrightarrow>
        data_block s (of_nat b) \<and> of_nat b \<noteq> sb_bmapstart (sb s) \<and> b \<noteq> 1)"

lemma BBLOCK_small: "b < BPB \<Longrightarrow> BBLOCK (of_nat b) S = sb_bmapstart S"
proof -
  assume "b < BPB"
  then have "unat (of_nat b :: u32) = b" "b < 4096" by (simp_all add: BPB_def BSIZE_def unat_of_nat)
  then have "unat ((of_nat b :: u32) div of_nat BPB) = 0" by (simp add: unat_div BPB_def BSIZE_def)
  then have "(of_nat b :: u32) div of_nat BPB = 0" by (simp only: unat_eq_0)
  then show ?thesis by (simp add: BBLOCK_def)
qed

lemma find_first: "b < n \<Longrightarrow> P b \<Longrightarrow> \<forall>c < b. \<not> P c \<Longrightarrow> find P [0..<n] = Some b"
  by (auto simp: find_Some_iff intro!: exI [of _ b])

lemma balloc_ok:
  assumes "in_op (Suc (Suc n)) s" and "fs_ok s" and "first_free s b"
  obtains t where "balloc 1 s = Ret (of_nat b) t" "in_op n t" "same_fs s t"
    "blk t = (blk s)(sb_bmapstart (sb s) := mark b (bitmap s), of_nat b := replicate BSIZE 0)"
proof -
  let ?m = "sb_bmapstart (sb s)"
  have b: "b < unat (sb_size (sb s))" "\<not> in_use (bitmap s) b" "\<forall>c < b. \<not> \<not> in_use (bitmap s) c" using assms(3) by (simp_all add: first_free_def)
  have f: "sb_size (sb s) \<le> FSSIZE" "data_block s ?m" "data_block s (of_nat b)" using assms(2) b by (auto simp: fs_ok_def)
  have sz: "unat (sb_size (sb s)) \<le> BPB" using f(1) by (simp add: FSSIZE_def BPB_def BSIZE_def word_le_nat_alt)
  have bB: "b < BPB" using sz b(1) by simp
  have len: "length (bitmap s) = BSIZE" using f(2) lid.content_length [OF in_opD(1) [OF assms(1)]] by (simp add: bitmap_def data_block_def)
  obtain i t1 t where t: "bread iderw 1 ?m s = Ret i t1" "b_data (bufs t1 ! i) = blk s ?m" "same_fs s t1"
    "kseq [kmod (upd_buf i (\<lambda>x. x\<lparr>b_data := mark b (b_data x)\<rparr>)), log_write i, brelse i] t1 = Ret () t"
    "in_op (Suc n) t" "same_fs s t" "blk t = (blk s)(?m := mark b (blk s ?m))"
    by (rule bread_update [OF assms(1) f(2), of "mark b"]) (use mark_facts [OF bB len] in \<open>simp_all add: bitmap_def\<close>)
  obtain u where u: "bzero 1 (of_nat b) t = Ret () u" "in_op n u" "same_fs t u" "blk u = (blk t)(of_nat b := replicate BSIZE 0)"
    by (rule bzero_ok [OF t(5)]) (use f(3) same_fsD(3) [OF t(6)] in simp_all)
  have fnd: "find (\<lambda>bi. \<not> in_use (b_data (bufs t1 ! i)) bi) [0..<min BPB (unat (sb_size (sb s)))] = Some b"
    using b bB t(2) by (intro find_first) (simp_all add: bitmap_def)
  have m0: "BBLOCK 0 (sb s) = ?m" using BBLOCK_small [of 0] by (simp add: BPB_def BSIZE_def)
  have "balloc 1 s = balloc_from 1 [0] s" using one_bitmap_block [OF _ f(1)] b(1) by (simp add: balloc_def)
  also have "\<dots> = Ret (of_nat b) u"
    unfolding balloc_from.simps using t(1,4) u(1) fnd m0 by simp
  finally show ?thesis
    using that u(2) same_fs_trans [OF t(6) u(3)] u(4) t(7) by (simp add: bitmap_def)
qed

lemma bfree_ok:
  assumes "in_op (Suc n) s" and "sb_of (blk s 1) = sb s" and "data_block s (sb_bmapstart (sb s))"
    and "b < BPB" and "in_use (bitmap s) b"
  obtains t where "bfree 1 (of_nat b) s = Ret () t" "in_op n t" "same_fs s t"
    "blk t = (blk s)(sb_bmapstart (sb s) := unmark b (bitmap s))"
proof -
  let ?m = "sb_bmapstart (sb s)"
  have len: "length (bitmap s) = BSIZE" using assms(3) lid.content_length [OF in_opD(1) [OF assms(1)]] by (simp add: bitmap_def data_block_def)
  obtain j s1 s2 where s1: "bread iderw 1 1 s = Ret j s1" "b_data (bufs s1 ! j) = blk s 1" "brelse j s1 = Ret () s2"
    "in_op (Suc n) s2" "same_fs s s2" "blk s2 = blk s"
    by (rule bread_look [OF assms(1), of 1]) (simp_all add: FSSIZE_def)
  note f = same_fsD [OF s1(5)]
  have rs: "readsb iderw 1 s = Ret (sb s) s2" using s1(1,2,3) assms(2) by (simp add: readsb_def)
  have eq: "s2\<lparr>sb := sb s\<rparr> = s2" using f(1) by (cases s2) simp
  have ub: "unat (of_nat b :: u32) mod BPB = b" using assms(4) by (simp add: unat_of_nat BPB_def BSIZE_def)
  obtain i t1 t where t: "bread iderw 1 ?m s2 = Ret i t1" "b_data (bufs t1 ! i) = blk s2 ?m"
    "kseq [kmod (upd_buf i (\<lambda>x. x\<lparr>b_data := unmark b (b_data x)\<rparr>)), log_write i, brelse i] t1 = Ret () t"
    "in_op n t" "same_fs s2 t" "blk t = (blk s2)(?m := unmark b (blk s2 ?m))"
    by (rule bread_update [OF s1(4), of ?m "unmark b"])
      (use f assms(3) mark_facts [OF assms(4) len] s1(6) in \<open>simp_all add: bitmap_def\<close>)
  have "bfree 1 (of_nat b) s = Ret () t"
    using t(1,2,3) rs eq ub assms(4,5) s1(6) by (simp add: bfree_def BBLOCK_small bitmap_def panic_if_def)
  then show ?thesis using that t(4,6) same_fs_trans [OF s1(5) t(5)] s1(6) by (simp add: bitmap_def)
qed


section \<open>A file system at boot\<close>

text \<open>The image \<open>mkfs\<close> lays out: the superblock, and the first 59 blocks marked as used in the free map.\<close>

definition fs_disk :: "u32 \<Rightarrow> u8 list" where
  "fs_disk b = (if b = 58 then replicate 7 0xFF @ 7 # replicate 504 0 else boot_disk b)"

definition zero_inode :: inode where
  "zero_inode = \<lparr>i_dev = 0, i_inum = 0, i_ref = 0, i_flags = 0, i_type = 0, i_major = 0, i_minor = 0, i_nlink = 0, i_size = 0,
     i_addrs = replicate (NDIRECT + 1) 0\<rparr>"

definition fresh_fs :: kfs where
  "fresh_fs = klog.extend (fresh_log\<lparr>disk := \<lambda>_. fs_disk\<rparr>)
     \<lparr>sb = boot_sb, inodes = replicate NINODE zero_inode, devsw = replicate NDEV (None, None), panicked = False, cons_locking = False,
      in_buf = replicate 128 0, in_r = 0, in_w = 0, in_e = 0, crt = replicate (25 * 80) 0, crt_pos = 0, uart = False, uart_out = []\<rparr>"

lemma fs_map: "list_all (in_use (fs_disk 58)) [0..<59]" "\<not> in_use (fs_disk 58) 59"
  by code_simp+

lemma fresh_fs_facts [simp]:
  "bufs fresh_fs = replicate (Suc NBUF) zero_buf" "quiet fresh_fs" "ide_dsk fresh_fs = fs_disk" "sb fresh_fs = boot_sb"
  "inodes fresh_fs = replicate NINODE zero_inode" "lg_dev fresh_fs = 1" "lg_start fresh_fs = 2" "lg_size fresh_fs = 30"
  "lh_n fresh_fs = 0" "length (lh_block fresh_fs) = 30" "\<not> lg_committing fresh_fs" "lg_outstanding fresh_fs = 1"
  "held fresh_fs = {}" "others fresh_fs = {}"
  by (simp_all add: fresh_fs_def fresh_log_def klog.defs kdisk.defs disk_state_def kpipe.defs pipe_state_def kphys.defs kcore.defs core_with_def
      quiet_def ide_dsk_def)

lemma fresh_fs_dev: "ide_dev_ok fresh_fs"
  using fresh_log_dev by (simp add: ide_dev_ok_def fresh_fs_def fresh_log_def klog.defs kdisk.defs disk_state_def kpipe.defs
      pipe_state_def kphys.defs kcore.defs core_with_def fs_disk_def BSIZE_def)

lemma boot_sb_block: "sb_of (boot_disk 1) = boot_sb"
proof -
  have b: "boot_disk 1 = put_words (replicate 512 0) 0 (sb_words boot_sb)" by (simp add: boot_disk_def)
  have "get32 (boot_disk 1) (0 + 4 * i) = sb_words boot_sb ! i" if "i < 7" for i
    using get32_put_words [of 0 "sb_words boot_sb" "replicate 512 0" i] that unfolding b by (simp add: sb_words_def)
  from this [of 0] this [of 1] this [of 2] this [of 3] this [of 4] this [of 5] this [of 6] show ?thesis
    by (simp add: sb_of_def sb_words_def boot_sb_def)
qed

lemma disk_more_fs: "kdisk.more s = kdisk.more t \<Longrightarrow> sb s = sb t \<and> inodes s = inodes t" for s t :: "'z kfs_scheme"
  by (cases s; cases t) simp

lemma booted_fs:
  obtains s where "binit fresh_fs = Ret () s" "in_op 20 s" "fs_ok s" "first_free s 59" "sb s = boot_sb" "inodes s = replicate NINODE zero_inode" "ide_dsk s = fs_disk"
proof -
  obtain s where s: "binit fresh_fs = Ret () s" "ready ide_dsk ide_dev_ok FSSIZE s" "log_ok FSSIZE s" "logged s = []"
    "dirty_blocks s = {}" "ide_dsk s = fs_disk" "lg_start s = 2" "lg_size s = 30" "lg_outstanding s = 1" "lh_n s = 0"
    "\<not> lg_committing s" "kdisk.more s = kdisk.more fresh_fs"
    using booted [OF fresh_fs_facts(1,2) fresh_fs_dev fresh_fs_facts(6-12)] unfolding fresh_fs_facts(3) .
  have m: "sb s = boot_sb" "inodes s = replicate NINODE zero_inode"
    using disk_more_fs [OF s(12)] by simp_all
  have o: "in_op 20 s" using s by (simp add: in_op_def NBUF_def LOGSIZE_def MAXOPBLOCKS_def)
  have c: "blk s b = fs_disk b" for b
    using content_clean [of ide_dsk FSSIZE s b] s(2,5,6) by (simp add: ready_def idle_def)
  have bm: "bitmap s = fs_disk 58" using m c by (simp add: bitmap_def boot_sb_def)
  have used: "in_use (fs_disk 58) b" if "b < 59" for b using fs_map(1) that by (simp add: list_all_iff)
  have "data_block s (of_nat b) \<and> (of_nat b :: u32) \<noteq> 58 \<and> b \<noteq> 1" if "b < 1000" "\<not> in_use (bitmap s) b" for b
  proof -
    have g: "59 \<le> b" using used [of b] that bm by (cases "b < 59") auto
    have u: "unat (of_nat b :: u32) = b" using that by (simp add: unat_of_nat)
    have "uint (of_nat b :: u32) = int b" using u by (simp only: uint_nat)
    then show ?thesis using u g s(7,8) that by (auto simp: data_block_def in_log_def FSSIZE_def word_less_nat_alt)
  qed
  moreover have "data_block s 58" using s(7,8) by (simp add: data_block_def in_log_def FSSIZE_def)
  ultimately have "fs_ok s" using m c boot_sb_block by (simp add: fs_ok_def boot_sb_def FSSIZE_def fs_disk_def)
  moreover have "first_free s 59" using used fs_map(2) bm m by (simp add: first_free_def boot_sb_def)
  ultimately show ?thesis using that s m o by blast
qed


end
