(* ===== verification/Icache.thy ===== *)
theory Icache
  imports Inode
begin

text \<open>
  The type invariant of the inode cache of \<open>src/HW3/fs.c\<close>. A small calculus for paths that may stop
  half way (asleep or spinning) carries the invariant through every operation of the cache; the
  layers below (driver, buffer cache, log) leave the cache alone.
\<close>

section \<open>Frames of the layers below\<close>

lemma inodes_more: "kcore.more s = kcore.more t \<Longrightarrow> inodes s = inodes t" for s t :: "'z kfs_scheme"
  by (cases s; cases t) simp

lemma keeps_inodes: "keeps kcore.more m \<Longrightarrow> keeps inodes m" for m :: "('z kfs_scheme, 'a) prog"
  by (erule keeps_mono) (rule inodes_more)

lemmas keeps_inodes_core [keeps_intros] =
  keeps_more [THEN keeps_inodes] keeps_more_sleep [THEN keeps_inodes] keeps_more_wakeup [THEN keeps_inodes]

lemma inodes_frame [simp]: "inodes (upd_buf i f s) = inodes s" "inodes (log_add b s) = inodes s" "inodes (brelse_move i s) = inodes s"
  "inodes (ide_append i s) = inodes s" "inodes (ide_finish s) = inodes s" for s :: "'z kfs_scheme"
  by (simp_all add: upd_buf_def log_add_def brelse_move_def ide_append_def ide_finish_def Let_def split: option.splits)

lemma keeps_inodes_upd_buf [keeps_intros]: "keeps inodes (kmod (upd_buf i f) :: ('z kfs_scheme, unit) prog)"
  by (rule keeps_mod) simp

lemma keeps_inodes_ide [keeps_intros]:
  "keeps inodes (idewait e :: ('z kfs_scheme, int) prog)" "keeps inodes (out p v :: ('z kfs_scheme, unit) prog)"
  by (simp_all add: keeps_def idewait_def out_def split: prod.splits)

lemma keeps_inodes_idestart [keeps_intros]: "keeps inodes (idestart q :: ('z kfs_scheme, unit) prog)"
  unfolding idestart_def Let_def by (intro keeps_intros) simp_all

lemma keeps_inodes_ideintr [keeps_intros]: "keeps inodes (ideintr :: ('z kfs_scheme, unit) prog)"
  unfolding ideintr_def by (intro keeps_intros) simp_all

lemma keeps_inodes_dispatch [keeps_intros]:
  "keeps inodes (dispatch_in p :: ('z kfs_scheme, unit) prog)" "keeps inodes (dispatch_out :: ('z kfs_scheme, unit) prog)"
  by (simp_all add: keeps_def dispatch_in_def dispatch_out_def switchuvm_def switchkvm_def upd_proc_def kbind_apply)

lemma keeps_inodes_irqs [keeps_intros]: "keeps inodes (ide_irqs n p :: ('z kfs_scheme, unit) prog)"
proof (induction n)
  case 0
  show ?case by (simp add: keeps_def ide_irqs.simps)
next
  case (Suc n)
  then show ?case unfolding ide_irqs.simps ide_irq_def by (intro keeps_intros) simp_all
qed

lemma keeps_inodes_ide_sleep [keeps_intros]: "keeps inodes (ide_sleep i :: ('z kfs_scheme, unit) prog)"
  unfolding keeps_def
proof (intro allI impI)
  fix s t :: "'z kfs_scheme"
  assume o: "out_state (ide_sleep i s) = Some t"
  have sl: "keeps inodes (sleep (Some (BufChan i)) (Some IdeLock) :: ('z kfs_scheme, unit) prog)" by (intro keeps_intros)
  show "inodes t = inodes s"
  proof (cases "sleep (Some (BufChan i)) (Some IdeLock) s")
    case (Swtch u)
    have k: "keeps inodes (kseq [dispatch_out, release PtableLock, ide_irqs (Suc (length (bufs u))) p,
       acquire PtableLock, dispatch_in p, sleep_resume IdeLock] :: ('z kfs_scheme, unit) prog)" for p
      by (intro keeps_intros)
    have "inodes u = inodes s" using keeps_Swtch [OF sl Swtch] .
    moreover have "inodes t = inodes u"
      using o Swtch keepsD [OF k, where s = u and t = t] by (cases "cur u") (simp_all add: ide_sleep_def)
    ultimately show ?thesis by simp
  qed (use o keepsD [OF sl, of s t] in \<open>simp_all add: ide_sleep_def\<close>)
qed

lemma keeps_inodes_wait [keeps_intros]: "keeps inodes (iderw_wait n i :: ('z kfs_scheme, unit) prog)"
proof (induction n)
  case 0
  show ?case by (simp add: keeps_def)
next
  case (Suc n)
  then show ?case unfolding iderw_wait.simps by (intro keeps_intros)
qed

lemma keeps_inodes_iderw [keeps_intros]: "keeps inodes (iderw i :: ('z kfs_scheme, unit) prog)"
  unfolding iderw_def by (intro keeps_intros) simp_all

lemma keeps_inodes_bio [keeps_intros]:
  "keeps inodes (bget dev b :: ('z kfs_scheme, nat) prog)" "keeps inodes (bread iderw dev b :: ('z kfs_scheme, nat) prog)"
  "keeps inodes (brelse i :: ('z kfs_scheme, unit) prog)" "keeps inodes (log_write i :: ('z kfs_scheme, unit) prog)"
proof -
  show b: "keeps inodes (bget dev b :: ('z kfs_scheme, nat) prog)"
    unfolding bget_def bget_loop_def by (intro keeps_intros) simp_all
  show "keeps inodes (bread iderw dev b :: ('z kfs_scheme, nat) prog)"
    unfolding bread_def by (intro keeps_intros b)
  show "keeps inodes (brelse i :: ('z kfs_scheme, unit) prog)"
    unfolding brelse_def by (intro keeps_intros) simp_all
  show "keeps inodes (log_write i :: ('z kfs_scheme, unit) prog)"
    unfolding log_write_def by (intro keeps_intros) simp_all
qed

lemma keeps_inodes_blocks [keeps_intros]:
  "keeps inodes (readsb iderw dev :: ('z kfs_scheme, superblock) prog)" "keeps inodes (bzero dev b :: ('z kfs_scheme, unit) prog)"
  "keeps inodes (bfree dev b :: ('z kfs_scheme, unit) prog)" "keeps inodes (balloc_from dev ks :: ('z kfs_scheme, u32) prog)"
  "keeps inodes (balloc dev :: ('z kfs_scheme, u32) prog)"
proof -
  show r: "keeps inodes (readsb iderw dev :: ('z kfs_scheme, superblock) prog)" unfolding readsb_def by (intro keeps_intros)
  show z: "keeps inodes (bzero dev b :: ('z kfs_scheme, unit) prog)" for b unfolding bzero_def by (intro keeps_intros)
  show "keeps inodes (bfree dev b :: ('z kfs_scheme, unit) prog)" unfolding bfree_def by (intro keeps_intros r) simp_all
  show f: "keeps inodes (balloc_from dev ks :: ('z kfs_scheme, u32) prog)" for ks
  proof (induction ks)
    case Nil
    show ?case by (simp add: keeps_def)
  next
    case (Cons k ks)
    then show ?case unfolding balloc_from.simps by (intro keeps_intros z)
  qed
  show "keeps inodes (balloc dev :: ('z kfs_scheme, u32) prog)" unfolding balloc_def by (intro keeps_intros f)
qed

section \<open>Paths that may stop half way\<close>

text \<open>\<open>safe I m Q s\<close>: from \<open>s\<close>, the path \<open>m\<close> ends in a panic, or stops in a state with \<open>I\<close>, or returns with \<open>Q\<close>.\<close>

definition safe :: "('s \<Rightarrow> bool) \<Rightarrow> ('s, 'a) prog \<Rightarrow> ('a \<Rightarrow> 's \<Rightarrow> bool) \<Rightarrow> 's \<Rightarrow> bool" where
  "safe I m Q s \<longleftrightarrow> (case m s of Ret x t \<Rightarrow> Q x t | Panic e \<Rightarrow> True | Swtch t \<Rightarrow> I t | Spin l t \<Rightarrow> I t)"

named_theorems safe_simps \<open>equations of the calculus of paths that may stop\<close>

lemma safe_prog [safe_simps]:
  "safe I (kret x) Q = Q x" "safe I (kget f) Q s = Q (f s) s" "safe I (kmod h) R s = R () (h s)"
  "safe I (kpanic e) Q s" "safe I (panic_if b e) R s = (\<not> b s \<longrightarrow> R () s)" "safe I (kseq []) R s = R () s"
  by (simp_all add: safe_def fun_eq_iff)

lemma safe_bind [safe_simps]: "safe I (kbind m f) Q s = safe I m (\<lambda>x. safe I (f x) Q) s"
  by (simp add: safe_def kbind_def split: outcome.splits)

lemma safe_seq [safe_simps]: "safe I (kseq (m # ms)) Q s = safe I m (\<lambda>_. safe I (kseq ms) Q) s"
  unfolding kseq.simps by (rule safe_bind)

lemma safe_when [safe_simps]: "safe I (kwhen b m) Q s = (if b then safe I m Q s else Q () s)"
  by (simp add: safe_def)

lemma safe_keeps:
  assumes "keeps g m" and "\<And>t. g t = g s \<Longrightarrow> I t" and "\<And>x t. g t = g s \<Longrightarrow> Q x t"
  shows "safe I m Q s"
  using assms keepsD [OF assms(1), of s] by (cases "m s") (auto simp: safe_def)

lemma safe_mono: "safe I m Q s \<Longrightarrow> (\<And>t. I t \<Longrightarrow> J t) \<Longrightarrow> (\<And>x t. Q x t \<Longrightarrow> R x t) \<Longrightarrow> safe J m R s"
  by (auto simp: safe_def split: outcome.splits)

lemma safe_bindI:
  "safe J m R s \<Longrightarrow> (\<And>t. J t \<Longrightarrow> I t) \<Longrightarrow> (\<And>x t. R x t \<Longrightarrow> safe I (f x) Q t) \<Longrightarrow> safe I (kbind m f) Q s"
  unfolding safe_bind by (rule safe_mono)

lemma safe_out: "safe I m (\<lambda>_. I) s \<Longrightarrow> out_state (m s) = Some t \<Longrightarrow> I t"
  by (auto simp: safe_def split: outcome.splits)

definition stays :: "('s \<Rightarrow> bool) \<Rightarrow> ('s, 'a) prog \<Rightarrow> bool" where
  "stays I m \<longleftrightarrow> (\<forall>s. I s \<longrightarrow> safe I m (\<lambda>_. I) s)"

named_theorems stays_intros \<open>paths that preserve a predicate\<close>

lemma stays_prog [stays_intros]: "stays I (kret x)" "stays I (kget f)" "stays I (kpanic e)" "stays I (panic_if b e)"
  "(\<And>s. I s \<Longrightarrow> I (h s)) \<Longrightarrow> stays I (kmod h)" "stays I (kseq [])"
  by (simp_all add: stays_def safe_simps)

lemma stays_bind [stays_intros]: "stays I m \<Longrightarrow> (\<And>x. stays I (f x)) \<Longrightarrow> stays I (kbind m f)"
  by (auto simp: stays_def safe_bind elim!: safe_mono)

lemma stays_seq [stays_intros]: "stays I m \<Longrightarrow> stays I (kseq ms) \<Longrightarrow> stays I (kseq (m # ms))"
  unfolding kseq.simps by (rule stays_bind)

lemma stays_for [stays_intros]: "(\<And>x. stays I (f x)) \<Longrightarrow> stays I (kfor xs f)"
  by (induction xs) (simp_all add: stays_prog stays_bind)

lemma stays_cases [stays_intros]:
  "(b \<Longrightarrow> stays I m) \<Longrightarrow> (\<not> b \<Longrightarrow> stays I n) \<Longrightarrow> stays I (if b then m else n)" "(b \<Longrightarrow> stays I k) \<Longrightarrow> stays I (kwhen b k)"
  by (simp_all add: stays_def safe_simps)

lemma stays_get: "(\<And>s. stays I (f (g s))) \<Longrightarrow> stays I (kbind (kget g) f)"
  by (simp add: stays_def safe_simps)

lemma stays_keeps: "keeps g m \<Longrightarrow> stays (\<lambda>s. P (g s)) m"
  unfolding stays_def by (auto intro: safe_keeps)

section \<open>The invariant\<close>

text \<open>
  Reference counts are not negative, every entry has its thirteen block addresses, and no inode has two
  referenced entries.
\<close>

definition icache_ok :: "inode list \<Rightarrow> bool" where
  "icache_ok xs \<longleftrightarrow> length xs = NINODE \<and> (\<forall>x \<in> set xs. 0 \<le> i_ref x \<and> length (i_addrs x) = NDIRECT + 1) \<and>
     (\<forall>i < NINODE. \<forall>j < NINODE. 0 < i_ref (xs ! i) \<longrightarrow> 0 < i_ref (xs ! j) \<longrightarrow>
        i_dev (xs ! i) = i_dev (xs ! j) \<longrightarrow> i_inum (xs ! i) = i_inum (xs ! j) \<longrightarrow> i = j)"

text \<open>The invariant together with a reference somebody holds on entry \<open>ip\<close>.\<close>

definition icache_ref :: "nat \<Rightarrow> inode list \<Rightarrow> bool" where
  "icache_ref ip xs \<longleftrightarrow> icache_ok xs \<and> ip < NINODE \<and> 1 \<le> i_ref (xs ! ip)"

lemma icache_upd:
  assumes "icache_ok xs" and "ip < NINODE" and "length (i_addrs y) = NDIRECT + 1" and "0 \<le> i_ref y"
    and "\<And>j. j < NINODE \<Longrightarrow> j \<noteq> ip \<Longrightarrow> 0 < i_ref y \<Longrightarrow> 0 < i_ref (xs ! j) \<Longrightarrow>
      \<not> (i_dev (xs ! j) = i_dev y \<and> i_inum (xs ! j) = i_inum y)"
  shows "icache_ok (xs[ip := y])"
proof -
  have l: "length xs = NINODE" using assms(1) by (simp add: icache_ok_def)
  have u: "\<And>i j. i < NINODE \<Longrightarrow> j < NINODE \<Longrightarrow> 0 < i_ref (xs ! i) \<Longrightarrow> 0 < i_ref (xs ! j) \<Longrightarrow>
      i_dev (xs ! i) = i_dev (xs ! j) \<Longrightarrow> i_inum (xs ! i) = i_inum (xs ! j) \<Longrightarrow> i = j"
    using assms(1) unfolding icache_ok_def by blast
  have n: "\<forall>x \<in> set (xs[ip := y]). 0 \<le> i_ref x \<and> length (i_addrs x) = NDIRECT + 1"
    using assms(1,3,4) set_update_subset_insert [of xs ip y] unfolding icache_ok_def by blast
  have "i = j" if "i < NINODE" "j < NINODE" "0 < i_ref (xs[ip := y] ! i)" "0 < i_ref (xs[ip := y] ! j)"
      "i_dev (xs[ip := y] ! i) = i_dev (xs[ip := y] ! j)" "i_inum (xs[ip := y] ! i) = i_inum (xs[ip := y] ! j)" for i j
    using that u [of i j] assms(2,5) l by (cases "i = ip"; cases "j = ip") auto
  then show ?thesis using l n unfolding icache_ok_def by (metis length_list_update)
qed

text \<open>An update of one entry that leaves alone which inode it stands for and how often it is referenced.\<close>

lemma icache_lengths: "icache_ref ip xs \<Longrightarrow> ip < length xs \<and> length (i_addrs (xs ! ip)) = NDIRECT + 1 \<and> 0 \<le> i_ref (xs ! ip)"
  by (simp add: icache_ref_def icache_ok_def)

lemma icache_other:
  "icache_ref ip xs \<Longrightarrow> j < NINODE \<Longrightarrow> j \<noteq> ip \<Longrightarrow> 0 < i_ref (xs ! j) \<Longrightarrow> \<not> (i_dev (xs ! j) = i_dev (xs ! ip) \<and> i_inum (xs ! j) = i_inum (xs ! ip))"
  unfolding icache_ref_def icache_ok_def by (metis int_one_le_iff_zero_less)

lemma icache_same:
  assumes "icache_ref ip xs" and "i_dev y = i_dev (xs ! ip)" and "i_inum y = i_inum (xs ! ip)" and "i_ref y = i_ref (xs ! ip)"
    and "length (i_addrs y) = NDIRECT + 1"
  shows "icache_ref ip (xs[ip := y])"
proof -
  have x: "icache_ok xs" "ip < NINODE" "1 \<le> i_ref (xs ! ip)" using assms(1) by (simp_all add: icache_ref_def)
  have "\<not> (i_dev (xs ! j) = i_dev y \<and> i_inum (xs ! j) = i_inum y)"
    if "j < NINODE" "j \<noteq> ip" "0 < i_ref y" "0 < i_ref (xs ! j)" for j
    using that x assms(2-5) unfolding icache_ok_def by metis
  then have "icache_ok (xs[ip := y])" using icache_upd [OF x(1,2), of y] assms(4,5) x(3) by simp
  then show ?thesis using x icache_lengths [OF assms(1)] assms(4) by (simp add: icache_ref_def)
qed

section \<open>The operations keep it\<close>

abbreviation held_ref :: "nat \<Rightarrow> 'z kfs_scheme \<Rightarrow> bool" where
  "held_ref ip s \<equiv> icache_ref ip (inodes s)"

lemma stays_inodes [stays_intros]: "keeps inodes m \<Longrightarrow> stays (held_ref ip) m" for m :: "('z kfs_scheme, 'a) prog"
  by (rule stays_keeps)

lemma stays_upd [stays_intros]:
  assumes "\<And>x. i_dev (f x) = i_dev x \<and> i_inum (f x) = i_inum x \<and> i_ref (f x) = i_ref x"
    and "\<And>x. length (i_addrs x) = NDIRECT + 1 \<Longrightarrow> length (i_addrs (f x)) = NDIRECT + 1"
  shows "stays (held_ref ip) (kmod (upd_inode ip f) :: ('z kfs_scheme, unit) prog)"
proof (rule stays_prog(5))
  fix s :: "'z kfs_scheme"
  assume h: "held_ref ip s"
  show "held_ref ip (upd_inode ip f s)"
    using icache_same [OF h, of "f (inodes s ! ip)"] assms icache_lengths [OF h] by (simp add: upd_inode_def)
qed

lemma stays_set_addr [stays_intros]: "stays (held_ref ip) (kmod (set_addr ip k a) :: ('z kfs_scheme, unit) prog)"
  unfolding set_addr_def by (intro stays_intros) simp_all

lemma stays_iupdate [stays_intros]: "stays (held_ref jp) (iupdate ip :: ('z kfs_scheme, unit) prog)"
  unfolding iupdate_def by (intro stays_inodes keeps_intros)

lemma stays_bmap [stays_intros]:
  "stays (held_ref ip) (addr_or_alloc ip k :: ('z kfs_scheme, u32) prog)" "stays (held_ref ip) (bmap ip bn :: ('z kfs_scheme, u32) prog)"
proof -
  show a: "stays (held_ref ip) (addr_or_alloc ip k :: ('z kfs_scheme, u32) prog)" for k
    unfolding addr_or_alloc_def by (intro stays_bind stays_prog stays_cases stays_set_addr) (intro stays_inodes keeps_intros)
  show "stays (held_ref ip) (bmap ip bn :: ('z kfs_scheme, u32) prog)"
    unfolding bmap_def by (intro stays_bind stays_cases a) (intro stays_inodes keeps_intros)+
qed

lemma stays_itrunc [stays_intros]: "stays (held_ref ip) (itrunc ip :: ('z kfs_scheme, unit) prog)"
proof -
  have d: "stays (held_ref ip) (itrunc_direct ip i :: ('z kfs_scheme, unit) prog)" for i
    unfolding itrunc_direct_def
    by (intro stays_bind stays_seq stays_prog stays_cases stays_set_addr) (intro stays_inodes keeps_intros)
  show ?thesis
    unfolding itrunc_def
    by (intro stays_bind stays_seq stays_for stays_prog(1,2,6) stays_cases stays_set_addr stays_upd stays_iupdate d)
      ((intro stays_inodes keeps_intros; simp) | simp)+
qed

lemma stays_ilock [stays_intros]:
  "stays (held_ref ip) (ilock ip :: ('z kfs_scheme, unit) prog)" "stays (held_ref ip) (ilock_resume ip :: ('z kfs_scheme, unit) prog)"
  "stays (held_ref ip) (iunlock ip :: ('z kfs_scheme, unit) prog)"
proof -
  have len: "length (d_addrs (get_dinode d k)) = NDIRECT + 1" for d k by (simp add: get_dinode_def)
  have q: "stays (held_ref ip) (kseq [kmod (upd_inode ip (load_inode (get_dinode d k))), brelse bp,
      kmod (upd_inode ip (\<lambda>x. x\<lparr>i_flags := i_flags x OR I_VALID\<rparr>)),
      panic_if (\<lambda>s. i_type (inodes s ! ip) = 0) ''ilock: no type''] :: ('z kfs_scheme, unit) prog)" for d k bp
    using len by (intro stays_seq stays_upd stays_prog stays_inodes keeps_intros) (simp_all add: load_inode_def)
  have l: "stays (held_ref ip) (ilock_load ip :: ('z kfs_scheme, unit) prog)"
    unfolding ilock_load_def
    by (rule stays_bind, rule stays_prog(2), rule stays_cases(2), rule stays_bind, rule stays_prog(2), rule stays_bind,
      intro stays_inodes keeps_intros, rule stays_get, rule q)
  have t: "stays (held_ref ip) (ilock_try ip :: ('z kfs_scheme, unit) prog)"
    unfolding ilock_try_def
    by (intro stays_bind stays_seq stays_cases stays_upd stays_prog l) ((intro stays_inodes keeps_intros) | simp)+
  show "stays (held_ref ip) (ilock ip :: ('z kfs_scheme, unit) prog)" "stays (held_ref ip) (ilock_resume ip :: ('z kfs_scheme, unit) prog)"
    unfolding ilock_def ilock_resume_def by (intro stays_seq stays_prog t stays_inodes keeps_intros)+
  show "stays (held_ref ip) (iunlock ip :: ('z kfs_scheme, unit) prog)"
    unfolding iunlock_def by (intro stays_seq stays_upd stays_prog) ((intro stays_inodes keeps_intros) | simp)+
qed

text \<open>\<open>iget\<close> hands out a reference on the one entry of the inode it is asked for.\<close>

definition got :: "u32 \<Rightarrow> u32 \<Rightarrow> nat \<Rightarrow> 'z kfs_scheme \<Rightarrow> bool" where
  "got dev inum i s \<longleftrightarrow> held_ref i s \<and> i_dev (inodes s ! i) = dev \<and> i_inum (inodes s ! i) = inum"

abbreviation cache_inv :: "'z kfs_scheme \<Rightarrow> bool" where "cache_inv s \<equiv> icache_ok (inodes s)"

lemma got_upd:
  assumes "cache_inv s" and "i < NINODE" and "i_dev (f (inodes s ! i)) = dev" and "i_inum (f (inodes s ! i)) = inum"
    and "1 \<le> i_ref (f (inodes s ! i))" and "i_addrs (f (inodes s ! i)) = i_addrs (inodes s ! i)"
    and "\<And>j. j < NINODE \<Longrightarrow> j \<noteq> i \<Longrightarrow> 0 < i_ref (inodes s ! j) \<Longrightarrow> \<not> (i_dev (inodes s ! j) = dev \<and> i_inum (inodes s ! j) = inum)"
  shows "got dev inum i (upd_inode i f s)"
proof -
  have l: "length (inodes s) = NINODE" "length (i_addrs (inodes s ! i)) = NDIRECT + 1" using assms(1,2) by (simp_all add: icache_ok_def)
  have "icache_ok ((inodes s)[i := f (inodes s ! i)])"
    by (rule icache_upd [OF assms(1,2)]) (use assms(3-7) l in auto)
  then show ?thesis using assms l by (simp add: got_def icache_ref_def upd_inode_def)
qed

lemma got_cong: "inodes t = inodes s \<Longrightarrow> got dev inum i s \<Longrightarrow> got dev inum i t"
  by (simp add: got_def)

lemma got_cache: "got dev inum i s \<Longrightarrow> cache_inv s"
  by (simp add: got_def icache_ref_def)

lemma safe_release_got: "got dev inum i s \<Longrightarrow> safe cache_inv (release IcacheLock) (\<lambda>_. got dev inum i) s" for s :: "'z kfs_scheme"
  by (rule safe_keeps [of inodes]) (auto intro: keeps_intros simp: got_def icache_ref_def)

lemma safe_iget: "cache_inv s \<Longrightarrow> safe cache_inv (iget dev inum) (got dev inum) s" for s :: "'z kfs_scheme"
  unfolding iget_def safe_bind
proof (rule safe_keeps [where g = inodes])
  fix x and t :: "'z kfs_scheme"
  assume s: "cache_inv s" and eq: "inodes t = inodes s"
  have t: "cache_inv t" using s eq by simp
  have len: "length (inodes t) = NINODE" using t by (simp add: icache_ok_def)
  show "safe cache_inv (kget (\<lambda>s. find_idx (\<lambda>x. 0 < i_ref x \<and> i_dev x = dev \<and> i_inum x = inum) (inodes s)))
     (\<lambda>r. safe cache_inv (case r of Some i \<Rightarrow> kbind (kseq [kmod (upd_inode i (\<lambda>x. x\<lparr>i_ref := i_ref x + 1\<rparr>)), release IcacheLock]) (\<lambda>_. kret i)
       | None \<Rightarrow> kbind (kget (\<lambda>s. find_idx (\<lambda>x. i_ref x = 0) (inodes s))) (\<lambda>e. case e of None \<Rightarrow> kpanic ''iget: no inodes''
             | Some i \<Rightarrow> kbind (kseq [kmod (upd_inode i (\<lambda>x. x\<lparr>i_dev := dev, i_inum := inum, i_ref := 1, i_flags := 0\<rparr>)),
                              release IcacheLock]) (\<lambda>_. kret i))) (got dev inum)) t"
  proof (cases "find_idx (\<lambda>x. 0 < i_ref x \<and> i_dev x = dev \<and> i_inum x = inum) (inodes t)")
    case (Some i)
    then have i: "i < NINODE" "0 < i_ref (inodes t ! i)" "i_dev (inodes t ! i) = dev" "i_inum (inodes t ! i) = inum"
      using len by (simp_all add: find_idx_Some)
    have "\<not> (i_dev (inodes t ! j) = dev \<and> i_inum (inodes t ! j) = inum)" if "j < NINODE" "j \<noteq> i" "0 < i_ref (inodes t ! j)" for j
      using t i that unfolding icache_ok_def by metis
    then have "got dev inum i (upd_inode i (\<lambda>x. x\<lparr>i_ref := i_ref x + 1\<rparr>) t)" using i t by (intro got_upd) simp_all
    then show ?thesis using Some by (simp add: safe_simps safe_release_got)
  next
    case None
    then have n: "\<not> (i_dev (inodes t ! j) = dev \<and> i_inum (inodes t ! j) = inum)" if "j < NINODE" "0 < i_ref (inodes t ! j)" for j
      using that len by (auto simp: find_idx_None)
    show ?thesis
    proof (cases "find_idx (\<lambda>x. i_ref x = 0) (inodes t)")
      case (Some i)
      then have "i < NINODE" using len by (simp add: find_idx_Some)
      then have "got dev inum i (upd_inode i (\<lambda>x. x\<lparr>i_dev := dev, i_inum := inum, i_ref := 1, i_flags := 0\<rparr>) t)"
        using n t by (intro got_upd) auto
      then show ?thesis using Some None by (simp add: safe_simps safe_release_got)
    qed (use None in \<open>simp add: safe_simps\<close>)
  qed
qed (auto intro: keeps_intros)

lemma safe_idup: "held_ref ip s \<Longrightarrow> safe cache_inv (idup ip) (\<lambda>i t. i = ip \<and> held_ref ip t) s" for s :: "'z kfs_scheme"
  unfolding idup_def safe_bind safe_seq
proof (rule safe_keeps [where g = inodes])
  fix x and t :: "'z kfs_scheme"
  assume s: "held_ref ip s" and eq: "inodes t = inodes s"
  let ?x = "inodes t ! ip"
  have t: "cache_inv t" "ip < NINODE" "1 \<le> i_ref ?x" using s eq by (simp_all add: icache_ref_def)
  have "\<not> (i_dev (inodes t ! j) = i_dev ?x \<and> i_inum (inodes t ! j) = i_inum ?x)" if "j < NINODE" "j \<noteq> ip" "0 < i_ref (inodes t ! j)" for j
    using icache_other [of ip "inodes t" j] t that by (simp add: icache_ref_def)
  then have "got (i_dev ?x) (i_inum ?x) ip (upd_inode ip (\<lambda>x. x\<lparr>i_ref := i_ref x + 1\<rparr>) t)"
    using t by (intro got_upd) simp_all
  from safe_release_got [OF this]
  show "safe cache_inv (kmod (upd_inode ip (\<lambda>x. x\<lparr>i_ref := i_ref x + 1\<rparr>)))
     (\<lambda>_. safe cache_inv (release IcacheLock) (\<lambda>_. safe cache_inv (kseq []) (\<lambda>_. safe cache_inv (kret ip) (\<lambda>i t. i = ip \<and> held_ref ip t)))) t"
    by (simp add: safe_simps) (erule safe_mono; simp add: got_def)
qed (auto intro: keeps_intros simp: icache_ref_def)

lemma drop_ref:
  assumes "held_ref ip s"
  shows "cache_inv (upd_inode ip (\<lambda>x. x\<lparr>i_ref := i_ref x - 1\<rparr>) s)"
proof -
  let ?x = "inodes s ! ip"
  have s: "cache_inv s" "ip < NINODE" "1 \<le> i_ref ?x" using assms by (simp_all add: icache_ref_def)
  have "\<not> (i_dev (inodes s ! j) = i_dev ?x \<and> i_inum (inodes s ! j) = i_inum ?x)" if "j < NINODE" "j \<noteq> ip" "0 < i_ref (inodes s ! j)" for j
    using icache_other [of ip "inodes s" j] s that by (simp add: icache_ref_def)
  then show ?thesis
    using icache_upd [OF s(1,2), of "?x\<lparr>i_ref := i_ref ?x - 1\<rparr>"] s(3) icache_lengths [OF assms] by (simp add: upd_inode_def)
qed

lemma safe_iput: "held_ref ip s \<Longrightarrow> safe cache_inv (iput ip) (\<lambda>_. cache_inv) s" for s :: "'z kfs_scheme"
proof -
  assume h: "held_ref ip s"
  have k: "stays (held_ref ip) (kbind (acquire IcacheLock) (\<lambda>_. kbind (kget (\<lambda>s. inodes s ! ip)) (\<lambda>x.
      kwhen (i_ref x = 1 \<and> i_valid x \<and> i_nlink x = 0)
        (kseq [panic_if (\<lambda>s. i_busy (inodes s ! ip)) ''iput busy'',
               kmod (upd_inode ip (\<lambda>x. x\<lparr>i_flags := i_flags x OR I_BUSY\<rparr>)),
               release IcacheLock,
               itrunc ip,
               kmod (upd_inode ip (\<lambda>x. x\<lparr>i_type := 0\<rparr>)),
               iupdate ip,
               acquire IcacheLock,
               kmod (upd_inode ip (\<lambda>x. x\<lparr>i_flags := 0\<rparr>)),
               wakeup (Some (InodeChan ip))]))) :: ('z kfs_scheme, unit) prog)" (is "stays _ ?m")
    by (intro stays_bind stays_seq stays_cases stays_prog(1,2,4,6) stays_upd stays_itrunc stays_iupdate)
      ((intro stays_inodes keeps_intros) | simp)+
  have e: "iput ip = kbind ?m (\<lambda>_. kseq [kmod (upd_inode ip (\<lambda>x. x\<lparr>i_ref := i_ref x - 1\<rparr>)), release IcacheLock])"
    unfolding iput_def kseq.simps by (simp only: kbind_assoc)
  have r: "safe cache_inv (release IcacheLock) (\<lambda>_. cache_inv) t" if "cache_inv t" for t :: "'z kfs_scheme"
    by (rule safe_keeps [of inodes]) (auto intro: keeps_intros simp: that)
  have "safe (held_ref ip) ?m (\<lambda>_. held_ref ip) s" using k h unfolding stays_def by blast
  then show ?thesis
    unfolding e by (rule safe_bindI) (simp add: icache_ref_def, simp add: safe_simps r drop_ref)
qed

lemma safe_iunlockput: "held_ref ip s \<Longrightarrow> safe cache_inv (iunlockput ip) (\<lambda>_. cache_inv) s" for s :: "'z kfs_scheme"
  unfolding iunlockput_def safe_seq
  by (rule safe_mono [of "held_ref ip" _ "\<lambda>_. held_ref ip"])
    (use stays_ilock(3) [of ip, where 'z = 'z] in \<open>simp_all add: stays_def safe_simps safe_iput icache_ref_def\<close>)

lemma safe_ialloc: "cache_inv s \<Longrightarrow> safe cache_inv (ialloc dev ty) (\<lambda>i t. \<exists>inum. got dev inum i t) s" for s :: "'z kfs_scheme"
proof -
  assume "cache_inv s"
  moreover have "safe cache_inv (ialloc_from dev ty is) (\<lambda>i t. \<exists>inum. got dev inum i t) s" if "cache_inv s" for "is" and s :: "'z kfs_scheme"
    using that
  proof (induction "is" arbitrary: s)
    case Nil
    show ?case by (simp add: safe_def)
  next
    case (Cons n "is")
    have g: "safe cache_inv (iget dev (of_nat n)) (\<lambda>i t. \<exists>inum. got dev inum i t) t" if "cache_inv t" for t :: "'z kfs_scheme"
      by (rule safe_mono [OF safe_iget [OF that]]) auto
    have stay: "stays cache_inv m" if "keeps inodes m" for m :: "('z kfs_scheme, 'b) prog" using that by (rule stays_keeps)
    have "stays cache_inv (bread iderw dev b :: ('z kfs_scheme, nat) prog)" "stays cache_inv (brelse bp :: ('z kfs_scheme, unit) prog)"
      "stays cache_inv (kseq [kmod (upd_buf bp f), log_write bp, brelse bp] :: ('z kfs_scheme, unit) prog)" for b bp f
      by (intro stay keeps_intros)+
    then have b: "safe cache_inv (bread iderw dev b) (\<lambda>_. cache_inv) t" "safe cache_inv (brelse bp) (\<lambda>_. cache_inv) t"
      "safe cache_inv (kseq [kmod (upd_buf bp f), log_write bp, brelse bp]) (\<lambda>_. cache_inv) t" if "cache_inv t"
      for t :: "'z kfs_scheme" and b bp f using that unfolding stays_def by blast+
    have "safe cache_inv (kbind (kget (\<lambda>s. d_type (get_dinode (b_data (bufs s ! bp)) k))) (\<lambda>t.
       if t = 0 then kbind (kseq [kmod (upd_buf bp f), log_write bp, brelse bp]) (\<lambda>_. iget dev (of_nat n))
       else kbind (brelse bp) (\<lambda>_. ialloc_from dev ty is))) (\<lambda>i t. \<exists>inum. got dev inum i t) t"
      if "cache_inv t" for t :: "'z kfs_scheme" and bp k f
      using safe_bindI [OF b(3) [OF that] _ g] safe_bindI [OF b(2) [OF that] _ Cons.IH] by (simp add: safe_bind [of _ "kget _"] safe_prog(2))
    from safe_bindI [OF b(1) [OF Cons.prems] _ this]
    show ?case unfolding ialloc_from.simps safe_bind [of _ "kget sb"] safe_prog(2) by simp
  qed
  ultimately show ?thesis by (simp add: ialloc_def safe_simps)
qed

section \<open>Runs\<close>

text \<open>
  One operation of the cache by a client that holds a reference where the operation needs one, ending
  in a return, asleep or spinning; or anything else the kernel does, which leaves the cache alone.
\<close>

inductive icache_step :: "'z kfs_scheme \<Rightarrow> 'z kfs_scheme \<Rightarrow> bool" where
  step_iget: "out_state (iget dev inum s) = Some t \<Longrightarrow> icache_step s t"
| step_ialloc: "out_state (ialloc dev ty s) = Some t \<Longrightarrow> icache_step s t"
| step_idup: "ip < NINODE \<Longrightarrow> 1 \<le> i_ref (inodes s ! ip) \<Longrightarrow> out_state (idup ip s) = Some t \<Longrightarrow> icache_step s t"
| step_ilock: "ip < NINODE \<Longrightarrow> 1 \<le> i_ref (inodes s ! ip) \<Longrightarrow> out_state (ilock ip s) = Some t \<Longrightarrow> icache_step s t"
| step_ilock_resume: "ip < NINODE \<Longrightarrow> 1 \<le> i_ref (inodes s ! ip) \<Longrightarrow> out_state (ilock_resume ip s) = Some t \<Longrightarrow> icache_step s t"
| step_iunlock: "ip < NINODE \<Longrightarrow> 1 \<le> i_ref (inodes s ! ip) \<Longrightarrow> out_state (iunlock ip s) = Some t \<Longrightarrow> icache_step s t"
| step_iupdate: "ip < NINODE \<Longrightarrow> 1 \<le> i_ref (inodes s ! ip) \<Longrightarrow> out_state (iupdate ip s) = Some t \<Longrightarrow> icache_step s t"
| step_bmap: "ip < NINODE \<Longrightarrow> 1 \<le> i_ref (inodes s ! ip) \<Longrightarrow> out_state (bmap ip bn s) = Some t \<Longrightarrow> icache_step s t"
| step_itrunc: "ip < NINODE \<Longrightarrow> 1 \<le> i_ref (inodes s ! ip) \<Longrightarrow> out_state (itrunc ip s) = Some t \<Longrightarrow> icache_step s t"
| step_iput: "ip < NINODE \<Longrightarrow> 1 \<le> i_ref (inodes s ! ip) \<Longrightarrow> out_state (iput ip s) = Some t \<Longrightarrow> icache_step s t"
| step_iunlockput: "ip < NINODE \<Longrightarrow> 1 \<le> i_ref (inodes s ! ip) \<Longrightarrow> out_state (iunlockput ip s) = Some t \<Longrightarrow> icache_step s t"
| step_other: "inodes t = inodes s \<Longrightarrow> icache_step s t"

lemma stays_out: "stays (held_ref ip) m \<Longrightarrow> held_ref ip s \<Longrightarrow> out_state (m s) = Some t \<Longrightarrow> cache_inv t"
  unfolding stays_def using safe_out [of "held_ref ip" m s t] by (simp add: icache_ref_def)

lemma iget_out: "cache_inv s \<Longrightarrow> out_state (iget dev inum s) = Some t \<Longrightarrow> cache_inv t" for s :: "'z kfs_scheme"
  by (rule safe_out [OF safe_mono, OF safe_iget]) (assumption+, erule got_cache)

lemma ialloc_out: "cache_inv s \<Longrightarrow> out_state (ialloc dev ty s) = Some t \<Longrightarrow> cache_inv t" for s :: "'z kfs_scheme"
  by (rule safe_out [OF safe_mono, OF safe_ialloc]) (assumption+, erule exE, erule got_cache)

lemma idup_out: "held_ref ip s \<Longrightarrow> out_state (idup ip s) = Some t \<Longrightarrow> cache_inv t" for s :: "'z kfs_scheme"
  by (rule safe_out [OF safe_mono, OF safe_idup]) (assumption+, simp add: icache_ref_def)

lemmas icache_outs =
  stays_out [OF stays_ilock(1)] stays_out [OF stays_ilock(2)] stays_out [OF stays_ilock(3)] stays_out [OF stays_iupdate]
  stays_out [OF stays_bmap(2)] stays_out [OF stays_itrunc] safe_out [OF safe_iput] safe_out [OF safe_iunlockput] idup_out

lemma icache_step_ok:
  assumes "icache_step s t" and "cache_inv s"
  shows "cache_inv t"
proof -
  have h: "held_ref ip s" if "ip < NINODE" "1 \<le> i_ref (inodes s ! ip)" for ip using that assms(2) by (simp add: icache_ref_def)
  from assms(1) show ?thesis
  proof cases
    case (step_iget dev inum)
    show ?thesis by (rule iget_out [OF assms(2) step_iget(1)])
  next
    case (step_ialloc dev ty)
    show ?thesis by (rule ialloc_out [OF assms(2) step_ialloc(1)])
  next
    case (step_ilock ip)
    show ?thesis by (rule icache_outs(1) [OF h step_ilock(3)]) (fact step_ilock(1,2))+
  next
    case (step_ilock_resume ip)
    show ?thesis by (rule icache_outs(2) [OF h step_ilock_resume(3)]) (fact step_ilock_resume(1,2))+
  next
    case (step_iunlock ip)
    show ?thesis by (rule icache_outs(3) [OF h step_iunlock(3)]) (fact step_iunlock(1,2))+
  next
    case (step_iupdate ip)
    show ?thesis by (rule icache_outs(4) [OF h step_iupdate(3)]) (fact step_iupdate(1,2))+
  next
    case (step_bmap ip bn)
    show ?thesis by (rule icache_outs(5) [OF h step_bmap(3)]) (fact step_bmap(1,2))+
  next
    case (step_itrunc ip)
    show ?thesis by (rule icache_outs(6) [OF h step_itrunc(3)]) (fact step_itrunc(1,2))+
  next
    case (step_iput ip)
    show ?thesis by (rule icache_outs(7) [OF h step_iput(3)]) (fact step_iput(1,2))+
  next
    case (step_iunlockput ip)
    show ?thesis by (rule icache_outs(8) [OF h step_iunlockput(3)]) (fact step_iunlockput(1,2))+
  next
    case (step_idup ip)
    show ?thesis by (rule icache_outs(9) [OF h step_idup(3)]) (fact step_idup(1,2))+
  next
    case step_other
    then show ?thesis using assms(2) by simp
  qed
qed



end
