(* ===== verification/Console.thy ===== *)
theory Console
  imports Inode "HOL-Library.Char_ord"
begin

text \<open>
  The console, \<open>src/HW3/console.c\<close>, with the output half of \<open>src/HW3/uart.c\<close>. The screen is the
  array of cells the CGA adapter shows and the cursor position its registers hold; the
  serial line is the list of bytes sent. \<open>consoleintr\<close> takes the characters its argument
  \<open>getc\<close> delivers before it answers a negative number.
\<close>

section \<open>Output\<close>

definition BACKSPACE :: int where "BACKSPACE = 0x100"
definition INPUT_BUF :: nat where "INPUT_BUF = 128"
definition CONSOLE :: nat where "CONSOLE = 1"

text \<open>\<open>uartputc\<close>: the bounded wait for the transmitter only takes time.\<close>

definition uartputc :: "int \<Rightarrow> ('z kfs_scheme, unit) prog" where
  "uartputc c = kbind (kget uart) (\<lambda>u. kwhen u (kmod (\<lambda>s. s\<lparr>uart_out := uart_out s @ [word_of_int c]\<rparr>)))"

definition cell :: "int \<Rightarrow> u16" where "cell c = (word_of_int c AND 0xFF) OR 0x0700"

text \<open>Where the character goes: the new position and screen before scrolling.\<close>

definition cga_place :: "int \<Rightarrow> int \<Rightarrow> u16 list \<Rightarrow> int \<times> u16 list" where
  "cga_place c pos scr =
     (if c = 0x0A then (pos + (80 - pos mod 80), scr)
      else if c = BACKSPACE then (if pos > 0 then pos - 1 else pos, scr)
      else (pos + 1, scr[nat pos := cell c]))"

definition cga_scroll :: "int \<Rightarrow> u16 list \<Rightarrow> int \<times> u16 list" where
  "cga_scroll pos scr =
     (if pos div 80 \<ge> 24 then
        (let scr = take (23 * 80) (drop 80 scr) @ drop (23 * 80) scr;
             pos = pos - 80
         in (pos, take (nat pos) scr @ replicate (nat (24 * 80 - pos)) 0 @ drop (24 * 80) scr))
      else (pos, scr))"

definition cgaputc :: "int \<Rightarrow> ('z kfs_scheme, unit) prog" where
  "cgaputc c =
     kbind (kget (\<lambda>s. cga_place c (crt_pos s) (crt s))) (\<lambda>(pos, scr).
     kbind (panic_if (\<lambda>s. pos < 0 \<or> pos > 25 * 80) ''pos under/overflow'') (\<lambda>_.
       case cga_scroll pos scr of (pos, scr) \<Rightarrow>
         kmod (\<lambda>s. s\<lparr>crt_pos := pos, crt := scr[nat pos := cell 0x20]\<rparr>)))"

text \<open>
  After a panic on some CPU, the next character any CPU prints stops it for good, with
  interrupts off; this is rendered as the outcome \<open>Panic\<close>.
\<close>

definition consputc :: "int \<Rightarrow> ('z kfs_scheme, unit) prog" where
  "consputc c =
     kseq [panic_if panicked ''panicked'',
           if c = BACKSPACE then kseq [uartputc 8, uartputc 0x20, uartputc 8] else uartputc c,
           cgaputc c]"

definition kdigits :: string where "kdigits = ''0123456789abcdef''"

function kprintint_loop :: "nat \<Rightarrow> nat \<Rightarrow> string" where
  "kprintint_loop base x =
     kdigits ! (x mod base) # (if base < 2 \<or> x div base = 0 then [] else kprintint_loop base (x div base))"
  by auto
termination
proof (relation "measure snd", goal_cases)
  case (2 base x)
  then have "1 < base" "x div base \<noteq> 0" by auto
  moreover from this(2) have "0 < x" by (cases x) auto
  ultimately show ?case by (simp add: div_less_dividend)
qed simp

declare kprintint_loop.simps [simp del]

definition kprintint :: "u32 \<Rightarrow> nat \<Rightarrow> bool \<Rightarrow> string" where
  "kprintint xx base sg =
     (let neg = (sg \<and> sint xx < 0); x = (if neg then - xx else xx)
      in rev (kprintint_loop base (unat x) @ (if neg then ''-'' else [])))"

datatype karg = KInt u32 | KStr "string option"

text \<open>The characters \<open>cprintf\<close> prints; \<open>None\<close> when the format asks for arguments that were not passed.\<close>

fun cprintf_text :: "string \<Rightarrow> karg list \<Rightarrow> string option" where
  "cprintf_text [] ap = Some []"
| "cprintf_text (c # fmt) ap =
     (if c \<noteq> CHR ''%'' then map_option (Cons c) (cprintf_text fmt ap)
      else (case fmt of
          [] \<Rightarrow> Some []
        | d # fmt' \<Rightarrow>
            if d = CHR ''d'' then
              (case ap of KInt x # ap' \<Rightarrow> map_option ((@) (kprintint x 10 True)) (cprintf_text fmt' ap') | _ \<Rightarrow> None)
            else if d = CHR ''x'' \<or> d = CHR ''p'' then
              (case ap of KInt x # ap' \<Rightarrow> map_option ((@) (kprintint x 16 False)) (cprintf_text fmt' ap') | _ \<Rightarrow> None)
            else if d = CHR ''s'' then
              (case ap of KStr s # ap' \<Rightarrow>
                 map_option ((@) (case s of None \<Rightarrow> ''(null)'' | Some s \<Rightarrow> s)) (cprintf_text fmt' ap') | _ \<Rightarrow> None)
            else if d = CHR ''%'' then map_option (Cons d) (cprintf_text fmt' ap)
            else map_option (\<lambda>t. CHR ''%'' # d # t) (cprintf_text fmt' ap)))"

definition putcs :: "string \<Rightarrow> ('z kfs_scheme, unit) prog" where
  "putcs t = kfor t (\<lambda>c. consputc (int (of_char c)))"

definition cprintf :: "string option \<Rightarrow> karg list \<Rightarrow> ('z kfs_scheme, unit) prog" where
  "cprintf fmt args =
     kbind (kget cons_locking) (\<lambda>locking.
     kseq [kwhen locking (acquire ConsLock),
           case fmt of None \<Rightarrow> kpanic ''null fmt''
           | Some f \<Rightarrow> (case cprintf_text f args of Some t \<Rightarrow> putcs t | None \<Rightarrow> kret ()),
           kwhen locking (release ConsLock)])"

section \<open>Input\<close>

definition ctrl :: "char \<Rightarrow> int" where "ctrl x = int (of_char x) - int (of_char CHR ''@'')"

definition in_char :: "'z kfs_scheme \<Rightarrow> u32 \<Rightarrow> u8" where
  "in_char s k = in_buf s ! (unat k mod INPUT_BUF)"

text \<open>
  Kill line: erase back to the last newline or to what has been handed over. Each round
  brings \<open>e\<close> one closer to \<open>w\<close>, so that \<open>e - w\<close> rounds are enough.
\<close>

fun kill_line :: "nat \<Rightarrow> ('z kfs_scheme, unit) prog" where
  "kill_line 0 = kret ()"
| "kill_line (Suc n) =
     kbind (kget (\<lambda>s. in_e s \<noteq> in_w s \<and> in_char s (in_e s - 1) \<noteq> 0x0A)) (\<lambda>go.
     kwhen go (kseq [kmod (\<lambda>s. s\<lparr>in_e := in_e s - 1\<rparr>), consputc BACKSPACE, kill_line n]))"

definition intr_char :: "int \<Rightarrow> ('z kfs_scheme, unit) prog" where
  "intr_char c =
     kbind (kget (\<lambda>s. in_e s - in_r s)) (\<lambda>used.
     kwhen (c \<noteq> 0 \<and> unat used < INPUT_BUF)
       (let c = (if c = 0x0D then 0x0A else c) in
        kseq [kmod (\<lambda>s. s\<lparr>in_buf := (in_buf s)[unat (in_e s) mod INPUT_BUF := word_of_int c], in_e := in_e s + 1\<rparr>),
              consputc c,
              kbind (kget (\<lambda>s. in_e s = in_r s + of_nat INPUT_BUF)) (\<lambda>full.
              kwhen (c = 0x0A \<or> c = ctrl CHR ''D'' \<or> full)
                (kseq [kmod (\<lambda>s. s\<lparr>in_w := in_e s\<rparr>),
                       wakeup (Some InputChan)]))]))"

definition intr_one :: "int \<Rightarrow> ('z kfs_scheme, unit) prog" where
  "intr_one c =
     (if c = ctrl CHR ''P'' then kret ()
      else if c = ctrl CHR ''U'' then kbind (kget (\<lambda>s. unat (in_e s - in_w s))) kill_line
      else if c = ctrl CHR ''H'' \<or> c = 0x7F then
        kbind (kget (\<lambda>s. in_e s \<noteq> in_w s)) (\<lambda>some.
        kwhen some (kseq [kmod (\<lambda>s. s\<lparr>in_e := in_e s - 1\<rparr>), consputc BACKSPACE]))
      else intr_char c)"

text \<open>\<open>procdump\<close> only prints; it is a parameter here and is modelled with the process table.\<close>

definition consoleintr :: "('z kfs_scheme, unit) prog \<Rightarrow> int list \<Rightarrow> ('z kfs_scheme, unit) prog" where
  "consoleintr dump cs =
     kseq [acquire ConsLock,
           kfor cs intr_one,
           release ConsLock,
           kwhen (ctrl CHR ''P'' \<in> set cs) dump]"

text \<open>
  The loop of \<open>consoleread\<close>: \<open>acc\<close> are the bytes stored so far, \<open>n\<close> is how many are still
  wanted. It answers \<open>None\<close> when the process was killed while the buffer was empty.
\<close>

fun consoleread_loop :: "nat \<Rightarrow> nat \<Rightarrow> u8 list \<Rightarrow> ('z kfs_scheme, u8 list option) prog" where
  "consoleread_loop target 0 acc = kret (Some acc)"
| "consoleread_loop target (Suc n) acc =
     kbind (kget (\<lambda>s. in_r s = in_w s)) (\<lambda>empty.
       if empty then
         kbind the_proc (\<lambda>i.
         kbind (kget (\<lambda>s. p_killed (procs s ! i))) (\<lambda>killed.
           if killed then kret None
           else kbind (sleep (Some InputChan) (Some ConsLock)) (\<lambda>_. kret None)))
       else
         kbind (kget (\<lambda>s. in_char s (in_r s))) (\<lambda>c.
         kbind (kmod (\<lambda>s. s\<lparr>in_r := in_r s + 1\<rparr>)) (\<lambda>_.
           if sint c = ctrl CHR ''D'' then
             kbind (kwhen (Suc n < target) (kmod (\<lambda>s. s\<lparr>in_r := in_r s - 1\<rparr>))) (\<lambda>_. kret (Some acc))
           else if c = 0x0A then kret (Some (acc @ [c]))
           else consoleread_loop target n (acc @ [c]))))"

definition consoleread_rest :: "nat \<Rightarrow> nat \<Rightarrow> nat \<Rightarrow> u8 list \<Rightarrow> ('z kfs_scheme, int \<times> u8 list) prog" where
  "consoleread_rest ip target n acc =
     kbind (consoleread_loop target n acc) (\<lambda>r.
     kbind (kseq [release ConsLock, ilock ip]) (\<lambda>_.
       kret (case r of None \<Rightarrow> (-1, acc) | Some d \<Rightarrow> (int (length d), d))))"

definition consoleread :: "nat \<Rightarrow> int \<Rightarrow> ('z kfs_scheme, int \<times> u8 list) prog" where
  "consoleread ip n =
     kbind (kseq [iunlock ip, acquire ConsLock]) (\<lambda>_. consoleread_rest ip (nat n) (nat n) [])"

text \<open>Going on after \<open>sleep\<close> with the bytes \<open>acc\<close> stored.\<close>

definition consoleread_resume :: "nat \<Rightarrow> nat \<Rightarrow> u8 list \<Rightarrow> ('z kfs_scheme, int \<times> u8 list) prog" where
  "consoleread_resume ip target acc =
     kbind (sleep_resume ConsLock) (\<lambda>_. consoleread_rest ip target (target - length acc) acc)"

definition consolewrite :: "nat \<Rightarrow> u8 list \<Rightarrow> ('z kfs_scheme, int) prog" where
  "consolewrite ip src =
     kbind (kseq [iunlock ip,
                  acquire ConsLock,
                  kfor src (\<lambda>c. consputc (uint c)),
                  release ConsLock,
                  ilock ip]) (\<lambda>_. kret (int (length src)))"

text \<open>The interrupt controllers are not part of the state.\<close>

definition consoleinit :: "('z kfs_scheme, unit) prog" where
  "consoleinit = kmod (\<lambda>s. s\<lparr>devsw := (devsw s)[CONSOLE := (Some ConsoleRead, Some ConsoleWrite)], cons_locking := True\<rparr>)"

end
