(* ===== verification/Fs.thy ===== *)
theory Fs
  imports Console
begin

text \<open>
  The upper half of \<open>src/HW3/fs.c\<close>: reading and writing the contents of an inode, directories and
  path names. The bytes \<open>readi\<close> stores at \<open>dst\<close> are part of its result and the bytes \<open>writei\<close>
  takes from \<open>src\<close> are its argument; whoever calls them puts or takes the bytes where the
  pointer says. Path names and file names are lists of bytes without the closing NUL.
\<close>

section \<open>Contents\<close>

record kstat =
  k_type :: u16
  k_dev :: u32
  k_ino :: u32
  k_nlink :: u16
  k_size :: u32

definition stati :: "nat \<Rightarrow> 'z kfs_scheme \<Rightarrow> kstat" where
  "stati ip s =
     (let x = inodes s ! ip in
      \<lparr>k_type = i_type x, k_dev = i_dev x, k_ino = i_inum x, k_nlink = i_nlink x, k_size = i_size x\<rparr>)"

text \<open>The loop of \<open>readi\<close> with \<open>n\<close> bytes to go.\<close>

function readi_loop :: "nat \<Rightarrow> nat \<Rightarrow> nat \<Rightarrow> ('z kfs_scheme, u8 list) prog" where
  "readi_loop ip off n =
     (if n = 0 then kret []
      else
        (let m = min n (BSIZE - off mod BSIZE) in
         kbind (kget (\<lambda>s. i_dev (inodes s ! ip))) (\<lambda>dev.
         kbind (bmap ip (off div BSIZE)) (\<lambda>addr.
         kbind (bread iderw dev addr) (\<lambda>bp.
         kbind (kget (\<lambda>s. bytes_at (b_data (bufs s ! bp)) (off mod BSIZE) m)) (\<lambda>d.
         kbind (brelse bp) (\<lambda>_.
         kbind (readi_loop ip (off + m) (n - m)) (\<lambda>rest. kret (d @ rest)))))))))"
  by pat_completeness auto
termination
  by (relation "measure (\<lambda>(ip, off, n). n)") (auto simp: BSIZE_def)

declare readi_loop.simps [simp del]

definition dev_of :: "u16 \<Rightarrow> 'z kfs_scheme \<Rightarrow> devfun option \<times> devfun option" where
  "dev_of major s = (if sint major < 0 \<or> sint major \<ge> int NDEV then (None, None) else devsw s ! nat (sint major))"

definition readi :: "nat \<Rightarrow> u32 \<Rightarrow> u32 \<Rightarrow> ('z kfs_scheme, int \<times> u8 list) prog" where
  "readi ip off n =
     kbind (kget (\<lambda>s. inodes s ! ip)) (\<lambda>x.
       if i_type x = T_DEV then
         kbind (kget (\<lambda>s. fst (dev_of (i_major x) s))) (\<lambda>f.
           case f of Some ConsoleRead \<Rightarrow> consoleread ip (sint n) | _ \<Rightarrow> kret (-1, []))
       else if off > i_size x \<or> off + n < off then kret (-1, [])
       else
         (let n = (if off + n > i_size x then i_size x - off else n) in
          kbind (readi_loop ip (unat off) (unat n)) (\<lambda>d. kret (sint n, d))))"

function writei_loop :: "nat \<Rightarrow> nat \<Rightarrow> u8 list \<Rightarrow> ('z kfs_scheme, unit) prog" where
  "writei_loop ip off src =
     (if src = [] then kret ()
      else
        (let m = min (length src) (BSIZE - off mod BSIZE) in
         kbind (kget (\<lambda>s. i_dev (inodes s ! ip))) (\<lambda>dev.
         kbind (bmap ip (off div BSIZE)) (\<lambda>addr.
         kbind (bread iderw dev addr) (\<lambda>bp.
         kbind (kseq [kmod (upd_buf bp (\<lambda>b. b\<lparr>b_data := put_bytes (b_data b) (off mod BSIZE) (take m src)\<rparr>)),
                      log_write bp,
                      brelse bp]) (\<lambda>_.
         writei_loop ip (off + m) (drop m src)))))))"
  by pat_completeness auto
termination
  by (relation "measure (\<lambda>(ip, off, src). length src)") (auto simp: BSIZE_def)

declare writei_loop.simps [simp del]

definition writei :: "nat \<Rightarrow> u8 list \<Rightarrow> u32 \<Rightarrow> ('z kfs_scheme, int) prog" where
  "writei ip src off =
     kbind (kget (\<lambda>s. inodes s ! ip)) (\<lambda>x.
       let n = of_nat (length src) :: u32 in
       if i_type x = T_DEV then
         kbind (kget (\<lambda>s. snd (dev_of (i_major x) s))) (\<lambda>f.
           case f of Some ConsoleWrite \<Rightarrow> consolewrite ip src | _ \<Rightarrow> kret (-1))
       else if off > i_size x \<or> off + n < off then kret (-1)
       else if unat (off + n) > MAXFILE * BSIZE then kret (-1)
       else
         kbind (writei_loop ip (unat off) src) (\<lambda>_.
         kbind (kget (\<lambda>s. i_size (inodes s ! ip))) (\<lambda>dsz.
         kbind (kwhen (n > 0 \<and> off + n > dsz)
           (kseq [kmod (upd_inode ip (\<lambda>x. x\<lparr>i_size := off + n\<rparr>)), iupdate ip])) (\<lambda>_.
         kret (sint n)))))"

section \<open>Directories\<close>

text \<open>\<open>strncmp\<close> on names; past the end of a name there is a NUL.\<close>

definition hd0 :: "u8 list \<Rightarrow> u8" where "hd0 s = (case s of [] \<Rightarrow> 0 | c # _ \<Rightarrow> c)"

fun strncmp_name :: "nat \<Rightarrow> u8 list \<Rightarrow> u8 list \<Rightarrow> int" where
  "strncmp_name 0 p q = 0"
| "strncmp_name (Suc n) p q =
     (if hd0 p \<noteq> 0 \<and> hd0 p = hd0 q then strncmp_name n (tl p) (tl q) else byte_diff (hd0 p) (hd0 q))"

definition namecmp :: "u8 list \<Rightarrow> u8 list \<Rightarrow> int" where
  "namecmp s t = strncmp_name DIRSIZ s t"

text \<open>\<open>strncpy\<close> into a field: the name, cut or filled with NULs.\<close>

definition pad_name :: "u8 list \<Rightarrow> u8 list" where
  "pad_name name = take DIRSIZ (name @ replicate DIRSIZ 0)"

text \<open>The offsets of the entries of a directory of \<open>size\<close> bytes, as the loops go through them.\<close>

definition dir_offs :: "u32 \<Rightarrow> u32 list" where
  "dir_offs dsz = map (\<lambda>k. of_nat (DIRENT_SIZE * k)) [0..<(unat dsz + DIRENT_SIZE - 1) div DIRENT_SIZE]"

definition read_dirent :: "nat \<Rightarrow> u32 \<Rightarrow> ('z kfs_scheme, dirent) prog" where
  "read_dirent dp off =
     kbind (readi dp off (of_nat DIRENT_SIZE)) (\<lambda>(r, d).
     kbind (panic_if (\<lambda>s. r \<noteq> int DIRENT_SIZE) ''dirlink read'') (\<lambda>_. kret (dirent_of d)))"

fun dirlookup_from :: "nat \<Rightarrow> u8 list \<Rightarrow> u32 list \<Rightarrow> ('z kfs_scheme, (nat \<times> u32) option) prog" where
  "dirlookup_from dp name [] = kret None"
| "dirlookup_from dp name (off # offs) =
     kbind (read_dirent dp off) (\<lambda>de.
       if de_inum de = 0 then dirlookup_from dp name offs
       else if namecmp name (de_name de) = 0 then
         kbind (kget (\<lambda>s. i_dev (inodes s ! dp))) (\<lambda>dev.
         kbind (iget dev (ucast (de_inum de))) (\<lambda>ip. kret (Some (ip, off))))
       else dirlookup_from dp name offs)"

text \<open>The inode found and the offset of its entry.\<close>

definition dirlookup :: "nat \<Rightarrow> u8 list \<Rightarrow> ('z kfs_scheme, (nat \<times> u32) option) prog" where
  "dirlookup dp name =
     kbind (panic_if (\<lambda>s. i_type (inodes s ! dp) \<noteq> T_DIR) ''dirlookup not DIR'') (\<lambda>_.
     kbind (kget (\<lambda>s. i_size (inodes s ! dp))) (\<lambda>dsz.
     dirlookup_from dp name (dir_offs dsz)))"

text \<open>The first free entry, or the end of the directory.\<close>

fun free_dirent :: "nat \<Rightarrow> u32 \<Rightarrow> u32 list \<Rightarrow> ('z kfs_scheme, u32) prog" where
  "free_dirent dp end_off [] = kret end_off"
| "free_dirent dp end_off (off # offs) =
     kbind (read_dirent dp off) (\<lambda>de. if de_inum de = 0 then kret off else free_dirent dp end_off offs)"

definition dirlink :: "nat \<Rightarrow> u8 list \<Rightarrow> u32 \<Rightarrow> ('z kfs_scheme, int) prog" where
  "dirlink dp name inum =
     kbind (dirlookup dp name) (\<lambda>r.
       case r of
         Some (ip, _) \<Rightarrow> kbind (iput ip) (\<lambda>_. kret (-1))
       | None \<Rightarrow>
           kbind (kget (\<lambda>s. i_size (inodes s ! dp))) (\<lambda>dsz.
           kbind (free_dirent dp (of_nat (DIRENT_SIZE * length (dir_offs dsz))) (dir_offs dsz)) (\<lambda>off.
           kbind (writei dp (dirent_bytes \<lparr>de_inum = ucast inum, de_name = pad_name name\<rparr>) off) (\<lambda>w.
           kbind (panic_if (\<lambda>s. w \<noteq> int DIRENT_SIZE) ''dirlink'') (\<lambda>_. kret 0)))))"

section \<open>Paths\<close>

definition SLASH :: u8 where "SLASH = 0x2F"

text \<open>The next element of a path, cut to \<open>DIRSIZ\<close> bytes, and the rest of the path.\<close>

definition skipelem :: "u8 list \<Rightarrow> (u8 list \<times> u8 list) option" where
  "skipelem path =
     (let path = dropWhile (\<lambda>c. c = SLASH) path in
      if path = [] then None
      else
        (let elem = takeWhile (\<lambda>c. c \<noteq> SLASH) path in
         Some (if length elem \<ge> DIRSIZ then take DIRSIZ elem else elem,
               dropWhile (\<lambda>c. c = SLASH) (drop (length elem) path))))"

lemma skipelem_shorter: "skipelem path = Some (name, rest) \<Longrightarrow> length rest < length path"
proof -
  assume e: "skipelem path = Some (name, rest)"
  define p where "p = dropWhile (\<lambda>c. c = SLASH) path"
  have p: "p \<noteq> []" "length p \<le> length path" using e length_dropWhile_le by (auto simp: skipelem_def p_def Let_def split: if_splits)
  then obtain c q where c: "p = c # q" "c \<noteq> SLASH" using hd_dropWhile [of "\<lambda>c. c = SLASH" path] by (cases p) (auto simp: p_def)
  have "rest = dropWhile (\<lambda>c. c = SLASH) (drop (length (takeWhile (\<lambda>c. c \<noteq> SLASH) p)) p)"
    using e p(1) by (auto simp: skipelem_def p_def [symmetric] Let_def split: if_splits)
  then have "length rest \<le> length (drop (length (takeWhile (\<lambda>c. c \<noteq> SLASH) p)) p)" using length_dropWhile_le by blast
  also have "\<dots> < length p" using c by simp
  finally show ?thesis using p(2) by simp
qed

text \<open>The loop of \<open>namex\<close> from the inode \<open>ip\<close>; \<open>parent\<close> is the argument \<open>nameiparent\<close>.\<close>

function namex_loop :: "nat \<Rightarrow> u8 list \<Rightarrow> bool \<Rightarrow> ('z kfs_scheme, (nat \<times> u8 list) option) prog" where
  "namex_loop ip path parent =
     (case skipelem path of
        None \<Rightarrow> if parent then kbind (iput ip) (\<lambda>_. kret None) else kret (Some (ip, []))
      | Some (name, rest) \<Rightarrow>
          kbind (ilock ip) (\<lambda>_.
          kbind (kget (\<lambda>s. i_type (inodes s ! ip))) (\<lambda>ty.
            if ty \<noteq> T_DIR then kbind (iunlockput ip) (\<lambda>_. kret None)
            else if parent \<and> rest = [] then kbind (iunlock ip) (\<lambda>_. kret (Some (ip, name)))
            else
              kbind (dirlookup ip name) (\<lambda>r.
              kbind (iunlockput ip) (\<lambda>_.
                case r of None \<Rightarrow> kret None | Some (next, _) \<Rightarrow> namex_loop next rest parent)))))"
  by pat_completeness auto
termination
  by (relation "measure (\<lambda>(ip, path, parent). length path)") (auto dest: skipelem_shorter)

declare namex_loop.simps [simp del]

definition namex :: "u8 list \<Rightarrow> bool \<Rightarrow> ('z kfs_scheme, (nat \<times> u8 list) option) prog" where
  "namex path parent =
     kbind (if hd0 path = SLASH then iget ROOTDEV ROOTINO
            else kbind the_proc (\<lambda>i. kbind (kget (\<lambda>s. p_cwd (procs s ! i))) (\<lambda>c.
                 case c of Some d \<Rightarrow> idup d | None \<Rightarrow> kpanic ''trap''))) (\<lambda>ip.
     namex_loop ip path parent)"

definition namei :: "u8 list \<Rightarrow> ('z kfs_scheme, nat option) prog" where
  "namei path = kbind (namex path False) (\<lambda>r. kret (map_option fst r))"

definition nameiparent :: "u8 list \<Rightarrow> ('z kfs_scheme, (nat \<times> u8 list) option) prog" where
  "nameiparent path = namex path True"

end
