(* ===== verification/File.thy ===== *)
theory File
  imports Fs
begin

text \<open>
  The table of open files, \<open>src/HW3/file.c\<close>, and \<open>pipealloc\<close> of \<open>src/HW3/pipe.c\<close>. A pointer to a
  \<open>struct file\<close> is an index of the table. As with inodes, the bytes read are part of the
  result and the bytes written are an argument.
\<close>

definition NFILE :: nat where "NFILE = 100"

datatype ftype = FD_NONE | FD_PIPE | FD_INODE

record file_t =
  f_type :: ftype
  f_ref :: int
  f_readable :: bool
  f_writable :: bool
  f_pipe :: u32
  f_ip :: nat
  f_off :: u32

record kfile = kfs +
  ftable :: "file_t list"

definition upd_file :: "nat \<Rightarrow> (file_t \<Rightarrow> file_t) \<Rightarrow> 'z kfile_scheme \<Rightarrow> 'z kfile_scheme" where
  "upd_file i f s = s\<lparr>ftable := (ftable s)[i := f (ftable s ! i)]\<rparr>"

definition filealloc :: "('z kfile_scheme, nat option) prog" where
  "filealloc =
     kbind (acquire FtableLock) (\<lambda>_.
     kbind (kget (\<lambda>s. find_idx (\<lambda>f. f_ref f = 0) (ftable s))) (\<lambda>r.
       case r of
         Some i \<Rightarrow> kbind (kseq [kmod (upd_file i (\<lambda>f. f\<lparr>f_ref := 1\<rparr>)), release FtableLock]) (\<lambda>_. kret (Some i))
       | None \<Rightarrow> kbind (release FtableLock) (\<lambda>_. kret None)))"

definition filedup :: "nat \<Rightarrow> ('z kfile_scheme, nat) prog" where
  "filedup f =
     kbind (kseq [acquire FtableLock,
                  panic_if (\<lambda>s. f_ref (ftable s ! f) < 1) ''filedup'',
                  kmod (upd_file f (\<lambda>x. x\<lparr>f_ref := f_ref x + 1\<rparr>)),
                  release FtableLock]) (\<lambda>_. kret f)"

definition fileclose :: "nat \<Rightarrow> ('z kfile_scheme, unit) prog" where
  "fileclose f =
     kbind (kseq [acquire FtableLock,
                  panic_if (\<lambda>s. f_ref (ftable s ! f) < 1) ''fileclose'',
                  kmod (upd_file f (\<lambda>x. x\<lparr>f_ref := f_ref x - 1\<rparr>))]) (\<lambda>_.
     kbind (kget (\<lambda>s. ftable s ! f)) (\<lambda>ff.
       if f_ref ff > 0 then release FtableLock
       else
         kseq [kmod (upd_file f (\<lambda>x. x\<lparr>f_ref := 0, f_type := FD_NONE\<rparr>)),
               release FtableLock,
               (case f_type ff of
                  FD_PIPE \<Rightarrow> pipeclose (f_pipe ff) (f_writable ff)
                | FD_INODE \<Rightarrow> kseq [begin_op, iput (f_ip ff), end_op iderw]
                | FD_NONE \<Rightarrow> kret ())]))"

definition filestat :: "nat \<Rightarrow> ('z kfile_scheme, kstat option) prog" where
  "filestat f =
     kbind (kget (\<lambda>s. ftable s ! f)) (\<lambda>x.
       if f_type x = FD_INODE then
         kbind (ilock (f_ip x)) (\<lambda>_.
         kbind (kget (stati (f_ip x))) (\<lambda>st.
         kbind (iunlock (f_ip x)) (\<lambda>_. kret (Some st))))
       else kret None)"

definition fileread :: "nat \<Rightarrow> int \<Rightarrow> ('z kfile_scheme, int \<times> u8 list) prog" where
  "fileread f n =
     kbind (kget (\<lambda>s. ftable s ! f)) (\<lambda>x.
       if \<not> f_readable x then kret (-1, [])
       else (case f_type x of
         FD_PIPE \<Rightarrow> kbind (piperead (f_pipe x) n) (\<lambda>r. kret (case r of None \<Rightarrow> (-1, []) | Some bs \<Rightarrow> (int (length bs), bs)))
       | FD_INODE \<Rightarrow>
           kbind (ilock (f_ip x)) (\<lambda>_.
           kbind (readi (f_ip x) (f_off x) (word_of_int n)) (\<lambda>(r, bs).
           kbind (kwhen (r > 0) (kmod (upd_file f (\<lambda>x. x\<lparr>f_off := f_off x + word_of_int r\<rparr>)))) (\<lambda>_.
           kbind (iunlock (f_ip x)) (\<lambda>_. kret (r, bs)))))
       | FD_NONE \<Rightarrow> kpanic ''fileread''))"

text \<open>How much one transaction of \<open>filewrite\<close> writes.\<close>

definition write_max :: nat where "write_max = (LOGSIZE - 1 - 1 - 2) div 2 * 512"

function filewrite_loop :: "nat \<Rightarrow> u8 list \<Rightarrow> ('z kfile_scheme, bool) prog" where
  "filewrite_loop f src =
     (if src = [] then kret True
      else
        (let n1 = min (length src) write_max in
         kbind (kget (\<lambda>s. f_ip (ftable s ! f))) (\<lambda>ip.
         kbind (kseq [begin_op, ilock ip]) (\<lambda>_.
         kbind (kget (\<lambda>s. f_off (ftable s ! f))) (\<lambda>off.
         kbind (writei ip (take n1 src) off) (\<lambda>r.
         kbind (kseq [kwhen (r > 0) (kmod (upd_file f (\<lambda>x. x\<lparr>f_off := f_off x + word_of_int r\<rparr>))),
                      iunlock ip,
                      end_op iderw]) (\<lambda>_.
           if r < 0 then kret False
           else
             kbind (panic_if (\<lambda>s. r \<noteq> int n1) ''short filewrite'') (\<lambda>_.
             filewrite_loop f (drop n1 src)))))))))"
  by pat_completeness auto
termination
  by (relation "measure (\<lambda>(f, src). length src)") (auto simp: write_max_def LOGSIZE_def MAXOPBLOCKS_def)

declare filewrite_loop.simps [simp del]

definition filewrite :: "nat \<Rightarrow> u8 list \<Rightarrow> int \<Rightarrow> ('z kfile_scheme, int) prog" where
  "filewrite f addr n =
     kbind (kget (\<lambda>s. ftable s ! f)) (\<lambda>x.
       if \<not> f_writable x then kret (-1)
       else (case f_type x of
         FD_PIPE \<Rightarrow> pipewrite (f_pipe x) addr n
       | FD_INODE \<Rightarrow>
           kbind (filewrite_loop f (take (nat n) addr)) (\<lambda>ok. kret (if ok \<and> n \<ge> 0 then n else -1))
       | FD_NONE \<Rightarrow> kpanic ''filewrite''))"

section \<open>Making a pipe\<close>

definition pipe_init :: "pipe \<Rightarrow> pipe" where
  "pipe_init P = P\<lparr>readopen := True, writeopen := True, nwrite := 0, nread := 0\<rparr>"

definition close_some :: "nat option \<Rightarrow> ('z kfile_scheme, unit) prog" where
  "close_some r = (case r of Some f \<Rightarrow> fileclose f | None \<Rightarrow> kret ())"

definition pipealloc :: "('z kfile_scheme, (nat \<times> nat) option) prog" where
  "pipealloc =
     kbind filealloc (\<lambda>f0.
     kbind (case f0 of None \<Rightarrow> kret None | Some _ \<Rightarrow> filealloc) (\<lambda>f1.
     kbind (case f1 of None \<Rightarrow> kret 0 | Some _ \<Rightarrow> kalloc) (\<lambda>p.
       case (f0, f1) of
         (Some a, Some b) \<Rightarrow>
           if p = 0 then kbind (kseq [close_some f0, close_some f1]) (\<lambda>_. kret None)
           else
             kbind (kseq [kmod (upd_pipe p pipe_init),
                          kmod (upd_file a (\<lambda>x. x\<lparr>f_type := FD_PIPE, f_readable := True, f_writable := False, f_pipe := p\<rparr>)),
                          kmod (upd_file b (\<lambda>x. x\<lparr>f_type := FD_PIPE, f_readable := False, f_writable := True, f_pipe := p\<rparr>))])
               (\<lambda>_. kret (Some (a, b)))
       | _ \<Rightarrow> kbind (kseq [close_some f0, close_some f1]) (\<lambda>_. kret None))))"

end
