(* ===== verification/Proc.thy ===== *)
theory Proc
  imports File Vm Spinlock
begin

text \<open>
  The life cycle of processes, \<open>src/HW3/proc.c\<close>: \<open>allocproc\<close>, \<open>userinit\<close>, \<open>growproc\<close>, \<open>fork\<close>,
  \<open>exit\<close>, \<open>wait\<close>, \<open>wait_stat\<close>, \<open>forkret\<close> and \<open>procdump\<close>. The trap frame and the saved context
  of a process are fields of its entry instead of bytes of its kernel stack. The addresses
  of \<open>forkret\<close> and of the embedded \<open>initcode\<close> are fixed by the linker.
\<close>

section \<open>State\<close>

record kproc = kfile +
  forkret_va :: u32
  initcode_va :: u32
  initcode_size :: u32
  forkret_first :: bool

definition SEG_UCODE :: u16 where "SEG_UCODE = 4"
definition SEG_UDATA :: u16 where "SEG_UDATA = 5"
definition FL_IF :: u32 where "FL_IF = 0x200"

definition zero_context :: kcontext where
  "zero_context = \<lparr>c_edi = 0, c_esi = 0, c_ebx = 0, c_ebp = 0, c_eip = 0\<rparr>"

definition zero_tf :: trapframe where
  "zero_tf = \<lparr>tf_edi = 0, tf_esi = 0, tf_ebp = 0, tf_ebx = 0, tf_edx = 0, tf_ecx = 0, tf_eax = 0, tf_gs = 0, tf_fs = 0,
     tf_es = 0, tf_ds = 0, tf_trapno = 0, tf_err = 0, tf_eip = 0, tf_cs = 0, tf_eflags = 0, tf_esp = 0, tf_ss = 0\<rparr>"

section \<open>Making a process\<close>

definition allocproc :: "('z kproc_scheme, nat option) prog" where
  "allocproc =
     kbind (acquire PtableLock) (\<lambda>_.
     kbind (kget (\<lambda>s. find_idx (\<lambda>p. p_state p = UNUSED) (procs s))) (\<lambda>r.
       case r of
         None \<Rightarrow> kbind (release PtableLock) (\<lambda>_. kret None)
       | Some i \<Rightarrow>
           kbind (kseq [kmod (\<lambda>s. upd_proc i (\<lambda>p. p\<lparr>p_state := EMBRYO, p_pid := nextpid s\<rparr>) s),
                        kmod (\<lambda>s. s\<lparr>nextpid := nextpid s + 1\<rparr>),
                        release PtableLock]) (\<lambda>_.
           kbind kalloc (\<lambda>k.
           kbind (kmod (upd_proc i (\<lambda>p. p\<lparr>p_kstack := k\<rparr>))) (\<lambda>_.
             if k = 0 then kbind (kmod (upd_proc i (\<lambda>p. p\<lparr>p_state := UNUSED\<rparr>))) (\<lambda>_. kret None)
             else
               kbind (kseq [kmod (\<lambda>s. upd_proc i (\<lambda>p. p\<lparr>p_context := zero_context\<lparr>c_eip := forkret_va s\<rparr>\<rparr>) s),
                            acquire TicksLock,
                            kmod (\<lambda>s. upd_proc i (\<lambda>p. p\<lparr>p_ctime := ticks s\<rparr>) s),
                            release TicksLock,
                            kmod (upd_proc i (\<lambda>p. p\<lparr>p_stime := 0, p_retime := 0, p_rutime := 0, p_ttime := 0\<rparr>))]) (\<lambda>_.
               kret (Some i)))))))"

definition userinit :: "('z kproc_scheme, unit) prog" where
  "userinit =
     kbind allocproc (\<lambda>r.
       case r of
         None \<Rightarrow> kpanic ''trap''
       | Some i \<Rightarrow>
           kbind (kmod (\<lambda>s. s\<lparr>initproc := Some i\<rparr>)) (\<lambda>_.
           kbind setupkvm (\<lambda>pd.
           kbind (kmod (upd_proc i (\<lambda>p. p\<lparr>p_pgdir := pd\<rparr>))) (\<lambda>_.
           kbind (panic_if (\<lambda>s. pd = 0) ''userinit: out of memory?'') (\<lambda>_.
           kbind (kget (\<lambda>s. (initcode_va s, initcode_size s))) (\<lambda>(va, sz).
           kbind (inituvm pd va sz) (\<lambda>_.
           kbind (kmod (upd_proc i (\<lambda>p. p\<lparr>p_sz := PGSIZE, p_tf :=
              zero_tf\<lparr>tf_cs := push_bit 3 SEG_UCODE OR 3, tf_ds := push_bit 3 SEG_UDATA OR 3, tf_es := push_bit 3 SEG_UDATA OR 3,
                tf_ss := push_bit 3 SEG_UDATA OR 3, tf_eflags := FL_IF, tf_esp := PGSIZE, tf_eip := 0\<rparr>, p_name := ''initcode''\<rparr>))) (\<lambda>_.
           kbind (namei [SLASH]) (\<lambda>d.
           kmod (upd_proc i (\<lambda>p. p\<lparr>p_cwd := d, p_state := RUNNABLE\<rparr>)))))))))))"

definition growproc :: "int \<Rightarrow> ('z kproc_scheme, int) prog" where
  "growproc n =
     kbind the_proc (\<lambda>i.
     kbind (kget (\<lambda>s. procs s ! i)) (\<lambda>p.
     kbind (if n > 0 then allocuvm (p_pgdir p) (p_sz p) (p_sz p + word_of_int n)
            else if n < 0 then deallocuvm (p_pgdir p) (p_sz p) (p_sz p + word_of_int n)
            else kret (p_sz p)) (\<lambda>sz.
       if n \<noteq> 0 \<and> sz = 0 then kret (-1)
       else kbind (kseq [kmod (upd_proc i (\<lambda>p. p\<lparr>p_sz := sz\<rparr>)), switchuvm i]) (\<lambda>_. kret 0))))"

definition fork_file :: "nat \<Rightarrow> nat \<Rightarrow> nat \<Rightarrow> ('z kproc_scheme, unit) prog" where
  "fork_file i np fd =
     kbind (kget (\<lambda>s. p_ofile (procs s ! i) ! fd)) (\<lambda>r.
       case r of
         None \<Rightarrow> kret ()
       | Some f \<Rightarrow> kbind (filedup f) (\<lambda>g. kmod (upd_proc np (\<lambda>p. p\<lparr>p_ofile := (p_ofile p)[fd := Some g]\<rparr>))))"

definition fork :: "('z kproc_scheme, int) prog" where
  "fork =
     kbind allocproc (\<lambda>r.
       case r of
         None \<Rightarrow> kret (-1)
       | Some np \<Rightarrow>
           kbind the_proc (\<lambda>i.
           kbind (kget (\<lambda>s. procs s ! i)) (\<lambda>p.
           kbind (copyuvm (p_pgdir p) (p_sz p)) (\<lambda>pd.
           kbind (kmod (upd_proc np (\<lambda>q. q\<lparr>p_pgdir := pd\<rparr>))) (\<lambda>_.
             if pd = 0 then
               kbind (kget (\<lambda>s. p_kstack (procs s ! np))) (\<lambda>k.
               kbind (kseq [kfree k, kmod (upd_proc np (\<lambda>q. q\<lparr>p_kstack := 0, p_state := UNUSED\<rparr>))]) (\<lambda>_. kret (-1)))
             else
               kbind (kmod (upd_proc np (\<lambda>q. q\<lparr>p_sz := p_sz p, p_parent := Some i, p_tf := (p_tf p)\<lparr>tf_eax := 0\<rparr>\<rparr>))) (\<lambda>_.
               kbind (kfor [0..<NOFILE] (fork_file i np)) (\<lambda>_.
               kbind (kget (\<lambda>s. p_cwd (procs s ! i))) (\<lambda>c.
               kbind (case c of Some d \<Rightarrow> idup d | None \<Rightarrow> kpanic ''trap'') (\<lambda>d.
               kbind (kmod (upd_proc np (\<lambda>q. q\<lparr>p_cwd := Some d, p_name := p_name p\<rparr>))) (\<lambda>_.
               kbind (kget (\<lambda>s. p_pid (procs s ! np))) (\<lambda>pid.
               kbind (kseq [acquire PtableLock,
                            kmod (upd_proc np (\<lambda>q. q\<lparr>p_state := RUNNABLE\<rparr>)),
                            release PtableLock]) (\<lambda>_. kret (sint pid)))))))))))))"

section \<open>Ending a process\<close>

definition exit_file :: "nat \<Rightarrow> nat \<Rightarrow> ('z kproc_scheme, unit) prog" where
  "exit_file i fd =
     kbind (kget (\<lambda>s. p_ofile (procs s ! i) ! fd)) (\<lambda>r.
       case r of
         None \<Rightarrow> kret ()
       | Some f \<Rightarrow> kseq [fileclose f, kmod (upd_proc i (\<lambda>p. p\<lparr>p_ofile := (p_ofile p)[fd := None]\<rparr>))])"

definition reparent :: "nat \<Rightarrow> nat \<Rightarrow> 'z kproc_scheme \<Rightarrow> 'z kproc_scheme" where
  "reparent i j s =
     (if p_parent (procs s ! j) = Some i then
        (let s = upd_proc j (\<lambda>p. p\<lparr>p_parent := initproc s\<rparr>) s in
         if p_state (procs s ! j) = ZOMBIE then wakeup1 (map_option ProcChan (initproc s)) s else s)
      else s)"

text \<open>The part of \<open>exit\<close> that runs with the process table locked.\<close>

definition exit_tail :: "nat \<Rightarrow> ('z kproc_scheme, unit) prog" where
  "exit_tail i =
     kseq [acquire PtableLock,
           kmod (\<lambda>s. wakeup1 (map_option ProcChan (p_parent (procs s ! i))) s),
           kbind (kget (\<lambda>s. length (procs s))) (\<lambda>n. kfor [0..<n] (\<lambda>j. kmod (reparent i j))),
           acquire TicksLock,
           kmod (\<lambda>s. upd_proc i (\<lambda>p. p\<lparr>p_ttime := ticks s\<rparr>) s),
           release TicksLock,
           kmod (upd_proc i (\<lambda>p. p\<lparr>p_state := ZOMBIE\<rparr>)),
           sched,
           kpanic ''zombie exit'']"

definition exit :: "('z kproc_scheme, unit) prog" where
  "exit =
     kbind the_proc (\<lambda>i.
     kseq [panic_if (\<lambda>s. initproc s = Some i) ''init exiting'',
           kfor [0..<NOFILE] (exit_file i),
           begin_op,
           kbind (kget (\<lambda>s. p_cwd (procs s ! i))) (\<lambda>c. case c of Some d \<Rightarrow> iput d | None \<Rightarrow> kpanic ''trap''),
           end_op iderw,
           kmod (upd_proc i (\<lambda>p. p\<lparr>p_cwd := None\<rparr>)),
           exit_tail i])"

text \<open>Freeing a zombie child; \<open>clear\<close> are the fields \<open>wait_stat\<close> resets besides.\<close>

definition reap :: "nat \<Rightarrow> (proc \<Rightarrow> proc) \<Rightarrow> ('z kproc_scheme, u32) prog" where
  "reap j clear =
     kbind (kget (\<lambda>s. procs s ! j)) (\<lambda>p.
     kbind (kseq [kfree (p_kstack p),
                  kmod (upd_proc j (\<lambda>p. p\<lparr>p_kstack := 0\<rparr>)),
                  freevm (p_pgdir p),
                  kmod (upd_proc j (\<lambda>p. clear (p\<lparr>p_state := UNUSED, p_pid := 0, p_parent := None, p_name := [], p_killed := False\<rparr>))),
                  release PtableLock]) (\<lambda>_. kret (p_pid p)))"

text \<open>One round of the loop of \<open>wait\<close>, with the process table locked.\<close>

definition wait_scan :: "('z kproc_scheme, int) prog" where
  "wait_scan =
     kbind the_proc (\<lambda>i.
     kbind (kget (\<lambda>s. find_idx (\<lambda>p. p_parent p = Some i \<and> p_state p = ZOMBIE) (procs s))) (\<lambda>r.
       case r of
         Some j \<Rightarrow> kbind (reap j (\<lambda>p. p)) (\<lambda>pid. kret (sint pid))
       | None \<Rightarrow>
           kbind (kget (\<lambda>s. find_idx (\<lambda>p. p_parent p = Some i) (procs s) = None \<or> p_killed (procs s ! i))) (\<lambda>quit.
             if quit then kbind (release PtableLock) (\<lambda>_. kret (-1))
             else kbind (sleep (Some (ProcChan i)) (Some PtableLock)) (\<lambda>_. kret (-1)))))"

definition wait :: "('z kproc_scheme, int) prog" where
  "wait = kbind (acquire PtableLock) (\<lambda>_. wait_scan)"

definition wait_resume :: "('z kproc_scheme, int) prog" where
  "wait_resume = kbind (sleep_resume PtableLock) (\<lambda>_. wait_scan)"

text \<open>
  \<open>wait_stat\<close> also answers what it stores through its pointers: the ready, running and sleeping
  times of the child (not stored when there is none) and the status.
\<close>

definition clear_times :: "proc \<Rightarrow> proc" where
  "clear_times p = p\<lparr>p_retime := 0, p_rutime := 0, p_ttime := 0, p_ctime := 0, p_stime := 0\<rparr>"

definition wait_stat_scan :: "('z kproc_scheme, int \<times> (u32 \<times> u32 \<times> u32) option \<times> int) prog" where
  "wait_stat_scan =
     kbind the_proc (\<lambda>i.
     kbind (kget (\<lambda>s. find_idx (\<lambda>p. p_parent p = Some i \<and> p_state p = ZOMBIE) (procs s))) (\<lambda>r.
       case r of
         Some j \<Rightarrow>
           kbind (kget (\<lambda>s. procs s ! j)) (\<lambda>p.
           kbind (reap j clear_times) (\<lambda>pid. kret (sint pid, Some (p_retime p, p_rutime p, p_stime p), sint pid)))
       | None \<Rightarrow>
           kbind (kget (\<lambda>s. find_idx (\<lambda>p. p_parent p = Some i) (procs s) = None \<or> p_killed (procs s ! i))) (\<lambda>quit.
             if quit then kbind (release PtableLock) (\<lambda>_. kret (-1, None, -1))
             else kbind (sleep (Some (ProcChan i)) (Some PtableLock)) (\<lambda>_. kret (-1, None, -1)))))"

definition wait_stat :: "('z kproc_scheme, int \<times> (u32 \<times> u32 \<times> u32) option \<times> int) prog" where
  "wait_stat = kbind (acquire PtableLock) (\<lambda>_. wait_stat_scan)"

definition wait_stat_resume :: "('z kproc_scheme, int \<times> (u32 \<times> u32 \<times> u32) option \<times> int) prog" where
  "wait_stat_resume = kbind (sleep_resume PtableLock) (\<lambda>_. wait_stat_scan)"

section \<open>The first run of a child, and the listing\<close>

definition forkret :: "('z kproc_scheme, unit) prog" where
  "forkret =
     kbind (release PtableLock) (\<lambda>_.
     kbind (kget forkret_first) (\<lambda>first.
     kwhen first (kseq [kmod (\<lambda>s. s\<lparr>forkret_first := False\<rparr>), iinit ROOTDEV, initlog iderw ROOTDEV])))"

fun state_name :: "procstate \<Rightarrow> string" where
  "state_name UNUSED = ''unused''"
| "state_name EMBRYO = ''embryo''"
| "state_name SLEEPING = ''sleep ''"
| "state_name RUNNABLE = ''runble''"
| "state_name RUNNING = ''run   ''"
| "state_name ZOMBIE = ''zombie''"

definition dump_one :: "nat \<Rightarrow> ('z kproc_scheme, unit) prog" where
  "dump_one j =
     kbind (kget (\<lambda>s. procs s ! j)) (\<lambda>p.
     kwhen (p_state p \<noteq> UNUSED)
       (kseq [cprintf (Some ''%d %s %s'') [KInt (p_pid p), KStr (Some (state_name (p_state p))), KStr (Some (p_name p))],
              kwhen (p_state p = SLEEPING)
                (kbind (kget (\<lambda>s. takeWhile (\<lambda>pc. pc \<noteq> 0) (getcallerpcs (load32 (mem s)) (c_ebp (p_context p) + 8)))) (\<lambda>pcs.
                 kfor pcs (\<lambda>pc. cprintf (Some '' %p'') [KInt pc]))),
              cprintf (Some [CHR 0x0A]) []]))"

definition procdump :: "('z kproc_scheme, unit) prog" where
  "procdump = kbind (kget (\<lambda>s. length (procs s))) (\<lambda>n. kfor [0..<n] dump_one)"

end
