(* ===== verification/User.thy ===== *)
theory User
  imports Xv6_Prelude "HOL-Library.Char_ord"
begin

text \<open>
  User programs see the kernel through system calls. A program is a function from the
  sequence of answers the kernel gives to the sequence of calls it makes and the way it
  ends: it returns a value, it called \<open>exit\<close>, or it is waiting for an answer that has not
  come. \<open>fork\<close> answers 0 in the child; a run follows one process. The second half models
  the C library of user programs, \<open>src/HW3/ulib.c\<close> and \<open>src/HW3/printf.c\<close>. Strings are
  lists of characters without the terminating NUL.
\<close>

section \<open>System calls as interaction\<close>

record stat =
  st_type :: int
  st_dev :: int
  st_ino :: nat
  st_nlink :: int
  st_size :: nat

datatype ucall =
    UFork | UExit | UWait | UPipe | URead int nat | UWrite int string | UClose int | UKill int
  | UExec string "string list" | UOpen string nat | UMknod string int int | UUnlink string
  | UFstat int | ULink string string | UMkdir string | UChdir string | UDup int
  | USbrk int | USleep int | UUptime | UWaitStat

text \<open>
  The answers: an int; for \<open>read\<close> the number of bytes, or -1, and the bytes stored in the
  caller's buffer; for \<open>fstat\<close> and \<open>pipe\<close> what the kernel stores through the pointer.
\<close>

datatype uresp = RInt int | RRead int string | RStat int stat | RPipe int int int | RWait int int int int

datatype 'a ures = UDone 'a "uresp list" | UExited | UWaits

type_synonym 'a uprog = "uresp list \<Rightarrow> ucall list \<times> 'a ures"

definition uret :: "'a \<Rightarrow> 'a uprog" where
  "uret x rs = ([], UDone x rs)"

definition ubind :: "'a uprog \<Rightarrow> ('a \<Rightarrow> 'b uprog) \<Rightarrow> 'b uprog" where
  "ubind m f rs =
     (case m rs of
        (tr, UDone x rs') \<Rightarrow> (case f x rs' of (tr', r) \<Rightarrow> (tr @ tr', r))
      | (tr, UExited) \<Rightarrow> (tr, UExited)
      | (tr, UWaits) \<Rightarrow> (tr, UWaits))"

definition ucall :: "ucall \<Rightarrow> uresp uprog" where
  "ucall c rs = (case rs of [] \<Rightarrow> ([c], UWaits) | r # rs' \<Rightarrow> ([c], UDone r rs'))"

definition uexit :: "'a uprog" where
  "uexit rs = ([UExit], UExited)"

fun int_of :: "uresp \<Rightarrow> int" where
  "int_of (RInt n) = n"
| "int_of (RRead n d) = n"
| "int_of (RStat n st) = n"
| "int_of (RPipe n a b) = n"
| "int_of (RWait n a b c) = n"

definition uans :: "ucall \<Rightarrow> int uprog" where
  "uans c = ubind (ucall c) (\<lambda>r. uret (int_of r))"

definition udo :: "ucall \<Rightarrow> unit uprog" where
  "udo c = ubind (ucall c) (\<lambda>_. uret ())"

text \<open>\<open>read(fd, buf, n)\<close>: the count and the bytes, at most \<open>n\<close> of them.\<close>

definition uread :: "int \<Rightarrow> nat \<Rightarrow> (int \<times> string) uprog" where
  "uread fd n = ubind (ucall (URead fd n)) (\<lambda>r. uret (case r of RRead k d \<Rightarrow> (k, take n d) | _ \<Rightarrow> (int_of r, [])))"

primrec useq :: "unit uprog list \<Rightarrow> unit uprog" where
  "useq [] = uret ()"
| "useq (m # ms) = ubind m (\<lambda>_. useq ms)"

definition uwhen :: "bool \<Rightarrow> unit uprog \<Rightarrow> unit uprog" where
  "uwhen c m = (if c then m else uret ())"

text \<open>
  A loop: the body returns \<open>Inl\<close> to go round with a new state, \<open>Inr\<close> to leave. Every loop of
  the programs makes a system call in each round, so that one more round than there are
  answers is enough (\<open>uloop_fuel\<close>).
\<close>

primrec uloop :: "nat \<Rightarrow> ('s \<Rightarrow> ('s + 'a) uprog) \<Rightarrow> 's \<Rightarrow> 'a uprog" where
  "uloop 0 body s = (\<lambda>rs. ([], UWaits))"
| "uloop (Suc n) body s =
     ubind (body s) (\<lambda>r. case r of Inl s' \<Rightarrow> uloop n body s' | Inr x \<Rightarrow> uret x)"

definition urepeat :: "('s \<Rightarrow> ('s + 'a) uprog) \<Rightarrow> 's \<Rightarrow> 'a uprog" where
  "urepeat body s rs = uloop (Suc (length rs)) body s rs"

definition consumes :: "'a uprog \<Rightarrow> bool" where
  "consumes m \<longleftrightarrow> (\<forall>rs tr x rs'. m rs = (tr, UDone x rs') \<longrightarrow> length rs' < length rs)"

lemma uloop_more:
  assumes "\<And>s. consumes (body s)" and "length rs < n" and "n \<le> m"
  shows "uloop m body s rs = uloop n body s rs"
  using assms(2,3)
proof (induction n arbitrary: s rs m)
  case (Suc n)
  then obtain m' where m: "m = Suc m'" "n \<le> m'" by (cases m) auto
  have c: "length rs' < length rs" if "body s rs = (tr, UDone x rs')" for tr x rs'
    using assms(1) [of s] that unfolding consumes_def by blast
  obtain tr r where b: "body s rs = (tr, r)" by (cases "body s rs")
  show ?case
  proof (cases r)
    case (UDone y rs')
    from c b UDone have "length rs' < n" using Suc.prems(1) by fastforce
    then have "uloop m' body s' rs' = uloop n body s' rs'" for s' using Suc.IH m(2) by blast
    then show ?thesis using b UDone m(1) by (cases y) (simp_all add: ubind_def)
  qed (use b m(1) in \<open>simp_all add: ubind_def\<close>)
qed simp

lemma uloop_fuel:
  assumes "\<And>s. consumes (body s)" and "length rs < n"
  shows "uloop n body s rs = urepeat body s rs"
  unfolding urepeat_def using uloop_more [where body = body and rs = rs and n = "Suc (length rs)" and m = n and s = s] assms by simp

lemma urepeat_unfold:
  assumes "\<And>s. consumes (body s)"
  shows "urepeat body s rs = ubind (body s) (\<lambda>r. case r of Inl s' \<Rightarrow> urepeat body s' | Inr x \<Rightarrow> uret x) rs"
proof -
  obtain tr r where b: "body s rs = (tr, r)" by (cases "body s rs")
  show ?thesis
  proof (cases r)
    case (UDone y rs')
    have "length rs' < length rs" using assms [of s] b UDone unfolding consumes_def by blast
    then have "uloop (length rs) body s' rs' = urepeat body s' rs'" for s' by (rule uloop_fuel [OF assms])
    then show ?thesis unfolding urepeat_def using b UDone by (cases y) (simp_all add: ubind_def urepeat_def)
  qed (use b in \<open>simp_all add: urepeat_def ubind_def\<close>)
qed

lemma ubind_simps [simp]:
  "ubind (uret x) f = f x" "ubind uexit f = uexit"
  by (simp_all add: fun_eq_iff ubind_def uret_def uexit_def split: prod.split)

lemma ubind_call: "ubind (ucall c) f (r # rs) = (case f r rs of (tr, x) \<Rightarrow> (c # tr, x))" "ubind (ucall c) f [] = ([c], UWaits)"
  by (simp_all add: ubind_def ucall_def)

lemma ubind_assoc: "ubind (ubind m f) g = ubind m (\<lambda>x. ubind (f x) g)"
  by (auto simp: fun_eq_iff ubind_def split: prod.split ures.split)

text \<open>Programs never hand back answers they have not been given.\<close>

named_theorems uprog_intros

definition nongrow :: "'a uprog \<Rightarrow> bool" where
  "nongrow m \<longleftrightarrow> (\<forall>rs tr x rs'. m rs = (tr, UDone x rs') \<longrightarrow> length rs' \<le> length rs)"

lemma nongrow_ret [uprog_intros]: "nongrow (uret x)"
  by (simp add: nongrow_def uret_def)

lemma nongrow_exit [uprog_intros]: "nongrow uexit"
  by (simp add: nongrow_def uexit_def)

lemma ubind_DoneE:
  assumes "ubind m f rs = (tr, UDone y rs')"
  obtains tr1 x rs1 tr2 where "m rs = (tr1, UDone x rs1)" "f x rs1 = (tr2, UDone y rs')" "tr = tr1 @ tr2"
  using assms by (auto simp: ubind_def split: prod.splits ures.splits)

lemma nongrow_bind [uprog_intros]: "nongrow m \<Longrightarrow> (\<And>x. nongrow (f x)) \<Longrightarrow> nongrow (ubind m f)"
  unfolding nongrow_def by (metis ubind_DoneE order.trans)

lemma consumes_call: "consumes (ucall c)"
  by (auto simp: consumes_def ucall_def split: list.splits)

lemma consumes_nongrow: "consumes m \<Longrightarrow> nongrow m"
  unfolding consumes_def nongrow_def by (metis less_imp_le)

lemma consumes_bind: "consumes m \<Longrightarrow> (\<And>x. nongrow (f x)) \<Longrightarrow> consumes (ubind m f)"
  unfolding nongrow_def consumes_def by (metis ubind_DoneE order.strict_trans1)

lemma consumes_basic: "consumes (uans c)" "consumes (udo c)" "consumes (uread fd n)"
  unfolding uans_def udo_def uread_def by (intro consumes_bind consumes_call nongrow_ret)+

lemma nongrow_basic [uprog_intros]: "nongrow (ucall c)" "nongrow (uans c)" "nongrow (udo c)" "nongrow (uread fd n)"
  by (rule consumes_nongrow, rule consumes_call consumes_basic)+

lemma nongrow_if [uprog_intros]: "nongrow a \<Longrightarrow> nongrow b \<Longrightarrow> nongrow (if c then a else b)"
  by simp

lemma nongrow_seq [uprog_intros]: "(\<And>m. m \<in> set ms \<Longrightarrow> nongrow m) \<Longrightarrow> nongrow (useq ms)"
  by (induction ms) (auto intro: uprog_intros)

lemma nongrow_waits [uprog_intros]: "nongrow (\<lambda>rs. (tr rs, UWaits))"
  by (simp add: nongrow_def)

section \<open>ulib.c\<close>

definition NUL :: char where "NUL = CHR 0x00"

text \<open>\<open>*p\<close> of a string: its first character, or the terminating NUL.\<close>

definition deref :: "string \<Rightarrow> char" where
  "deref s = (case s of [] \<Rightarrow> NUL | c # _ \<Rightarrow> c)"

fun ustrcpy :: "string \<Rightarrow> string" where
  "ustrcpy [] = []"
| "ustrcpy (c # t) = c # ustrcpy t"

fun ustrcmp :: "string \<Rightarrow> string \<Rightarrow> int" where
  "ustrcmp (c # p) q =
     (if deref q = c then ustrcmp p (tl q) else int (of_char c) - int (of_char (deref q)))"
| "ustrcmp [] q = 0 - int (of_char (deref q))"

fun ustrlen :: "string \<Rightarrow> nat" where
  "ustrlen [] = 0"
| "ustrlen (c # s) = Suc (ustrlen s)"

text \<open>\<open>strchr\<close>: the rest of the string from the character found.\<close>

fun ustrchr :: "string \<Rightarrow> char \<Rightarrow> string option" where
  "ustrchr [] c = None"
| "ustrchr (x # s) c = (if x = c then Some (x # s) else ustrchr s c)"

definition gets :: "nat \<Rightarrow> string uprog" where
  "gets maxn =
     urepeat (\<lambda>b.
       if length b + 1 < maxn then
         ubind (uread 0 1) (\<lambda>(cc, d). uret
           (if cc < 1 then Inr b
            else if deref d = CHR 0x0A \<or> deref d = CHR 0x0D then Inr (b @ [deref d])
            else Inl (b @ [deref d])))
       else uret (Inr b)) []"

definition O_RDONLY :: nat where "O_RDONLY = 0"
definition O_WRONLY :: nat where "O_WRONLY = 1"
definition O_RDWR :: nat where "O_RDWR = 2"
definition O_CREATE :: nat where "O_CREATE = 0x200"

definition ustat :: "string \<Rightarrow> (int \<times> stat option) uprog" where
  "ustat n =
     ubind (uans (UOpen n O_RDONLY)) (\<lambda>fd.
       if fd < 0 then uret (-1, None)
       else ubind (ucall (UFstat fd)) (\<lambda>r.
            ubind (udo (UClose fd)) (\<lambda>_.
              uret (case r of RStat k st \<Rightarrow> (k, Some st) | _ \<Rightarrow> (int_of r, None)))))"

fun atoi_loop :: "u32 \<Rightarrow> string \<Rightarrow> u32" where
  "atoi_loop n [] = n"
| "atoi_loop n (c # s) =
     (if CHR ''0'' \<le> c \<and> c \<le> CHR ''9'' then atoi_loop (n * 10 + of_nat (of_char c) - of_nat (of_char CHR ''0'')) s else n)"

definition atoi :: "string \<Rightarrow> int" where
  "atoi s = sint (atoi_loop 0 s)"

section \<open>printf.c\<close>

definition digits :: string where "digits = ''0123456789ABCDEF''"

text \<open>The do-while loop fills the buffer from the last digit on; it is printed backwards.\<close>

function printint_loop :: "nat \<Rightarrow> nat \<Rightarrow> string" where
  "printint_loop base x =
     digits ! (x mod base) # (if base < 2 \<or> x div base = 0 then [] else printint_loop base (x div base))"
  by auto
termination
proof (relation "measure snd", goal_cases)
  case (2 base x)
  then have "1 < base" "x div base \<noteq> 0" by auto
  moreover from this(2) have "0 < x" by (cases x) auto
  ultimately show ?case by (simp add: div_less_dividend)
qed simp

declare printint_loop.simps [simp del]

definition printint :: "u32 \<Rightarrow> nat \<Rightarrow> bool \<Rightarrow> string" where
  "printint xx base sg =
     (let neg = (sg \<and> sint xx < 0); x = (if neg then - xx else xx)
      in rev (printint_loop base (unat x) @ (if neg then ''-'' else [])))"

datatype parg = PInt u32 | PStr "string option"

text \<open>
  The text that \<open>printf\<close> prints. \<open>None\<close> stands for a format that takes more arguments than
  were passed, or takes a number for a string, where the C code reads whatever is there.
\<close>

fun printf_text :: "string \<Rightarrow> parg list \<Rightarrow> string option" where
  "printf_text [] ap = Some []"
| "printf_text (c # fmt) ap =
     (if c \<noteq> CHR ''%'' then map_option (Cons c) (printf_text fmt ap)
      else (case fmt of
          [] \<Rightarrow> Some []
        | d # fmt' \<Rightarrow>
            if d = CHR ''d'' then
              (case ap of PInt x # ap' \<Rightarrow> map_option ((@) (printint x 10 True)) (printf_text fmt' ap') | _ \<Rightarrow> None)
            else if d = CHR ''x'' \<or> d = CHR ''p'' then
              (case ap of PInt x # ap' \<Rightarrow> map_option ((@) (printint x 16 False)) (printf_text fmt' ap') | _ \<Rightarrow> None)
            else if d = CHR ''s'' then
              (case ap of PStr s # ap' \<Rightarrow>
                 map_option ((@) (case s of None \<Rightarrow> ''(null)'' | Some s \<Rightarrow> s)) (printf_text fmt' ap') | _ \<Rightarrow> None)
            else if d = CHR ''c'' then
              (case ap of PInt x # ap' \<Rightarrow> map_option (Cons (char_of (unat x))) (printf_text fmt' ap') | _ \<Rightarrow> None)
            else if d = CHR ''%'' then map_option (Cons d) (printf_text fmt' ap)
            else map_option (\<lambda>t. CHR ''%'' # d # t) (printf_text fmt' ap)))"

definition putc :: "int \<Rightarrow> char \<Rightarrow> unit uprog" where
  "putc fd c = udo (UWrite fd [c])"

definition printf :: "int \<Rightarrow> string \<Rightarrow> parg list \<Rightarrow> unit uprog" where
  "printf fd fmt args =
     (case printf_text fmt args of Some t \<Rightarrow> useq (map (putc fd) t) | None \<Rightarrow> (\<lambda>rs. ([], UWaits)))"

section \<open>Facts\<close>

lemma ustrlen_length [simp]: "ustrlen s = length s"
  by (induction s) auto

lemma ustrcpy_id [simp]: "ustrcpy s = s"
  by (induction s) auto

lemma ustrchr_None: "ustrchr s c = None \<longleftrightarrow> c \<notin> set s"
  by (induction s) auto

lemma ustrchr_Some: "ustrchr s c = Some t \<longleftrightarrow> (\<exists>p. s = p @ t \<and> c \<notin> set p \<and> t \<noteq> [] \<and> hd t = c)"
proof (induction s)
  case (Cons x s)
  show ?case
  proof (cases "x = c")
    case True
    then show ?thesis by (auto simp: Cons_eq_append_conv)
  next
    case False
    then show ?thesis using Cons by (auto simp: Cons_eq_append_conv)
  qed
qed auto

lemma udo_run:
  "ubind (udo c) f (r # rs) = (case f () rs of (tr, x) \<Rightarrow> (c # tr, x))" "ubind (udo c) f [] = ([c], UWaits)"
  by (simp_all add: udo_def ubind_assoc ubind_call)

lemma useq_writes:
  "useq (map (putc fd) t) rs =
     (if length t \<le> length rs then (map (\<lambda>c. UWrite fd [c]) t, UDone () (drop (length t) rs))
      else (map (\<lambda>c. UWrite fd [c]) (take (Suc (length rs)) t), UWaits))"
proof (induction t arbitrary: rs)
  case (Cons c t)
  show ?case
    using Cons by (cases rs) (simp_all add: putc_def udo_run)
qed (simp add: uret_def)

lemma nongrow_printf [uprog_intros]: "nongrow (printf fd fmt args)"
  unfolding printf_def putc_def by (auto intro!: uprog_intros split: option.split)

lemma uread_run: "ubind (uread fd n) f (RRead k d # rs) = (case f (k, take n d) rs of (tr, x) \<Rightarrow> (URead fd n # tr, x))"
  by (simp add: uread_def ubind_assoc ubind_call)

lemma printf_run:
  assumes "printf_text fmt args = Some t" and "length t \<le> length rs"
  shows "printf fd fmt args rs = (map (\<lambda>c. UWrite fd [c]) t, UDone () (drop (length t) rs))"
  using assms by (simp add: printf_def useq_writes)

lemma ubind_done: "m rs = (tr, UDone x rs') \<Longrightarrow> ubind m f rs = (case f x rs' of (tr', r) \<Rightarrow> (tr @ tr', r))"
  by (simp add: ubind_def)

text \<open>Reading back a printed number.\<close>

fun dec :: "nat \<Rightarrow> string \<Rightarrow> nat" where
  "dec n [] = n"
| "dec n (c # s) = dec (n * 10 + (of_char c - 48)) s"

definition is_digit :: "char \<Rightarrow> bool" where
  "is_digit c \<longleftrightarrow> CHR ''0'' \<le> c \<and> c \<le> CHR ''9''"

lemma atoi_dec: "\<forall>c \<in> set s. is_digit c \<Longrightarrow> atoi_loop (of_nat n) s = of_nat (dec n s)"
proof (induction s arbitrary: n)
  case (Cons c s)
  have c: "48 \<le> (of_char c :: nat)" using Cons.prems by (auto simp: is_digit_def less_eq_char_def)
  have "of_nat n * 10 + of_nat (of_char c) - (of_nat (of_char CHR ''0'') :: u32) = of_nat (n * 10 + (of_char c - 48))"
    using c by (simp add: of_nat_diff)
  moreover have "atoi_loop (of_nat n) (c # s) = atoi_loop (of_nat n * 10 + of_nat (of_char c) - of_nat (of_char CHR ''0'')) s"
    using Cons.prems by (simp add: is_digit_def)
  ultimately show ?case using Cons.IH [of "n * 10 + (of_char c - 48)"] Cons.prems by (simp only: dec.simps list.set_intros) simp
qed simp

lemma dec_append: "dec n (s @ [c]) = dec n s * 10 + (of_char c - 48)"
  by (induction n s rule: dec.induct) simp_all

lemma digit_char: "d < 10 \<Longrightarrow> of_char (digits ! d) = 48 + d \<and> is_digit (digits ! d)"
proof -
  assume "d < 10"
  then have "d \<in> {0, 1, 2, 3, 4, 5, 6, 7, 8, 9}" by auto
  then show ?thesis by (auto simp: digits_def is_digit_def less_eq_char_def numeral_eq_Suc)
qed

lemma printint_loop_dec:
  "dec 0 (rev (printint_loop 10 x)) = x \<and> (\<forall>c \<in> set (printint_loop 10 x). is_digit c)"
proof (induction x rule: less_induct)
  case (less x)
  have d: "of_char (digits ! (x mod 10)) = 48 + x mod 10" "is_digit (digits ! (x mod 10))" using digit_char by auto
  show ?case
  proof (cases "x div 10 = 0")
    case True
    then show ?thesis using d by (subst (1 2) printint_loop.simps) simp
  next
    case False
    then have "x div 10 < x" by (intro div_less_dividend) auto
    from less [OF this] False d show ?thesis
      by (subst (1 2) printint_loop.simps) (simp add: dec_append)
  qed
qed

text \<open>The number of digits.\<close>

lemma printint_loop_length:
  assumes "2 \<le> base" and "x < base ^ Suc n"
  shows "length (printint_loop base x) \<le> Suc n"
  using assms(2)
proof (induction n arbitrary: x)
  case 0
  then show ?case by (subst printint_loop.simps) simp
next
  case (Suc n)
  have "x div base < base ^ Suc n" using Suc.prems by (intro less_mult_imp_div_less) (simp add: mult.commute)
  from Suc.IH [OF this] show ?case by (subst printint_loop.simps) simp
qed

lemma atoi_digits: "atoi_loop 0 (rev (printint_loop 10 n)) = of_nat n"
proof -
  have "\<forall>c \<in> set (rev (printint_loop 10 n)). is_digit c" using printint_loop_dec by auto
  from atoi_dec [OF this, of 0] printint_loop_dec [of n] show ?thesis by simp
qed

lemma printint_length: "length (printint x 10 sg) \<le> 11" "length (printint x 16 False) \<le> 8"
proof -
  have b: "unat y < 2 ^ 32" for y :: u32 using unsigned_less [of y, where 'a = nat] by simp
  have "unat y < 10 ^ Suc 9" for y :: u32 by (rule less_trans [OF b]) simp
  then have l: "length (printint_loop 10 (unat y)) \<le> 10" for y :: u32
    using printint_loop_length [of 10 "unat y" 9] by simp
  show "length (printint x 10 sg) \<le> 11" using l [of x] l [of "- x"] by (simp add: printint_def Let_def)
  have "unat x < 16 ^ Suc 7" using b [of x] by simp
  then show "length (printint x 16 False) \<le> 8"
    using printint_loop_length [of 16 "unat x" 7] by (simp add: printint_def Let_def)
qed

text \<open>C30. Printing and reading numbers: the digits that \<open>%d\<close> prints are read back by \<open>atoi\<close> as the same
  number, a negative number is printed as a minus sign and the digits of its negation, and
  neither \<open>%d\<close> nor \<open>%x\<close> writes more characters than the 16-byte buffer of \<open>printint\<close> holds.\<close>

theorem printint_atoi:
  "atoi (printint (if sint x < 0 then - x else x) 10 False) = sint (if sint x < 0 then - x else x) \<and>
   printint x 10 True = (if sint x < 0 then ''-'' @ printint (- x) 10 False else printint x 10 False) \<and>
   length (printint x 10 True) \<le> 16 \<and> length (printint x 16 False) \<le> 16"
proof -
  have "atoi_loop 0 (printint y 10 False) = y" for y
    using atoi_digits [of "unat y"] by (simp add: printint_def)
  then show ?thesis using printint_length(1) [of x True] printint_length(2) [of x]
    by (simp add: atoi_def) (simp add: printint_def Let_def)
qed

end
