(* ===== verification/Utils.thy ===== *)
theory Utils
  imports User
begin

text \<open>
  Small user programs of \<open>src/HW3\<close>: \<open>cat.c\<close>, \<open>wc.c\<close>, \<open>echo.c\<close>, \<open>kill.c\<close>, \<open>ln.c\<close>,
  \<open>mkdir.c\<close>, \<open>rm.c\<close>, \<open>ls.c\<close>, \<open>init.c\<close>, \<open>zombie.c\<close>, \<open>stressfs.c\<close>, \<open>forktest.c\<close> and
  \<open>sumto.c\<close> with its assembly routine. \<open>main\<close> of a program takes \<open>argv\<close> as a list;
  \<open>argv[0]\<close> is its head. Newline is the character 10.
\<close>

definition NL :: string where "NL = [CHR 0x0A]"

section \<open>cat\<close>

definition cat_body :: "int \<Rightarrow> unit \<Rightarrow> (unit + int) uprog" where
  "cat_body fd _ = ubind (uread fd 512) (\<lambda>(n, d).
     if n > 0 then ubind (udo (UWrite 1 (take (nat n) d))) (\<lambda>_. uret (Inl ())) else uret (Inr n))"

definition cat :: "int \<Rightarrow> unit uprog" where
  "cat fd =
     ubind (urepeat (cat_body fd) ()) (\<lambda>n.
     uwhen (n < 0) (ubind (printf 1 (''cat: read error'' @ NL) []) (\<lambda>_. uexit)))"

fun cat_files :: "string list \<Rightarrow> unit uprog" where
  "cat_files [] = uret ()"
| "cat_files (f # fs) =
     ubind (uans (UOpen f 0)) (\<lambda>fd.
       if fd < 0 then ubind (printf 1 (''cat: cannot open %s'' @ NL) [PStr (Some f)]) (\<lambda>_. uexit)
       else ubind (cat fd) (\<lambda>_. ubind (udo (UClose fd)) (\<lambda>_. cat_files fs)))"

definition cat_main :: "string list \<Rightarrow> unit uprog" where
  "cat_main argv =
     (if length argv \<le> 1 then ubind (cat 0) (\<lambda>_. uexit)
      else ubind (cat_files (tl argv)) (\<lambda>_. uexit))"

section \<open>wc\<close>

record wcount =
  wl :: nat
  ww :: nat
  wc_ch :: nat
  inword :: bool

definition wc_space :: "char \<Rightarrow> bool" where
  "wc_space c \<longleftrightarrow> ustrchr ('' '' @ [CHR 0x0D, CHR 0x09, CHR 0x0A, CHR 0x0B]) c \<noteq> None"

definition wc_char :: "char \<Rightarrow> wcount \<Rightarrow> wcount" where
  "wc_char x s =
     (let s = s\<lparr>wc_ch := Suc (wc_ch s)\<rparr>;
          s = (if x = CHR 0x0A then s\<lparr>wl := Suc (wl s)\<rparr> else s)
      in if wc_space x then s\<lparr>inword := False\<rparr>
         else if \<not> inword s then s\<lparr>ww := Suc (ww s), inword := True\<rparr>
         else s)"

definition wc_body :: "int \<Rightarrow> wcount \<Rightarrow> (wcount + int \<times> wcount) uprog" where
  "wc_body fd s = ubind (uread fd 512) (\<lambda>(n, d).
     uret (if n > 0 then Inl (fold wc_char (take (nat n) d) s) else Inr (n, s)))"

definition wc :: "int \<Rightarrow> string \<Rightarrow> unit uprog" where
  "wc fd name =
     ubind (urepeat (wc_body fd) \<lparr>wl = 0, ww = 0, wc_ch = 0, inword = False\<rparr>) (\<lambda>(n, s).
       if n < 0 then ubind (printf 1 (''wc: read error'' @ NL) []) (\<lambda>_. uexit)
       else printf 1 (''%d %d %d %s'' @ NL)
              [PInt (of_nat (wl s)), PInt (of_nat (ww s)), PInt (of_nat (wc_ch s)), PStr (Some name)])"

fun wc_files :: "string list \<Rightarrow> unit uprog" where
  "wc_files [] = uret ()"
| "wc_files (f # fs) =
     ubind (uans (UOpen f 0)) (\<lambda>fd.
       if fd < 0 then ubind (printf 1 (''wc: cannot open %s'' @ NL) [PStr (Some f)]) (\<lambda>_. uexit)
       else ubind (wc fd f) (\<lambda>_. ubind (udo (UClose fd)) (\<lambda>_. wc_files fs)))"

definition wc_main :: "string list \<Rightarrow> unit uprog" where
  "wc_main argv =
     (if length argv \<le> 1 then ubind (wc 0 []) (\<lambda>_. uexit)
      else ubind (wc_files (tl argv)) (\<lambda>_. uexit))"

section \<open>echo, kill, ln, mkdir, rm\<close>

fun echo_args :: "string list \<Rightarrow> unit uprog" where
  "echo_args [] = uret ()"
| "echo_args (a # as) =
     ubind (printf 1 ''%s%s'' [PStr (Some a), PStr (Some (if as \<noteq> [] then '' '' else NL))]) (\<lambda>_. echo_args as)"

definition echo_main :: "string list \<Rightarrow> unit uprog" where
  "echo_main argv = ubind (echo_args (tl argv)) (\<lambda>_. uexit)"

definition kill_main :: "string list \<Rightarrow> unit uprog" where
  "kill_main argv =
     (if length argv < 2 then ubind (printf 2 (''usage: kill pid...'' @ NL) []) (\<lambda>_. uexit)
      else ubind (useq (map (\<lambda>a. udo (UKill (atoi a))) (tl argv))) (\<lambda>_. uexit))"

definition ln_main :: "string list \<Rightarrow> unit uprog" where
  "ln_main argv =
     (if length argv \<noteq> 3 then ubind (printf 2 (''Usage: ln old new'' @ NL) []) (\<lambda>_. uexit)
      else ubind (uans (ULink (argv ! 1) (argv ! 2))) (\<lambda>r.
           ubind (uwhen (r < 0) (printf 2 (''link %s %s: failed'' @ NL) [PStr (Some (argv ! 1)), PStr (Some (argv ! 2))])) (\<lambda>_.
           uexit)))"

fun mkdir_args :: "string list \<Rightarrow> unit uprog" where
  "mkdir_args [] = uret ()"
| "mkdir_args (a # as) =
     ubind (uans (UMkdir a)) (\<lambda>r.
       if r < 0 then printf 2 (''mkdir: %s failed to create'' @ NL) [PStr (Some a)] else mkdir_args as)"

definition mkdir_main :: "string list \<Rightarrow> unit uprog" where
  "mkdir_main argv =
     (if length argv < 2 then ubind (printf 2 (''Usage: mkdir files...'' @ NL) []) (\<lambda>_. uexit)
      else ubind (mkdir_args (tl argv)) (\<lambda>_. uexit))"

fun rm_args :: "string list \<Rightarrow> unit uprog" where
  "rm_args [] = uret ()"
| "rm_args (a # as) =
     ubind (uans (UUnlink a)) (\<lambda>r.
       if r < 0 then printf 2 (''rm: %s failed to delete'' @ NL) [PStr (Some a)] else rm_args as)"

definition rm_main :: "string list \<Rightarrow> unit uprog" where
  "rm_main argv =
     (if length argv < 2 then ubind (printf 2 (''Usage: rm files...'' @ NL) []) (\<lambda>_. uexit)
      else ubind (rm_args (tl argv)) (\<lambda>_. uexit))"

section \<open>ls\<close>

definition LS_DIRSIZ :: nat where "LS_DIRSIZ = 14"

text \<open>The part of the path after the last slash, padded with blanks to \<open>DIRSIZ\<close> characters.\<close>

definition after_slash :: "string \<Rightarrow> string" where
  "after_slash path = rev (takeWhile (\<lambda>c. c \<noteq> CHR ''/'') (rev path))"

definition fmtname :: "string \<Rightarrow> string" where
  "fmtname path =
     (let p = after_slash path in
      if length p \<ge> LS_DIRSIZ then p else p @ replicate (LS_DIRSIZ - length p) CHR '' '')"

definition ls_line :: "string \<Rightarrow> stat \<Rightarrow> unit uprog" where
  "ls_line path st =
     printf 1 (''%s %d %d %d'' @ NL)
       [PStr (Some (fmtname path)), PInt (word_of_int (st_type st)), PInt (of_nat (st_ino st)), PInt (of_nat (st_size st))]"

text \<open>A directory entry as read: two bytes of inode number and the name, up to its first NUL.\<close>

definition de_inum_of :: "string \<Rightarrow> nat" where
  "de_inum_of d = of_char (d ! 0) + 256 * of_char (d ! 1)"

definition de_name_of :: "string \<Rightarrow> string" where
  "de_name_of d = takeWhile (\<lambda>c. c \<noteq> NUL) (take LS_DIRSIZ (drop 2 d))"

definition ls_entry :: "string \<Rightarrow> string \<Rightarrow> unit uprog" where
  "ls_entry path d =
     (let buf = path @ ''/'' @ de_name_of d in
      ubind (ustat buf) (\<lambda>(r, st).
        case st of
          Some st \<Rightarrow> (if r < 0 then printf 1 (''ls: cannot stat %s'' @ NL) [PStr (Some buf)] else ls_line buf st)
        | None \<Rightarrow> printf 1 (''ls: cannot stat %s'' @ NL) [PStr (Some buf)]))"

definition ls_dir :: "string \<Rightarrow> int \<Rightarrow> unit uprog" where
  "ls_dir path fd =
     urepeat (\<lambda>_. ubind (uread fd 16) (\<lambda>(n, d).
       if n = 16 \<and> length d = 16 then
         (if de_inum_of d = 0 then uret (Inl ())
          else ubind (ls_entry path d) (\<lambda>_. uret (Inl ())))
       else uret (Inr ()))) ()"

definition ls :: "string \<Rightarrow> unit uprog" where
  "ls path =
     ubind (uans (UOpen path 0)) (\<lambda>fd.
       if fd < 0 then printf 2 (''ls: cannot open %s'' @ NL) [PStr (Some path)]
       else ubind (ucall (UFstat fd)) (\<lambda>r.
         case r of
           RStat k st \<Rightarrow>
             (if k < 0 then useq [printf 2 (''ls: cannot stat %s'' @ NL) [PStr (Some path)], udo (UClose fd)]
              else useq [if st_type st = 2 then ls_line path st
                         else if st_type st = 1 then
                           (if length path + 1 + LS_DIRSIZ + 1 > 512 then printf 1 (''ls: path too long'' @ NL) []
                            else ls_dir path fd)
                         else uret (),
                         udo (UClose fd)])
         | _ \<Rightarrow> useq [printf 2 (''ls: cannot stat %s'' @ NL) [PStr (Some path)], udo (UClose fd)]))"

definition ls_main :: "string list \<Rightarrow> unit uprog" where
  "ls_main argv =
     (if length argv < 2 then ubind (ls ''.'') (\<lambda>_. uexit)
      else ubind (useq (map ls (tl argv))) (\<lambda>_. uexit))"

section \<open>init\<close>

text \<open>One round of the endless loop of \<open>init\<close> returns in the parent when the shell has ended.\<close>

definition init_wait :: "int \<Rightarrow> unit uprog" where
  "init_wait pid =
     urepeat (\<lambda>_. ubind (uans UWait) (\<lambda>wpid.
       if wpid \<ge> 0 \<and> wpid \<noteq> pid then ubind (printf 1 (''zombie!'' @ NL) []) (\<lambda>_. uret (Inl ()))
       else uret (Inr ()))) ()"

definition init_round :: "unit uprog" where
  "init_round =
     ubind (printf 1 (''init: starting sh'' @ NL) []) (\<lambda>_.
     ubind (uans UFork) (\<lambda>pid.
       if pid < 0 then ubind (printf 1 (''init: fork failed'' @ NL) []) (\<lambda>_. uexit)
       else if pid = 0 then
         ubind (udo (UExec ''sh'' [''sh''])) (\<lambda>_.
         ubind (printf 1 (''init: exec sh failed'' @ NL) []) (\<lambda>_. uexit))
       else init_wait pid))"

definition init_main :: "unit uprog" where
  "init_main =
     ubind (uans (UOpen ''console'' O_RDWR)) (\<lambda>r.
     ubind (uwhen (r < 0) (useq [udo (UMknod ''console'' 1 1), udo (UOpen ''console'' O_RDWR)])) (\<lambda>_.
     ubind (useq [udo (UDup 0), udo (UDup 0)]) (\<lambda>_.
     urepeat (\<lambda>_. ubind init_round (\<lambda>_. uret (Inl ()))) ())))"

section \<open>zombie, stressfs, forktest\<close>

definition zombie_main :: "unit uprog" where
  "zombie_main =
     ubind (uans UFork) (\<lambda>r. ubind (uwhen (r > 0) (udo (USleep 5))) (\<lambda>_. uexit))"

fun stressfs_forks :: "nat \<Rightarrow> nat \<Rightarrow> nat uprog" where
  "stressfs_forks 0 i = uret i"
| "stressfs_forks (Suc k) i =
     ubind (uans UFork) (\<lambda>r. if r > 0 then uret i else stressfs_forks k (Suc i))"

definition stressfs_main :: "unit uprog" where
  "stressfs_main =
     ubind (printf 1 (''stressfs starting'' @ NL) []) (\<lambda>_.
     ubind (stressfs_forks 4 0) (\<lambda>i.
     ubind (printf 1 (''write %d'' @ NL) [PInt (of_nat i)]) (\<lambda>_.
       let path = ''stressfs'' @ [char_of (48 + i :: nat)] in
       ubind (uans (UOpen path (O_CREATE + O_RDWR))) (\<lambda>fd.
       ubind (useq (replicate 20 (udo (UWrite fd (replicate 512 CHR ''a''))))) (\<lambda>_.
       ubind (udo (UClose fd)) (\<lambda>_.
       ubind (printf 1 (''read'' @ NL) []) (\<lambda>_.
       ubind (uans (UOpen path O_RDONLY)) (\<lambda>fd.
       ubind (useq (replicate 20 (udo (URead fd 512)))) (\<lambda>_.
       ubind (useq [udo (UClose fd), udo UWait]) (\<lambda>_. uexit))))))))))"

text \<open>\<open>forktest.c\<close> has its own \<open>printf\<close>, which writes the format as it is.\<close>

definition ft_printf :: "int \<Rightarrow> string \<Rightarrow> unit uprog" where
  "ft_printf fd s = udo (UWrite fd s)"

fun ft_forks :: "nat \<Rightarrow> nat \<Rightarrow> nat uprog" where
  "ft_forks 0 n = uret n"
| "ft_forks (Suc k) n =
     ubind (uans UFork) (\<lambda>pid.
       if pid < 0 then uret n else if pid = 0 then uexit else ft_forks k (Suc n))"

fun ft_waits :: "nat \<Rightarrow> unit uprog" where
  "ft_waits 0 = uret ()"
| "ft_waits (Suc n) =
     ubind (uans UWait) (\<lambda>r.
       if r < 0 then ubind (ft_printf 1 (''wait stopped early'' @ NL)) (\<lambda>_. uexit) else ft_waits n)"

definition forktest :: "nat \<Rightarrow> unit uprog" where
  "forktest N =
     ubind (ft_printf 1 (''fork test'' @ NL)) (\<lambda>_.
     ubind (ft_forks N 0) (\<lambda>n.
       if n = N then ubind (ft_printf 1 (''fork claimed to work N times!'' @ NL)) (\<lambda>_. uexit)
       else ubind (ft_waits n) (\<lambda>_.
            ubind (uans UWait) (\<lambda>r.
              if r \<noteq> -1 then ubind (ft_printf 1 (''wait got too many'' @ NL)) (\<lambda>_. uexit)
              else ft_printf 1 (''fork test OK'' @ NL)))))"

definition forktest_main :: "unit uprog" where
  "forktest_main = ubind (forktest 1000) (\<lambda>_. uexit)"

section \<open>sumto\<close>

text \<open>
  The assembly routine \<open>sumto\<close> of \<open>sumtofunc.S\<close> works on 32-bit registers: a signed
  comparison, a recursive call on the argument minus one, an addition that wraps. The
  second component is \<open>%ebx\<close>, which the routine loads without saving it.
\<close>

function sumto_regs :: "u32 \<Rightarrow> u32 \<Rightarrow> u32 \<times> u32" where
  "sumto_regs n ebx =
     (if sint n \<le> 1 then (1, ebx) else (case sumto_regs (n - 1) ebx of (eax, _) \<Rightarrow> (eax + n, n)))"
  by auto
termination
proof (relation "measure (\<lambda>(n, _). nat (sint n))", goal_cases)
  case (2 n)
  then have "sint (n - 1) = sint n - 1"
    using sint_lt [of n] by (simp add: sint_word_ariths signed_take_bit_int_eq_self)
  then show ?case using 2 by simp
qed simp

declare sumto_regs.simps [simp del]

definition sumto :: "u32 \<Rightarrow> u32" where
  "sumto n = fst (sumto_regs n 0)"

definition sumto_main :: "string list \<Rightarrow> unit uprog" where
  "sumto_main argv =
     (if length argv \<noteq> 2 then ubind (printf 2 (''usage: sumto <number>'' @ NL) []) (\<lambda>_. uexit)
      else ubind (printf 1 (''sum: %d'' @ NL) [PInt (sumto (word_of_int (atoi (argv ! 1))))]) (\<lambda>_. uexit))"

section \<open>What cat and wc do\<close>

lemma urepeat_step:
  assumes "\<And>s. consumes (body s)" and "body s rs = (tr, UDone (Inl s') rs')"
  shows "urepeat body s rs = (case urepeat body s' rs' of (tr', r) \<Rightarrow> (tr @ tr', r))"
  using assms(2) by (subst urepeat_unfold [OF assms(1)]) (simp add: ubind_def)

lemma urepeat_stop:
  assumes "\<And>s. consumes (body s)" and "body s rs = (tr, UDone (Inr x) rs')"
  shows "urepeat body s rs = (tr, UDone x rs')"
  using assms(2) by (subst urepeat_unfold [OF assms(1)]) (simp add: ubind_def uret_def)

lemma consumes_cat: "consumes (cat_body fd u)"
  unfolding cat_body_def by (intro consumes_bind consumes_basic) (auto intro!: uprog_intros split: prod.split)

text \<open>The answers of a kernel that delivers the chunks \<open>cs\<close> one by one and then end of file.\<close>

definition chunk_answers :: "string list \<Rightarrow> uresp list" where
  "chunk_answers cs = concat (map (\<lambda>c. [RRead (int (length c)) c, RInt (int (length c))]) cs) @ [RRead 0 []]"

lemma cat_loop:
  assumes "\<forall>c \<in> set cs. c \<noteq> [] \<and> length c \<le> 512"
  shows "urepeat (cat_body fd) () (chunk_answers cs @ rest) =
    (concat (map (\<lambda>c. [URead fd 512, UWrite 1 c]) cs) @ [URead fd 512], UDone 0 rest)"
  using assms
proof (induction cs)
  case Nil
  have "cat_body fd () (RRead 0 [] # rest) = ([URead fd 512], UDone (Inr 0) rest)"
    by (simp add: cat_body_def uread_run uret_def)
  from urepeat_stop [where body = "cat_body fd", OF consumes_cat this] show ?case by (simp add: chunk_answers_def)
next
  case (Cons c cs)
  have "cat_body fd () (RRead (int (length c)) c # RInt (int (length c)) # chunk_answers cs @ rest) =
      ([URead fd 512, UWrite 1 c], UDone (Inl ()) (chunk_answers cs @ rest))"
    using Cons.prems by (simp add: cat_body_def uread_run udo_run uret_def)
  from urepeat_step [where body = "cat_body fd", OF consumes_cat this] Cons show ?case
    by (simp add: chunk_answers_def)
qed

lemma consumes_wc: "consumes (wc_body fd s)"
  unfolding wc_body_def by (intro consumes_bind consumes_basic) (auto intro!: uprog_intros split: prod.split)

text \<open>The words of a text: the places where a word begins, given whether one is going on.\<close>

fun word_starts :: "bool \<Rightarrow> string \<Rightarrow> nat" where
  "word_starts b [] = 0"
| "word_starts b (c # t) =
     (if wc_space c then word_starts False t else if b then word_starts True t else Suc (word_starts True t))"

lemma wc_char_fields [simp]:
  "wl (wc_char c s) = wl s + (if c = CHR 0x0A then 1 else 0)" "wc_ch (wc_char c s) = Suc (wc_ch s)"
  "ww (wc_char c s) = ww s + (if wc_space c \<or> inword s then 0 else 1)" "inword (wc_char c s) \<longleftrightarrow> \<not> wc_space c"
  by (simp_all add: wc_char_def Let_def)

lemma wc_fold:
  "fold wc_char t s = \<lparr>wl = wl s + count_list t (CHR 0x0A), ww = ww s + word_starts (inword s) t, wc_ch = wc_ch s + length t,
     inword = (if t = [] then inword s else \<not> wc_space (last t))\<rparr>"
  by (induction t arbitrary: s) simp_all

definition read_answers :: "string list \<Rightarrow> uresp list" where
  "read_answers cs = map (\<lambda>c. RRead (int (length c)) c) cs @ [RRead 0 []]"

lemma wc_loop:
  assumes "\<forall>c \<in> set cs. c \<noteq> [] \<and> length c \<le> 512"
  shows "urepeat (wc_body fd) s (read_answers cs @ rest) =
    (replicate (Suc (length cs)) (URead fd 512), UDone (0, fold wc_char (concat cs) s) rest)"
  using assms
proof (induction cs arbitrary: s)
  case Nil
  have "wc_body fd s (RRead 0 [] # rest) = ([URead fd 512], UDone (Inr (0, s)) rest)"
    by (simp add: wc_body_def uread_run uret_def)
  from urepeat_stop [where body = "wc_body fd", OF consumes_wc this] show ?case by (simp add: read_answers_def)
next
  case (Cons c cs)
  have "wc_body fd s (RRead (int (length c)) c # read_answers cs @ rest) =
      ([URead fd 512], UDone (Inl (fold wc_char c s)) (read_answers cs @ rest))"
    using Cons.prems by (simp add: wc_body_def uread_run uret_def)
  from urepeat_step [where body = "wc_body fd", OF consumes_wc this] Cons show ?case
    by (simp add: read_answers_def)
qed

section \<open>Properties\<close>

text \<open>\<open>cat\<close> copies its input to its output: whatever the chunks in which \<open>read\<close> delivers a file, the
  bytes written to descriptor 1 are the bytes read, in order, and it stops at end of file.\<close>

theorem cat_copies:
  assumes "\<forall>c \<in> set cs. c \<noteq> [] \<and> length c \<le> 512"
  shows "cat fd (chunk_answers cs @ rest) =
      (concat (map (\<lambda>c. [URead fd 512, UWrite 1 c]) cs) @ [URead fd 512], UDone () rest) \<and>
    concat (map (\<lambda>u. case u of UWrite w d \<Rightarrow> if w = 1 then d else [] | _ \<Rightarrow> []) (fst (cat fd (chunk_answers cs @ rest)))) = concat cs"
proof -
  have e: "cat fd (chunk_answers cs @ rest) = (concat (map (\<lambda>c. [URead fd 512, UWrite 1 c]) cs) @ [URead fd 512], UDone () rest)"
    by (simp add: cat_def ubind_done [where m = "urepeat (cat_body fd) ()", OF cat_loop [OF assms]] uwhen_def uret_def)
  have "concat (map (\<lambda>u. case u of UWrite w d \<Rightarrow> if w = 1 then d else [] | _ \<Rightarrow> [])
      (concat (map (\<lambda>c. [URead fd 512, UWrite 1 c]) xs) @ [URead fd 512])) = concat xs" for xs
    by (induction xs) simp_all
  then show ?thesis by (simp add: e)
qed

theorem cat_copies_witness:
  "fst (cat 3 (chunk_answers [''ab'', ''c'']))  = [URead 3 512, UWrite 1 ''ab'', URead 3 512, UWrite 1 ''c'', URead 3 512]"
  using cat_copies [of "[''ab'', ''c'']" 3 "[]"] by simp

text \<open>C31. \<open>wc\<close> counts: whatever the chunks in which the file arrives, it prints the number of newlines, of
  words (maximal runs of characters that are not white space) and of bytes of the whole
  file, and the name, in that order on descriptor 1.\<close>

theorem wc_counts:
  assumes "\<forall>c \<in> set cs. c \<noteq> [] \<and> length c \<le> 512" and "t = concat cs"
    and "out = printint (of_nat (count_list t (CHR 0x0A))) 10 True @ '' '' @ printint (of_nat (word_starts False t)) 10 True @
      '' '' @ printint (of_nat (length t)) 10 True @ '' '' @ name @ NL" and "length out \<le> length rest"
  shows "wc fd name (read_answers cs @ rest) =
    (replicate (Suc (length cs)) (URead fd 512) @ map (\<lambda>c. UWrite 1 [c]) out, UDone () (drop (length out) rest))"
proof -
  have p: "printf_text (''%d %d %d %s'' @ NL) [PInt a, PInt b, PInt c, PStr (Some name)] =
      Some (printint a 10 True @ '' '' @ printint b 10 True @ '' '' @ printint c 10 True @ '' '' @ name @ NL)" for a b c
    by (simp add: NL_def)
  have run: "printf 1 (''%d %d %d %s'' @ NL) [PInt (of_nat (count_list t (CHR 0x0A))), PInt (of_nat (word_starts False t)),
      PInt (of_nat (length t)), PStr (Some name)] rest = (map (\<lambda>c. UWrite 1 [c]) out, UDone () (drop (length out) rest))"
    using printf_run [OF p] assms(3,4) by blast
  show ?thesis
    unfolding wc_def ubind_done [where m = "urepeat (wc_body fd) s" for s, OF wc_loop [OF assms(1)]] assms(2) [symmetric] wc_fold
    using run by simp
qed

theorem wc_counts_witness:
  "wc 0 ''f'' (read_answers [''a b'', NL @ ''c''] @ replicate 8 (RInt 1)) =
     ([URead 0 512, URead 0 512, URead 0 512] @ map (\<lambda>c. UWrite 1 [c]) (''1 3 5 f'' @ NL), UDone () [])"
proof -
  have p: "printint 1 10 True = ''1''" "printint 3 10 True = ''3''" "printint 5 10 True = ''5''"
    by (simp_all add: printint_def printint_loop.simps digits_def)
  show ?thesis
    using wc_counts [of "[''a b'', NL @ ''c'']" "''a b'' @ NL @ ''c''" "''1 3 5 f'' @ NL" "''f''" "replicate 8 (RInt 1)" 0] p
    by (simp add: NL_def wc_space_def)
qed

lemma sumto_regs_sum:
  assumes "sint n = int k" and "0 < k"
  shows "fst (sumto_regs n ebx) = of_nat (k * (k + 1) div 2)"
  using assms
proof (induction k arbitrary: n)
  case (Suc k)
  show ?case
  proof (cases "k = 0")
    case True
    then show ?thesis using Suc.prems by (subst sumto_regs.simps) simp
  next
    case False
    have "sint (n - 1) = int k"
      using Suc.prems sint_lt [of n] by (simp add: sint_word_ariths signed_take_bit_int_eq_self)
    then have ih: "fst (sumto_regs (n - 1) ebx) = of_nat (k * (k + 1) div 2)" using Suc.IH False by blast
    have n: "n = of_nat (Suc k)" using Suc.prems(1) by (metis of_int_of_nat_eq of_int_sint scast_id)
    have "Suc k * (Suc k + 1) div 2 = k * (k + 1) div 2 + Suc k" by simp
    then show ?thesis
      using ih n Suc.prems(1) False by (subst sumto_regs.simps) (auto split: prod.splits)
  qed
qed simp

text \<open>\<open>sumto\<close> hands back \<open>%ebx\<close>, a register its caller may rely on, with another value.\<close>

lemma sumto_clobbers_ebx: "\<exists>n ebx. snd (sumto_regs n ebx) \<noteq> ebx"
proof -
  have "snd (sumto_regs 2 0) = 2" by (subst sumto_regs.simps) (simp split: prod.split)
  then show ?thesis by (intro exI [of _ 2] exI [of _ 0]) simp
qed

text \<open>The assembly routine computes the sum of 1 to n for every positive n, modulo 2 to the 32.\<close>

theorem sumto_sum:
  assumes "0 < sint n"
  shows "sumto n = of_nat (\<Sum>{1..nat (sint n)})"
proof -
  have "(\<Sum>{1..k}) = k * (k + 1) div 2" for k :: nat by (induction k) simp_all
  then show ?thesis using sumto_regs_sum [of n "nat (sint n)" 0] assms by (simp add: sumto_def)
qed

theorem sumto_sum_witness: "sumto 4 = 10"
  using sumto_sum [of 4] by (simp add: numeral_eq_Suc)

end
