(* ===== verification/Grep.thy ===== *)
theory Grep
  imports Utils
begin

text \<open>
  \<open>src/HW3/grep.c\<close>: the regular expression matcher and the loop over the input. The matcher is
  proved equivalent to a reading of the pattern as a list of items, and the loop to selecting
  the matching lines of the whole input, under the condition that every read delivers a newline.
  Without it \<open>grep\<close> drops text (\<open>grep_loses_text\<close>).
\<close>

section \<open>The matcher\<close>

function matchhere :: "string \<Rightarrow> string \<Rightarrow> bool" and matchstar :: "char \<Rightarrow> string \<Rightarrow> string \<Rightarrow> bool" where
  "matchhere re tx =
     (if re = [] then True
      else if deref (tl re) = CHR ''*'' then matchstar (hd re) (tl (tl re)) tx
      else if hd re = CHR ''$'' \<and> tl re = [] then tx = []
      else if tx \<noteq> [] \<and> (hd re = CHR ''.'' \<or> hd re = hd tx) then matchhere (tl re) (tl tx)
      else False)"
| "matchstar c re tx =
     (if matchhere re tx then True
      else if tx \<noteq> [] \<and> (hd tx = c \<or> c = CHR ''.'') then matchstar c re (tl tx)
      else False)"
  by pat_completeness auto
termination
proof (relation "measure (\<lambda>x. case x of Inl (re, t) \<Rightarrow> 2 * length re + 2 * length t | Inr (c, re, t) \<Rightarrow> 2 * length re + 2 * length t + 1)", goal_cases)
  case (2 re tx)
  then have "re \<noteq> []" "tl re \<noteq> []" by (auto simp: deref_def NUL_def)
  then show ?case by (cases re; cases "tl re") auto
next
  case (3 re tx)
  then show ?case by (cases re; cases tx) auto
next
  case (5 c re tx)
  then show ?case by (cases tx) auto
qed auto

declare matchhere.simps [simp del] matchstar.simps [simp del]

text \<open>The loop of \<open>match\<close> tries every position of the tx, the empty end included.\<close>

fun match_any :: "string \<Rightarrow> string \<Rightarrow> bool" where
  "match_any re [] = matchhere re []"
| "match_any re (c # tx) = (matchhere re (c # tx) \<or> match_any re tx)"

definition match :: "string \<Rightarrow> string \<Rightarrow> bool" where
  "match re tx = (if deref re = CHR ''^'' then matchhere (tl re) tx else match_any re tx)"

section \<open>The loop over the input\<close>

text \<open>The line scan stops at the first NUL, as the string functions do.\<close>

definition line_end :: "string \<Rightarrow> nat" where
  "line_end t = length (takeWhile (\<lambda>c. c \<noteq> CHR 0x0A \<and> c \<noteq> NUL) t)"

function grep_scan :: "string \<Rightarrow> string \<Rightarrow> string list \<times> string" where
  "grep_scan re t =
     (if line_end t < length t \<and> t ! line_end t = CHR 0x0A then
        (case grep_scan re (drop (Suc (line_end t)) t) of (outs, rem) \<Rightarrow>
           ((if match re (take (line_end t) t) then [take (Suc (line_end t)) t] else []) @ outs, rem))
      else ([], t))"
  by auto
termination
  by (relation "measure (\<lambda>(re, t). length t)") auto

declare grep_scan.simps [simp del]

definition grep_body :: "string \<Rightarrow> int \<Rightarrow> string \<Rightarrow> (string + unit) uprog" where
  "grep_body re fd b =
     ubind (uread fd (1024 - length b - 1)) (\<lambda>(n, d).
       if n > 0 then
         (let t = b @ take (nat n) d in
          case grep_scan re t of (outs, rem) \<Rightarrow>
            ubind (useq (map (\<lambda>l. udo (UWrite 1 l)) outs)) (\<lambda>_.
              uret (Inl (if length rem = length t then [] else rem))))
       else uret (Inr ()))"

definition grep :: "string \<Rightarrow> int \<Rightarrow> unit uprog" where
  "grep re fd = urepeat (grep_body re fd) []"

fun grep_files :: "string \<Rightarrow> string list \<Rightarrow> unit uprog" where
  "grep_files re [] = uret ()"
| "grep_files re (f # fs) =
     ubind (uans (UOpen f 0)) (\<lambda>fd.
       if fd < 0 then ubind (printf 1 (''grep: cannot open %s'' @ NL) [PStr (Some f)]) (\<lambda>_. uexit)
       else ubind (grep re fd) (\<lambda>_. ubind (udo (UClose fd)) (\<lambda>_. grep_files re fs)))"

definition grep_main :: "string list \<Rightarrow> unit uprog" where
  "grep_main argv =
     (if length argv \<le> 1 then ubind (printf 2 (''usage: grep pattern [file ...]'' @ NL) []) (\<lambda>_. uexit)
      else if length argv \<le> 2 then ubind (grep (argv ! 1) 0) (\<lambda>_. uexit)
      else ubind (grep_files (argv ! 1) (drop 2 argv)) (\<lambda>_. uexit))"

section \<open>The meaning of a pattern\<close>

datatype item = Star char | One char | End

fun items :: "string \<Rightarrow> item list" where
  "items [] = []"
| "items [c] = [if c = CHR ''$'' then End else One c]"
| "items (c # d # re) = (if d = CHR ''*'' then Star c # items re else One c # items (d # re))"

definition fits :: "char \<Rightarrow> char \<Rightarrow> bool" where
  "fits c x \<longleftrightarrow> c = CHR ''.'' \<or> c = x"

fun means :: "item list \<Rightarrow> string \<Rightarrow> bool" where
  "means [] t \<longleftrightarrow> True"
| "means (End # is) t \<longleftrightarrow> t = []"
| "means (One c # is) t \<longleftrightarrow> (\<exists>x t'. t = x # t' \<and> fits c x \<and> means is t')"
| "means (Star c # is) t \<longleftrightarrow> (\<exists>u v. t = u @ v \<and> (\<forall>x \<in> set u. fits c x) \<and> means is v)"

lemma means_star:
  "means (Star c # is) t \<longleftrightarrow> means is t \<or> (\<exists>x t'. t = x # t' \<and> fits c x \<and> means (Star c # is) t')"
proof
  assume "means (Star c # is) t"
  then obtain u v where u: "t = u @ v" "\<forall>x \<in> set u. fits c x" "means is v" by auto
  then show "means is t \<or> (\<exists>x t'. t = x # t' \<and> fits c x \<and> means (Star c # is) t')" by (cases u) auto
next
  assume "means is t \<or> (\<exists>x t'. t = x # t' \<and> fits c x \<and> means (Star c # is) t')"
  then consider "means is t" | x u v where "t = (x # u) @ v" "\<forall>y \<in> set (x # u). fits c y" "means is v" by auto
  then show "means (Star c # is) t"
  proof cases
    case 1
    then have "t = [] @ t \<and> (\<forall>x \<in> set []. fits c x) \<and> means is t" by simp
    then show ?thesis unfolding means.simps by blast
  next
    case 2
    then show ?thesis unfolding means.simps by blast
  qed
qed

lemma matchhere_means:
  "matchhere re tx = means (items re) tx"
  "matchstar c re tx = means (Star c # items re) tx"
proof (induction re tx and c re tx rule: matchhere_matchstar.induct)
  case (1 re tx)
  show ?case
  proof (cases re rule: items.cases)
    case 1
    then show ?thesis by (simp add: matchhere.simps)
  next
    case (2 c)
    then show ?thesis by (subst matchhere.simps) (cases tx; simp add: deref_def NUL_def fits_def matchhere.simps [of "[]"])
  next
    case (3 c d re')
    note re = this
    show ?thesis
    proof (cases "d = CHR ''*''")
      case True
      then show ?thesis using 1(1) re by (subst matchhere.simps) (simp add: deref_def)
    next
      case False
      then show ?thesis using 1(2) re by (subst matchhere.simps) (cases tx; simp add: deref_def fits_def)
    qed
  qed
next
  case (2 c re tx)
  show ?case
    using 2 by (subst matchstar.simps, subst means_star) (cases tx; auto simp: fits_def simp del: means.simps)
qed

lemma match_any_means: "match_any re t \<longleftrightarrow> (\<exists>u v. t = u @ v \<and> means (items re) v)"
proof (induction t)
  case (Cons c t)
  have "(\<exists>u v. c # t = u @ v \<and> means (items re) v) \<longleftrightarrow>
      means (items re) (c # t) \<or> (\<exists>u v. t = u @ v \<and> means (items re) v)"
    by (auto simp: Cons_eq_append_conv)
  then show ?case using Cons by (simp add: matchhere_means)
qed (simp add: matchhere_means)

text \<open>The lines of a text: the complete ones, without their newlines, and what follows the last newline.\<close>

fun split_lines :: "string \<Rightarrow> string \<Rightarrow> string list \<times> string" where
  "split_lines acc [] = ([], acc)"
| "split_lines acc (c # s) =
     (if c = CHR 0x0A then (case split_lines [] s of (lns, r) \<Rightarrow> (acc # lns, r)) else split_lines (acc @ [c]) s)"

lemma split_lines_append:
  "split_lines acc (s @ t) =
     (case split_lines acc s of (lns, r) \<Rightarrow> (case split_lines r t of (lns', r') \<Rightarrow> (lns @ lns', r')))"
  by (induction acc s rule: split_lines.induct) (auto split: prod.split)

lemma split_lines_plain: "CHR 0x0A \<notin> set s \<Longrightarrow> split_lines acc s = ([], acc @ s)"
  by (induction acc s rule: split_lines.induct) auto

lemma split_lines_line: "CHR 0x0A \<notin> set s \<Longrightarrow> split_lines acc (s @ CHR 0x0A # t) = (case split_lines [] t of (lns, r) \<Rightarrow> ((acc @ s) # lns, r))"
  by (simp add: split_lines_append split_lines_plain split: prod.split)

lemma split_lines_shorter:
  "split_lines acc s = (lns, r) \<Longrightarrow> CHR 0x0A \<in> set s \<Longrightarrow> length r < length s"
proof (induction acc s arbitrary: lns rule: split_lines.induct)
  case (2 acc c s)
  show ?case
  proof (cases "c = CHR 0x0A")
    case True
    obtain lns' where s: "split_lines [] s = (lns', r)" using 2(3) True by (auto split: prod.splits)
    show ?thesis
    proof (cases "CHR 0x0A \<in> set s")
      case True
      then show ?thesis using 2(1) [OF \<open>c = CHR 0x0A\<close> s] by simp
    next
      case False
      then show ?thesis using s by (simp add: split_lines_plain)
    qed
  qed (use 2 in fastforce)
qed simp

lemma line_end_cases:
  assumes "NUL \<notin> set t"
  obtains "CHR 0x0A \<notin> set t" "line_end t = length t"
  | l d where "t = l @ CHR 0x0A # d" "CHR 0x0A \<notin> set l" "line_end t = length l"
proof (cases "CHR 0x0A \<in> set t")
  case True
  then obtain l d where t: "t = l @ CHR 0x0A # d" "CHR 0x0A \<notin> set l" by (meson split_list_first)
  have "\<forall>c \<in> set l. c \<noteq> CHR 0x0A \<and> c \<noteq> NUL" using t assms by auto
  then have "takeWhile (\<lambda>c. c \<noteq> CHR 0x0A \<and> c \<noteq> NUL) t = l" unfolding t(1) by simp
  then show ?thesis using that(2) t by (simp add: line_end_def)
next
  case False
  then have "\<forall>c \<in> set t. c \<noteq> CHR 0x0A \<and> c \<noteq> NUL" using assms by auto
  then have "takeWhile (\<lambda>c. c \<noteq> CHR 0x0A \<and> c \<noteq> NUL) t = t" by simp
  then have "line_end t = length t" unfolding line_end_def by (rule arg_cong)
  then show ?thesis using that(1) False by blast
qed

lemma grep_scan_lines:
  assumes "NUL \<notin> set t"
  shows "grep_scan re t =
    (case split_lines [] t of (lns, r) \<Rightarrow> (map (\<lambda>l. l @ NL) (filter (match re) lns), r))"
  using assms
proof (induction "length t" arbitrary: t rule: less_induct)
  case less
  show ?case
  proof (rule line_end_cases [OF less.prems], goal_cases)
    case 1
    then show ?case by (subst grep_scan.simps) (simp add: split_lines_plain)
  next
    case (2 l d)
    have d: "grep_scan re d = (case split_lines [] d of (lns, r) \<Rightarrow> (map (\<lambda>l. l @ NL) (filter (match re) lns), r))"
      using less.hyps [of d] less.prems unfolding 2(1) by simp
    have e: "line_end t < length t" "t ! line_end t = CHR 0x0A" "drop (Suc (line_end t)) t = d" "take (line_end t) t = l"
        "take (Suc (line_end t)) t = l @ NL" unfolding 2(3) unfolding 2(1) by (simp_all add: NL_def)
    obtain lns r where sd: "split_lines [] d = (lns, r)" by (cases "split_lines [] d")
    have st: "split_lines [] t = (l # lns, r)"
      unfolding 2(1) using split_lines_line [OF 2(2), of "[]" d] sd by simp
    have "grep_scan re t = ((if match re l then [l @ NL] else []) @ map (\<lambda>l. l @ NL) (filter (match re) lns), r)"
      by (subst grep_scan.simps) (simp add: e d sd)
    then show ?case using st by simp
  qed
qed

text \<open>
  A run of the loop: the input arrives in chunks, after each of which the kernel also answers the
  writes of the lines found. \<open>pend\<close> is the beginning of a line kept from the chunks before.
\<close>

fun grep_answers :: "string \<Rightarrow> string \<Rightarrow> string list \<Rightarrow> uresp list" where
  "grep_answers re pend [] = [RRead 0 []]"
| "grep_answers re pend (c # cs) =
     RRead (int (length c)) c # replicate (length (filter (match re) (fst (split_lines pend c)))) (RInt 0) @
     grep_answers re (snd (split_lines pend c)) cs"

text \<open>Every chunk has a newline and fits in the buffer together with the beginning of a line kept before it.\<close>

fun grep_input :: "string \<Rightarrow> string list \<Rightarrow> bool" where
  "grep_input pend [] \<longleftrightarrow> True"
| "grep_input pend (c # cs) \<longleftrightarrow> CHR 0x0A \<in> set c \<and> length pend + length c \<le> 1023 \<and>
     grep_input (snd (split_lines pend c)) cs"

fun is_write :: "ucall \<Rightarrow> bool" where
  "is_write (UWrite fd d) \<longleftrightarrow> True"
| "is_write _ \<longleftrightarrow> False"

lemma split_lines_rest:
  "split_lines acc s = (lns, r) \<Longrightarrow> x \<notin> set acc \<Longrightarrow> x \<notin> set s \<or> x = CHR 0x0A \<Longrightarrow> x \<notin> set r"
  by (induction acc s arbitrary: lns rule: split_lines.induct) (auto split: prod.splits if_splits)

lemma useq_lines:
  "useq (map (\<lambda>l. udo (UWrite 1 l)) outs) (replicate (length outs) (RInt 0) @ rs) = (map (UWrite 1) outs, UDone () rs)"
  by (induction outs) (simp_all add: udo_run uret_def)

lemma consumes_grep: "consumes (grep_body re fd b)"
  unfolding grep_body_def
  by (rule consumes_bind, rule consumes_basic) (auto intro!: uprog_intros split: prod.split simp: Let_def)

lemma grep_body_run:
  assumes "grep_input pend (c # cs)" and "CHR 0x0A \<notin> set pend" and "NUL \<notin> set pend" and "NUL \<notin> set c"
    and s: "split_lines pend c = (lns, r)"
  shows "grep_body re fd pend (grep_answers re pend (c # cs) @ rest) =
    (URead fd (1023 - length pend) # map (\<lambda>l. UWrite 1 (l @ NL)) (filter (match re) lns),
     UDone (Inl r) (grep_answers re r cs @ rest))"
proof -
  have l: "length c \<le> 1023 - length pend" "c \<noteq> []" "NUL \<notin> set (pend @ c)" using assms by auto
  have t: "split_lines [] (pend @ c) = (lns, r)" using s assms(2) by (simp add: split_lines_append split_lines_plain)
  define outs where "outs = map (\<lambda>l. l @ NL) (filter (match re) lns)"
  have g: "grep_scan re (pend @ c) = (outs, r)" using grep_scan_lines [OF l(3)] t by (simp add: outs_def)
  have ne: "length r \<noteq> length (pend @ c)" using split_lines_shorter [OF t] assms(1) by simp
  have n: "length (filter (match re) lns) = length outs" "map (\<lambda>l. UWrite 1 (l @ NL)) (filter (match re) lns) = map (UWrite 1) outs"
    by (simp_all add: outs_def)
  show ?thesis
    using l(1,2) ne
    by (simp add: grep_body_def uread_run s g n ubind_done [where m = "useq (map (\<lambda>l. udo (UWrite 1 l)) outs)", OF useq_lines] uret_def)
qed

lemma grep_loop:
  assumes "grep_input pend cs" and "CHR 0x0A \<notin> set pend" and "NUL \<notin> set pend" and "NUL \<notin> set (concat cs)"
  shows "\<exists>tr. urepeat (grep_body re fd) pend (grep_answers re pend cs @ rest) = (tr, UDone () rest) \<and>
    filter is_write tr = map (\<lambda>l. UWrite 1 (l @ NL)) (filter (match re) (fst (split_lines pend (concat cs))))"
  using assms
proof (induction cs arbitrary: pend)
  case Nil
  have "grep_body re fd pend (RRead 0 [] # rest) = ([URead fd (1023 - length pend)], UDone (Inr ()) rest)"
    by (simp add: grep_body_def uread_run uret_def)
  from urepeat_stop [where body = "grep_body re fd", OF consumes_grep this] show ?case by simp
next
  case (Cons c cs)
  obtain lns r where s: "split_lines pend c = (lns, r)" by (cases "split_lines pend c")
  have r: "grep_input r cs" "CHR 0x0A \<notin> set r" "NUL \<notin> set r" "NUL \<notin> set (concat cs)"
    using Cons.prems s split_lines_rest [OF s] by auto
  from Cons.IH [OF r] obtain tr where tr:
      "urepeat (grep_body re fd) r (grep_answers re r cs @ rest) = (tr, UDone () rest)"
      "filter is_write tr = map (\<lambda>l. UWrite 1 (l @ NL)) (filter (match re) (fst (split_lines r (concat cs))))" by blast
  have nul: "NUL \<notin> set c" using Cons.prems(4) by simp
  note step = urepeat_step [where body = "grep_body re fd", OF consumes_grep grep_body_run [OF Cons.prems(1-3) nul s]]
  have "filter is_write (map (\<lambda>l. UWrite 1 (l @ NL)) xs) = map (\<lambda>l. UWrite 1 (l @ NL)) xs" for xs
    by (induction xs) simp_all
  then show ?case using tr s by (simp only: step) (simp add: split_lines_append split: prod.split)
qed

section \<open>Properties\<close>

text \<open>C18. The regular expression matcher is right: \<open>match\<close> accepts a line iff some suffix of it starts with what
  the pattern denotes, or, for a pattern that starts with \<open>^\<close>, iff the line itself does. \<open>c*\<close>
  denotes any number of characters that fit \<open>c\<close>, \<open>.\<close> fits every character, and a last \<open>$\<close>
  only the end of the line.\<close>

theorem match_meaning:
  "match re line \<longleftrightarrow>
     (if deref re = CHR ''^'' then means (items (tl re)) line
      else (\<exists>u v. line = u @ v \<and> means (items re) v))"
  by (simp add: match_def matchhere_means match_any_means)

text \<open>C32. \<open>grep\<close> prints exactly the matching lines of a text: if the input has no NUL byte, every chunk that
  \<open>read\<close> delivers has a newline, and it fits in the buffer with the partial line kept before it,
  then the lines written to descriptor 1 are, in order, those complete lines of the whole input
  that match, each with its newline. All three conditions are needed: at a NUL byte
  \<open>strchr\<close> stops looking for newlines (\<open>grep_stops_at_NUL\<close>), and text read without a newline is dropped
  (\<open>grep_loses_text\<close>).\<close>

theorem grep_filters:
  assumes "NUL \<notin> set (concat cs)" and "grep_input [] cs"
  shows "\<exists>tr. grep re fd (grep_answers re [] cs @ rest) = (tr, UDone () rest) \<and>
    filter is_write tr = map (\<lambda>l. UWrite 1 (l @ NL)) (filter (match re) (fst (split_lines [] (concat cs))))"
  unfolding grep_def using grep_loop [OF assms(2) _ _ assms(1)] by simp

theorem grep_filters_witness:
  "\<exists>tr. grep ''b'' 3 (grep_answers ''b'' [] [''ab'' @ NL @ ''c'', ''b'' @ NL] @ []) = (tr, UDone () []) \<and>
    filter is_write tr = [UWrite 1 (''ab'' @ NL), UWrite 1 (''cb'' @ NL)]"
  using grep_filters [of "[''ab'' @ NL @ ''c'', ''b'' @ NL]" "''b''" 3 "[]"]
  by (simp add: NL_def NUL_def match_def deref_def matchhere.simps)

text \<open>A NUL byte hides the rest of what was read from the line scan.\<close>

lemma grep_stops_at_NUL: "grep_scan re (NUL # t) = ([], NUL # t)"
  by (subst grep_scan.simps) (simp add: line_end_def NUL_def)

text \<open>
  The condition on the chunks is needed: text read without a newline is dropped, so that a
  line that arrives in two reads, or one longer than the buffer, is not found.
\<close>

lemma grep_loses_text:
  "grep ''a'' 3 [RRead 1 ''a'', RRead 1 NL, RRead 0 []] = ([URead 3 1023, URead 3 1023, URead 3 1023], UDone () [])"
proof -
  have n: "match ''a'' [] = False" by (simp add: match_def deref_def NUL_def matchhere.simps)
  have "grep_body ''a'' 3 [] (RRead 1 ''a'' # rs) = ([URead 3 1023], UDone (Inl []) rs)" for rs
    by (simp add: grep_body_def uread_run uret_def grep_scan.simps line_end_def NUL_def)
  moreover have "grep_body ''a'' 3 [] (RRead 1 NL # rs) = ([URead 3 1023], UDone (Inl []) rs)" for rs
    by (simp add: grep_body_def uread_run uret_def grep_scan.simps line_end_def NUL_def NL_def n)
  moreover have "grep_body ''a'' 3 [] [RRead 0 []] = ([URead 3 1023], UDone (Inr ()) [])"
    by (simp add: grep_body_def uread_run uret_def)
  ultimately show ?thesis
    unfolding grep_def by (simp add: urepeat_step [where body = "grep_body ''a'' 3", OF consumes_grep] urepeat_stop [where body = "grep_body ''a'' 3", OF consumes_grep])
qed

end
