(* ===== verification/Shell.thy ===== *)
theory Shell
  imports Utils
begin

text \<open>
  The shell, \<open>src/HW3/sh.c\<close>. The parser works on offsets into the command line: a
  \<open>char *\<close> into the buffer is a \<open>nat\<close>, \<open>es\<close> is the length of the line, and an
  argument is the pair of offsets where it begins and ends. Words are cut out of the line
  afterwards, by \<open>nulterminate\<close>, which stores a NUL at each end. \<open>malloc\<close> in the
  constructors is taken to succeed. Recursion of the parser is bounded by fuel; the fuel
  \<open>parsecmd\<close> starts with is always enough (\<open>parsecmd_terminates\<close>).
\<close>

section \<open>Commands\<close>

definition MAXARGS :: nat where "MAXARGS = 10"

datatype cmd =
    EXEC "(nat \<times> nat) list"
  | REDIR cmd nat nat nat int
  | PIPE cmd cmd
  | LIST cmd cmd
  | BACK cmd

definition execcmd :: cmd where "execcmd = EXEC []"

definition redircmd :: "cmd \<Rightarrow> nat \<Rightarrow> nat \<Rightarrow> nat \<Rightarrow> int \<Rightarrow> cmd" where
  "redircmd subcmd file efile mode fd = REDIR subcmd file efile mode fd"

definition pipecmd :: "cmd \<Rightarrow> cmd \<Rightarrow> cmd" where "pipecmd left right = PIPE left right"

definition listcmd :: "cmd \<Rightarrow> cmd \<Rightarrow> cmd" where "listcmd left right = LIST left right"

definition backcmd :: "cmd \<Rightarrow> cmd" where "backcmd subcmd = BACK subcmd"

lemmas constructor_defs = execcmd_def redircmd_def pipecmd_def listcmd_def backcmd_def

section \<open>Tokens\<close>

definition whitespace :: string where "whitespace = '' '' @ [CHR 0x09, CHR 0x0D, CHR 0x0A, CHR 0x0B]"
definition symbols :: string where "symbols = ''<|>&;()''"

text \<open>\<open>*s\<close> for a pointer into the line.\<close>

definition char_at :: "string \<Rightarrow> nat \<Rightarrow> char" where
  "char_at b s = (if s < length b then b ! s else NUL)"

definition is_ws :: "char \<Rightarrow> bool" where "is_ws c \<longleftrightarrow> ustrchr whitespace c \<noteq> None"

definition is_word :: "char \<Rightarrow> bool" where
  "is_word c \<longleftrightarrow> ustrchr whitespace c = None \<and> ustrchr symbols c = None"

definition skip_ws :: "string \<Rightarrow> nat \<Rightarrow> nat" where
  "skip_ws b s = s + length (takeWhile is_ws (drop s b))"

definition skip_word :: "string \<Rightarrow> nat \<Rightarrow> nat" where
  "skip_word b s = s + length (takeWhile is_word (drop s b))"

text \<open>\<open>gettoken\<close> returns the kind of token, its two ends and the new position.\<close>

definition gettoken :: "string \<Rightarrow> nat \<Rightarrow> char \<times> nat \<times> nat \<times> nat" where
  "gettoken b s =
     (let s = skip_ws b s; q = s; c = char_at b s;
          (ret, s) =
            (if c = NUL then (c, s)
             else if c \<in> set ''|();&<'' then (c, Suc s)
             else if c = CHR ''>'' then
               (if char_at b (Suc s) = CHR ''>'' then (CHR ''+'', Suc (Suc s)) else (c, Suc s))
             else (CHR ''a'', skip_word b s))
      in (ret, q, s, skip_ws b s))"

definition peek :: "string \<Rightarrow> nat \<Rightarrow> string \<Rightarrow> bool \<times> nat" where
  "peek b s toks =
     (let s = skip_ws b s in (char_at b s \<noteq> NUL \<and> ustrchr toks (char_at b s) \<noteq> None, s))"

section \<open>The parser\<close>

text \<open>A parser returns a value and the new position, or panics: it prints lines on descriptor 2 and exits.\<close>

datatype 'a presult = PRet 'a nat | PPanic "string list" | PFuel

fun pbind :: "'a presult \<Rightarrow> ('a \<Rightarrow> nat \<Rightarrow> 'b presult) \<Rightarrow> 'b presult" where
  "pbind (PRet x s) f = f x s"
| "pbind (PPanic t) f = PPanic t"
| "pbind PFuel f = PFuel"

fun parseredirs :: "nat \<Rightarrow> string \<Rightarrow> cmd \<Rightarrow> nat \<Rightarrow> cmd presult" where
  "parseredirs 0 b c s = PFuel"
| "parseredirs (Suc n) b c s =
     (case peek b s ''<>'' of (found, s) \<Rightarrow>
        if \<not> found then PRet c s
        else (case gettoken b s of (tok, _, _, s) \<Rightarrow>
             (case gettoken b s of (tok2, q, eq, s) \<Rightarrow>
                if tok2 \<noteq> CHR ''a'' then PPanic [''missing file for redirection'']
                else parseredirs n b
                  (if tok = CHR ''<'' then redircmd c q eq O_RDONLY 0
                   else if tok = CHR ''>'' then redircmd c q eq (O_WRONLY OR O_CREATE) 1
                   else if tok = CHR ''+'' then redircmd c q eq (O_WRONLY OR O_CREATE) 1
                   else c) s)))"

text \<open>
  \<open>parseexec\<close> keeps a pointer to the \<open>execcmd\<close> it made, which ends up below the
  redirections: storing an argument through it changes the command at the bottom.
\<close>

fun add_arg :: "nat \<times> nat \<Rightarrow> cmd \<Rightarrow> cmd" where
  "add_arg a (EXEC as) = EXEC (as @ [a])"
| "add_arg a (REDIR c f e m d) = REDIR (add_arg a c) f e m d"
| "add_arg a c = c"

fun parseargs :: "nat \<Rightarrow> string \<Rightarrow> nat \<Rightarrow> cmd \<Rightarrow> nat \<Rightarrow> cmd presult" where
  "parseargs 0 b argc ret s = PFuel"
| "parseargs (Suc n) b argc ret s =
     (case peek b s ''|)&;'' of (found, s) \<Rightarrow>
        if found then PRet ret s
        else (case gettoken b s of (tok, q, eq, s) \<Rightarrow>
          if tok = NUL then PRet ret s
          else if tok \<noteq> CHR ''a'' then PPanic [''syntax'']
          else if Suc argc \<ge> MAXARGS then PPanic [''too many args'']
          else pbind (parseredirs n b (add_arg (q, eq) ret) s) (\<lambda>ret s. parseargs n b (Suc argc) ret s)))"

text \<open>The parsers below call \<open>parseline\<close> again; it is passed as \<open>pl\<close>.\<close>

definition parseblock :: "nat \<Rightarrow> (nat \<Rightarrow> cmd presult) \<Rightarrow> string \<Rightarrow> nat \<Rightarrow> cmd presult" where
  "parseblock n pl b s =
     (case peek b s ''('' of (found, s) \<Rightarrow>
        if \<not> found then PPanic [''parseblock'']
        else (case gettoken b s of (_, _, _, s) \<Rightarrow>
          pbind (pl s) (\<lambda>c s.
            case peek b s '')'' of (found, s) \<Rightarrow>
              if \<not> found then PPanic [''syntax - missing )'']
              else (case gettoken b s of (_, _, _, s) \<Rightarrow> parseredirs n b c s))))"

definition parseexec :: "nat \<Rightarrow> (nat \<Rightarrow> cmd presult) \<Rightarrow> string \<Rightarrow> nat \<Rightarrow> cmd presult" where
  "parseexec n pl b s =
     (case peek b s ''('' of (found, s) \<Rightarrow>
        if found then parseblock n pl b s
        else pbind (parseredirs n b execcmd s) (\<lambda>ret s. parseargs n b 0 ret s))"

fun parsepipe :: "nat \<Rightarrow> (nat \<Rightarrow> cmd presult) \<Rightarrow> string \<Rightarrow> nat \<Rightarrow> cmd presult" where
  "parsepipe 0 pl b s = PFuel"
| "parsepipe (Suc n) pl b s =
     pbind (parseexec n pl b s) (\<lambda>c s.
       case peek b s ''|'' of (found, s) \<Rightarrow>
         if found then
           (case gettoken b s of (_, _, _, s) \<Rightarrow> pbind (parsepipe n pl b s) (\<lambda>right s. PRet (pipecmd c right) s))
         else PRet c s)"

fun parsebacks :: "nat \<Rightarrow> string \<Rightarrow> cmd \<Rightarrow> nat \<Rightarrow> cmd presult" where
  "parsebacks 0 b c s = PFuel"
| "parsebacks (Suc n) b c s =
     (case peek b s ''&'' of (found, s) \<Rightarrow>
        if found then (case gettoken b s of (_, _, _, s) \<Rightarrow> parsebacks n b (backcmd c) s) else PRet c s)"

primrec parseline :: "nat \<Rightarrow> string \<Rightarrow> nat \<Rightarrow> cmd presult" where
  "parseline 0 b = (\<lambda>s. PFuel)"
| "parseline (Suc n) b = (\<lambda>s.
     pbind (parsepipe n (parseline n b) b s) (\<lambda>c s.
     pbind (parsebacks n b c s) (\<lambda>c s.
       case peek b s '';'' of (found, s) \<Rightarrow>
         if found then
           (case gettoken b s of (_, _, _, s) \<Rightarrow> pbind (parseline n b s) (\<lambda>right s. PRet (listcmd c right) s))
         else PRet c s)))"

text \<open>\<open>nulterminate\<close> writes into the line, which has a NUL at its end.\<close>

fun nulterminate :: "cmd \<Rightarrow> string \<Rightarrow> string" where
  "nulterminate (EXEC as) m = fold (\<lambda>(q, eq) m. m[eq := NUL]) as m"
| "nulterminate (REDIR c f ef mode fd) m = (nulterminate c m)[ef := NUL]"
| "nulterminate (PIPE l r) m = nulterminate r (nulterminate l m)"
| "nulterminate (LIST l r) m = nulterminate r (nulterminate l m)"
| "nulterminate (BACK c) m = nulterminate c m"

definition parsecmd :: "string \<Rightarrow> (cmd \<times> string) presult" where
  "parsecmd b =
     pbind (parseline (length b + 3) b 0) (\<lambda>c s.
       case peek b s [] of (_, s) \<Rightarrow>
         if s \<noteq> length b then PPanic [''leftovers: '' @ drop s b, ''syntax'']
         else PRet (c, nulterminate c (b @ [NUL])) s)"

section \<open>Running\<close>

text \<open>The string at an offset of the line.\<close>

definition str_at :: "string \<Rightarrow> nat \<Rightarrow> string" where
  "str_at m q = takeWhile (\<lambda>c. c \<noteq> NUL) (drop q m)"

definition panic :: "string \<Rightarrow> 'a uprog" where
  "panic t = ubind (printf 2 (''%s'' @ NL) [PStr (Some t)]) (\<lambda>_. uexit)"

definition fork1 :: "int uprog" where
  "fork1 = ubind (uans UFork) (\<lambda>pid. if pid = -1 then panic ''fork'' else uret pid)"

text \<open>A successful \<open>exec\<close> has no answer: the program is gone.\<close>

fun runcmd :: "string \<Rightarrow> cmd \<Rightarrow> unit uprog" where
  "runcmd m (EXEC as) =
     (case as of [] \<Rightarrow> uexit
      | a # _ \<Rightarrow>
          ubind (udo (UExec (str_at m (fst a)) (map (\<lambda>a. str_at m (fst a)) as))) (\<lambda>_.
          ubind (printf 2 (''exec %s failed'' @ NL) [PStr (Some (str_at m (fst a)))]) (\<lambda>_. uexit)))"
| "runcmd m (REDIR c file efile mode fd) =
     ubind (udo (UClose fd)) (\<lambda>_.
     ubind (uans (UOpen (str_at m file) mode)) (\<lambda>r.
       if r < 0 then ubind (printf 2 (''open %s failed'' @ NL) [PStr (Some (str_at m file))]) (\<lambda>_. uexit)
       else runcmd m c))"
| "runcmd m (LIST left right) =
     ubind fork1 (\<lambda>pid.
     ubind (uwhen (pid = 0) (runcmd m left)) (\<lambda>_.
     ubind (udo UWait) (\<lambda>_. runcmd m right)))"
| "runcmd m (PIPE left right) =
     ubind (ucall UPipe) (\<lambda>r.
       case r of RPipe k p0 p1 \<Rightarrow>
         if k < 0 then panic ''pipe''
         else
           ubind fork1 (\<lambda>pid.
           ubind (uwhen (pid = 0)
             (ubind (useq [udo (UClose 1), udo (UDup p1), udo (UClose p0), udo (UClose p1)]) (\<lambda>_. runcmd m left))) (\<lambda>_.
           ubind fork1 (\<lambda>pid.
           ubind (uwhen (pid = 0)
             (ubind (useq [udo (UClose 0), udo (UDup p0), udo (UClose p0), udo (UClose p1)]) (\<lambda>_. runcmd m right))) (\<lambda>_.
           ubind (useq [udo (UClose p0), udo (UClose p1), udo UWait, udo UWait]) (\<lambda>_. uexit)))))
       | _ \<Rightarrow> panic ''pipe'')"
| "runcmd m (BACK c) =
     ubind fork1 (\<lambda>pid. ubind (uwhen (pid = 0) (runcmd m c)) (\<lambda>_. uexit))"

definition getcmd :: "nat \<Rightarrow> string option uprog" where
  "getcmd nbuf =
     ubind (printf 2 ''$ '' []) (\<lambda>_.
     ubind (gets nbuf) (\<lambda>b. uret (if deref b = NUL then None else Some (str_at b 0))))"

definition sh_child :: "string \<Rightarrow> unit uprog" where
  "sh_child b =
     (case parsecmd b of
        PRet (c, m) s \<Rightarrow> runcmd m c
      | PPanic ts \<Rightarrow> ubind (useq (map (\<lambda>t. printf 2 (''%s'' @ NL) [PStr (Some t)]) ts)) (\<lambda>_. uexit)
      | PFuel \<Rightarrow> (\<lambda>rs. ([], UWaits)))"

definition sh_console :: "unit \<Rightarrow> (unit + unit) uprog" where
  "sh_console _ =
     ubind (uans (UOpen ''console'' O_RDWR)) (\<lambda>fd.
       if fd < 0 then uret (Inr ())
       else if fd \<ge> 3 then ubind (udo (UClose fd)) (\<lambda>_. uret (Inr ()))
       else uret (Inl ()))"

definition sh_round :: "unit \<Rightarrow> (unit + unit) uprog" where
  "sh_round _ =
     ubind (getcmd 100) (\<lambda>r.
       case r of None \<Rightarrow> uret (Inr ())
       | Some b \<Rightarrow>
           if take 3 b = ''cd '' then
             (let dir = drop 3 (butlast b) in
              ubind (uans (UChdir dir)) (\<lambda>k.
              ubind (uwhen (k < 0) (printf 2 (''cannot cd %s'' @ NL) [PStr (Some dir)])) (\<lambda>_. uret (Inl ()))))
           else
             ubind fork1 (\<lambda>pid.
             ubind (uwhen (pid = 0) (sh_child b)) (\<lambda>_.
             ubind (udo UWait) (\<lambda>_. uret (Inl ())))))"

definition sh_main :: "unit uprog" where
  "sh_main = ubind (urepeat sh_console ()) (\<lambda>_. ubind (urepeat sh_round ()) (\<lambda>_. uexit))"

section \<open>Positions and words\<close>

lemma skip_ws_bounds:
  "s \<le> skip_ws b s" "s \<le> length b \<Longrightarrow> skip_ws b s \<le> length b"
  using length_takeWhile_le [of is_ws "drop s b"] by (auto simp: skip_ws_def)

lemma skip_word_bounds:
  "s \<le> skip_word b s" "s \<le> length b \<Longrightarrow> skip_word b s \<le> length b"
  using length_takeWhile_le [of is_word "drop s b"] by (auto simp: skip_word_def)

lemma skip_stop: "s + length (takeWhile P (drop s b)) < length b \<Longrightarrow> \<not> P (b ! (s + length (takeWhile P (drop s b))))"
  using nth_length_takeWhile [of P "drop s b"] by (simp add: less_diff_conv2 add.commute)

lemma char_at_NUL: "char_at b s \<noteq> NUL \<Longrightarrow> s < length b"
  by (auto simp: char_at_def split: if_splits)

text \<open>A word of the line: a maximal run of word characters from \<open>q\<close> to \<open>e\<close>.\<close>

definition word_at :: "string \<Rightarrow> nat \<times> nat \<Rightarrow> bool" where
  "word_at b a \<longleftrightarrow> (case a of (q, e) \<Rightarrow> q < e \<and> e \<le> length b \<and> (\<forall>i. q \<le> i \<and> i < e \<longrightarrow> is_word (b ! i)) \<and>
     (e < length b \<longrightarrow> \<not> is_word (b ! e)) \<and> (0 < q \<longrightarrow> \<not> is_word (b ! (q - 1))))"

text \<open>A position between two tokens: no word continues across it.\<close>

definition token_gap :: "string \<Rightarrow> nat \<Rightarrow> bool" where
  "token_gap b s \<longleftrightarrow> s \<le> length b \<and> (s = 0 \<or> s = length b \<or> \<not> is_word (b ! (s - 1)) \<or> \<not> is_word (b ! s))"

lemma gap_le: "token_gap b s \<Longrightarrow> s \<le> length b"
  by (simp add: token_gap_def)

lemma gap_0 [simp]: "token_gap b 0" and gap_length [simp]: "token_gap b (length b)"
  by (simp_all add: token_gap_def)

lemma gap_less: "token_gap b t \<Longrightarrow> s < t \<Longrightarrow> length b - s < Suc n \<Longrightarrow> length b - t < n"
  by (auto simp: token_gap_def)

lemma skip_ws_before: "s < skip_ws b s \<Longrightarrow> s \<le> length b \<Longrightarrow> is_ws (b ! (skip_ws b s - 1))"
proof -
  let ?w = "takeWhile is_ws (drop s b)"
  assume "s < skip_ws b s" "s \<le> length b"
  then have n: "length ?w - 1 < length ?w" by (simp add: skip_ws_def)
  then have "is_ws (?w ! (length ?w - 1))" by (meson nth_mem set_takeWhileD)
  moreover have "?w ! (length ?w - 1) = b ! (skip_ws b s - 1)"
    using n takeWhile_nth [OF n] \<open>s \<le> length b\<close> by (simp add: skip_ws_def)
  ultimately show ?thesis by simp
qed

lemma word_not_ws: "is_word c \<Longrightarrow> \<not> is_ws c"
  by (simp add: is_word_def is_ws_def)

lemma gap_skip_ws:
  assumes "token_gap b s"
  shows "token_gap b (skip_ws b s)" and "skip_ws b s < length b \<Longrightarrow> is_word (b ! skip_ws b s) \<Longrightarrow> 0 < skip_ws b s \<Longrightarrow>
     \<not> is_word (b ! (skip_ws b s - 1))"
proof -
  have l: "s \<le> skip_ws b s" "skip_ws b s \<le> length b" using skip_ws_bounds gap_le [OF assms] by auto
  have w: "\<not> is_word (b ! (skip_ws b s - 1))" if "s \<noteq> skip_ws b s"
    using skip_ws_before [of s b] that l gap_le [OF assms] word_not_ws by force
  show "token_gap b (skip_ws b s)" using w l assms by (cases "s = skip_ws b s") (auto simp: token_gap_def)
  show "\<not> is_word (b ! (skip_ws b s - 1))" if "skip_ws b s < length b" "is_word (b ! skip_ws b s)" "0 < skip_ws b s"
    using that w assms by (cases "s = skip_ws b s") (auto simp: token_gap_def)
qed

lemma set_symbols: "ustrchr symbols c = None \<longleftrightarrow> c \<notin> set ''|();&<>''"
  by (auto simp: ustrchr_None symbols_def)

lemma skip_word_at:
  assumes "s < length b" and "is_word (b ! s)" and "0 < s \<longrightarrow> \<not> is_word (b ! (s - 1))"
  shows "word_at b (s, skip_word b s)"
proof -
  let ?n = "length (takeWhile is_word (drop s b))"
  have "takeWhile is_word (drop s b) \<noteq> []" using assms by (cases "drop s b") (auto simp: drop_eq_Nil2 nth_via_drop)
  moreover have "is_word (b ! i)" if "s \<le> i" "i < s + ?n" for i
  proof -
    have n: "i - s < ?n" using that by simp
    have "takeWhile is_word (drop s b) ! (i - s) = b ! i"
      using takeWhile_nth [OF n] that n length_takeWhile_le [of is_word "drop s b"] by simp
    then show ?thesis using nth_mem [OF n] by (metis set_takeWhileD)
  qed
  ultimately show ?thesis
    using skip_word_bounds(2) [of s b] skip_stop [of s is_word b] assms(1,3) by (auto simp: word_at_def skip_word_def)
qed

text \<open>The three kinds of token, at the first character that is not white space.\<close>

lemma gettoken_cases:
  assumes g: "gettoken b s = (tok, q, e, s')" and t: "t = skip_ws b s"
  obtains (nul) "tok = NUL" "e = t"
  | (sym) "tok \<noteq> CHR ''a''" "tok \<noteq> NUL" "t < length b" "e = Suc t \<or> e = Suc (Suc t) \<and> Suc t < length b"
      "\<not> is_word (b ! (e - 1))"
  | (word) "tok = CHR ''a''" "t < length b" "ustrchr symbols (b ! t) = None" "e = skip_word b t" "q = t"
proof -
  define c where "c = char_at b t"
  note g' = g [unfolded gettoken_def Let_def t [symmetric] c_def [symmetric]]
  have l: "t < length b" if "c \<noteq> NUL" using that unfolding c_def by (rule char_at_NUL)
  consider "c = NUL" | "c \<noteq> NUL" "c \<in> set ''|();&<''"
    | "c \<noteq> NUL" "c \<notin> set ''|();&<''" "c = CHR ''>''" | "c \<noteq> NUL" "c \<notin> set ''|();&<''" "c \<noteq> CHR ''>''" by blast
  then show ?thesis
  proof cases
    case 1
    with g' have "tok = NUL" "e = t" by simp_all
    then show ?thesis by (rule nul)
  next
    case 2
    with g' have e: "tok = c" "e = Suc t" by (simp_all only: if_True if_False prod.case prod.inject) simp_all
    have "c \<noteq> CHR ''a''" using 2(2) by auto
    moreover have "\<not> is_word (b ! t)"
      using 2(1,2) l [OF 2(1)] unfolding is_word_def set_symbols c_def char_at_def by auto
    ultimately show ?thesis using e 2(1) l by (intro sym) simp_all
  next
    case 3
    note gg = g' [unfolded if_not_P [OF 3(1)] if_not_P [OF 3(2)] if_P [OF 3(3)]]
    show ?thesis
    proof (cases "char_at b (Suc t) = CHR ''>''")
      case True
      have "Suc t < length b" by (rule char_at_NUL) (simp add: True NUL_def)
      moreover from gg True have "tok = CHR ''+''" "e = Suc (Suc t)" by simp_all
      moreover have "\<not> is_word (b ! Suc t)"
        using True calculation(1) unfolding is_word_def set_symbols char_at_def by auto
      ultimately show ?thesis using l [OF 3(1)] by (intro sym) (simp_all add: NUL_def)
    next
      case False
      with gg 3(3) have "tok = CHR ''>''" "e = Suc t" by simp_all
      moreover have "\<not> is_word (b ! t)"
        using 3(3) l [OF 3(1)] unfolding is_word_def set_symbols c_def char_at_def by auto
      ultimately show ?thesis using l [OF 3(1)] by (intro sym) (simp_all add: NUL_def)
    qed
  next
    case 4
    then have "(CHR ''a'', t, skip_word b t, skip_ws b (skip_word b t)) = (tok, q, e, s')" using g' by auto
    then have e: "tok = CHR ''a''" "e = skip_word b t" "q = t" by blast+
    have "ustrchr symbols c = None" unfolding set_symbols using 4(2,3) by simp
    then show ?thesis using e l [OF 4(1)] by (intro word) (simp_all add: c_def char_at_def)
  qed
qed

lemma gettoken_facts:
  assumes "gettoken b s = (tok, q, e, s')" and "token_gap b s"
  shows "s \<le> s'" and "token_gap b s'" and "tok \<noteq> NUL \<Longrightarrow> s < s'" and "tok = CHR ''a'' \<Longrightarrow> word_at b (q, e)"
proof -
  define t where "t = skip_ws b s"
  have t: "s \<le> t" "t \<le> length b" "token_gap b t"
    using skip_ws_bounds gap_le [OF assms(2)] gap_skip_ws(1) [OF assms(2)] by (auto simp: t_def)
  have nws: "\<not> is_ws (b ! t)" if "t < length b" using skip_stop [of s is_ws b] that by (simp add: t_def skip_ws_def)
  have "(tok = NUL \<and> e = t \<or> t < e) \<and> token_gap b e \<and> (tok = CHR ''a'' \<longrightarrow> word_at b (q, e))"
  proof (cases rule: gettoken_cases [OF assms(1) t_def, case_names nul sym word])
    case word
    then have "is_word (b ! t)" using nws by (simp add: is_word_def is_ws_def)
    moreover from this have "0 < t \<longrightarrow> \<not> is_word (b ! (t - 1))" using gap_skip_ws(2) [OF assms(2)] word(2) by (simp add: t_def)
    ultimately have "word_at b (t, e)" using skip_word_at word(2,4) by simp
    then show ?thesis using word(5) by (auto simp: word_at_def token_gap_def)
  next
    case sym
    then show ?thesis by (auto simp: token_gap_def)
  qed (use t in \<open>auto simp: NUL_def\<close>)
  moreover have "s' = skip_ws b e" using assms(1) by (simp add: gettoken_def Let_def split: prod.splits)
  ultimately show "s \<le> s'" "token_gap b s'" "tok \<noteq> NUL \<Longrightarrow> s < s'" "tok = CHR ''a'' \<Longrightarrow> word_at b (q, e)"
    using t skip_ws_bounds [of e b] gap_skip_ws(1) [of b e] by auto
qed

lemma peek_facts:
  assumes "peek b s toks = (found, s')" and "token_gap b s"
  shows "s \<le> s'" and "token_gap b s'" and "found \<Longrightarrow> s' < length b \<and> b ! s' \<in> set toks \<and> \<not> is_ws (b ! s') \<and> skip_ws b s' = s'"
proof -
  have e: "s' = skip_ws b s" using assms(1) by (simp add: peek_def Let_def)
  show "s \<le> s'" "token_gap b s'" using e skip_ws_bounds gap_skip_ws(1) assms(2) by auto
  assume found
  then have f: "char_at b s' \<noteq> NUL" "ustrchr toks (char_at b s') \<noteq> None" using assms(1) e by (auto simp: peek_def Let_def)
  then have l: "s' < length b" by (blast intro: char_at_NUL)
  have n: "\<not> is_ws (b ! s')" using skip_stop [of s is_ws b] l by (simp add: e skip_ws_def)
  have "skip_ws b s' = s'" using l n by (cases "drop s' b") (auto simp: skip_ws_def drop_eq_Nil2 nth_via_drop)
  then show "s' < length b \<and> b ! s' \<in> set toks \<and> \<not> is_ws (b ! s') \<and> skip_ws b s' = s'"
    using l n f(2) by (simp add: ustrchr_None char_at_def)
qed

lemma found_token:
  assumes "peek b s toks = (True, s')" and "token_gap b s" and "gettoken b s' = (tok, q, e, s'')"
  shows "s' < s''" and "token_gap b s''"
proof -
  have f: "s' < length b" "skip_ws b s' = s'" "char_at b s' \<noteq> NUL"
    using peek_facts [OF assms(1,2)] assms(1) by (auto simp: peek_def Let_def)
  have "tok \<noteq> NUL"
    using assms(3) f(3) unfolding gettoken_def Let_def f(2) by (auto simp del: list.set split: prod.splits) (simp_all add: NUL_def split: if_splits)
  then show "s' < s''" "token_gap b s''" using gettoken_facts [OF assms(3) peek_facts(2) [OF assms(1,2)]] by auto
qed


section \<open>What the parser builds\<close>

fun wf_cmd :: "string \<Rightarrow> cmd \<Rightarrow> bool" where
  "wf_cmd b (EXEC as) \<longleftrightarrow> length as < MAXARGS \<and> (\<forall>a \<in> set as. word_at b a)"
| "wf_cmd b (REDIR c f e mode fd) \<longleftrightarrow> wf_cmd b c \<and> word_at b (f, e)"
| "wf_cmd b (PIPE l r) \<longleftrightarrow> wf_cmd b l \<and> wf_cmd b r"
| "wf_cmd b (LIST l r) \<longleftrightarrow> wf_cmd b l \<and> wf_cmd b r"
| "wf_cmd b (BACK c) \<longleftrightarrow> wf_cmd b c"

text \<open>The command that \<open>parseexec\<close> is filling has \<open>n\<close> arguments so far.\<close>

fun leaf :: "cmd \<Rightarrow> nat \<Rightarrow> bool" where
  "leaf (EXEC as) n \<longleftrightarrow> length as = n"
| "leaf (REDIR c f e mode fd) n \<longleftrightarrow> leaf c n"
| "leaf _ n \<longleftrightarrow> False"

lemma add_arg_wf:
  "leaf c n \<Longrightarrow> wf_cmd b c \<Longrightarrow> word_at b a \<Longrightarrow> Suc n < MAXARGS \<Longrightarrow> leaf (add_arg a c) (Suc n) \<and> wf_cmd b (add_arg a c)"
  by (induction a c rule: add_arg.induct) auto

text \<open>A parser that has enough fuel, moves forward and builds what \<open>P\<close> allows.\<close>

definition parses :: "string \<Rightarrow> nat \<Rightarrow> (cmd \<Rightarrow> bool) \<Rightarrow> cmd presult \<Rightarrow> bool" where
  "parses b s P r = (case r of PFuel \<Rightarrow> False | PPanic t \<Rightarrow> True | PRet c s' \<Rightarrow> s \<le> s' \<and> token_gap b s' \<and> P c)"

lemma parses_ret: "s \<le> s' \<Longrightarrow> token_gap b s' \<Longrightarrow> P c \<Longrightarrow> parses b s P (PRet c s')"
  by (simp add: parses_def)

lemma parses_panic [simp]: "parses b s P (PPanic t)"
  by (simp add: parses_def)

lemma parses_weaken: "parses b s' P r \<Longrightarrow> s \<le> s' \<Longrightarrow> (\<And>c. P c \<Longrightarrow> Q c) \<Longrightarrow> parses b s Q r"
  by (auto simp: parses_def split: presult.splits)

lemma parses_bind:
  assumes "parses b s P r" and "\<And>c s'. P c \<Longrightarrow> s \<le> s' \<Longrightarrow> token_gap b s' \<Longrightarrow> parses b s' Q (f c s')"
  shows "parses b s Q (pbind r f)"
proof (cases r)
  case (PRet c s')
  then have l: "s \<le> s'" "token_gap b s'" "P c" using assms(1) by (simp_all add: parses_def)
  have "parses b s Q (f c s')" by (rule parses_weaken [OF assms(2)]) (rule l | assumption)+
  then show ?thesis using PRet by simp
qed (use assms(1) in \<open>simp_all add: parses_def\<close>)

lemma parseredirs_ok:
  assumes "length b - s < n" and "token_gap b s" and "P c"
    and "\<And>c q e mode fd. P c \<Longrightarrow> word_at b (q, e) \<Longrightarrow> P (REDIR c q e mode fd)"
  shows "parses b s P (parseredirs n b c s)"
  using assms(1-3)
proof (induction n arbitrary: c s)
  case (Suc n)
  obtain found s1 where p: "peek b s ''<>'' = (found, s1)" by (cases "peek b s ''<>''")
  note pf = peek_facts [OF p Suc.prems(2)]
  show ?case
  proof (cases found)
    case False
    then show ?thesis using p pf(1,2) Suc.prems(3) by (simp add: parses_ret)
  next
    case True
    obtain tok q1 e1 s2 where g1: "gettoken b s1 = (tok, q1, e1, s2)" by (cases "gettoken b s1")
    obtain tok2 q e s3 where g2: "gettoken b s2 = (tok2, q, e, s3)" by (cases "gettoken b s2")
    have a: "s1 < s2" "token_gap b s2" using found_token [OF _ Suc.prems(2) g1] p True by auto
    note b2 = gettoken_facts [OF g2 a(2)]
    show ?thesis
    proof (cases "tok2 = CHR ''a''")
      case a2: True
      let ?c = "if tok = CHR ''<'' then redircmd c q e O_RDONLY 0
                   else if tok = CHR ''>'' then redircmd c q e (O_WRONLY OR O_CREATE) 1
                   else if tok = CHR ''+'' then redircmd c q e (O_WRONLY OR O_CREATE) 1 else c"
      have "P ?c" using assms(4) [OF Suc.prems(3) b2(4) [OF a2]] Suc.prems(3) by (simp add: redircmd_def)
      moreover have "length b - s3 < n" using a(1) b2(1) gap_le [OF b2(2)] pf(1) Suc.prems(1) by linarith
      ultimately have "parses b s3 P (parseredirs n b ?c s3)" by (intro Suc.IH b2(2))
      then have "parses b s P (parseredirs n b ?c s3)" by (rule parses_weaken) (use a(1) b2(1) pf(1) in simp_all)
      then show ?thesis using p True g1 g2 a2 by simp
    qed (use p True g1 g2 in simp)
  qed
qed simp

lemma parseargs_ok:
  assumes "length b - s < n" and "token_gap b s" and "leaf c k" and "wf_cmd b c"
  shows "parses b s (wf_cmd b) (parseargs n b k c s)"
  using assms
proof (induction n arbitrary: c s k)
  case (Suc n)
  obtain found s1 where p: "peek b s ''|)&;'' = (found, s1)" by (cases "peek b s ''|)&;''")
  note pf = peek_facts [OF p Suc.prems(2)]
  obtain tok q e s2 where g: "gettoken b s1 = (tok, q, e, s2)" by (cases "gettoken b s1")
  note gf = gettoken_facts [OF g pf(2)]
  show ?case
  proof (cases "\<not> found \<and> tok = CHR ''a'' \<and> Suc k < MAXARGS")
    case True
    have lt: "s1 < s2" using gf(3) True by (simp add: NUL_def)
    let ?P = "\<lambda>c. leaf c (Suc k) \<and> wf_cmd b c"
    have "parses b s2 ?P (parseredirs n b (add_arg (q, e) c) s2)"
      using add_arg_wf [OF Suc.prems(3,4) gf(4)] True lt gf(2) gap_le [OF gf(2)] pf(1) Suc.prems(1) by (intro parseredirs_ok) auto
    then have "parses b s2 (wf_cmd b) (pbind (parseredirs n b (add_arg (q, e) c) s2) (parseargs n b (Suc k)))"
      using lt gf(2) gap_le [OF gf(2)] pf(1) Suc.prems(1) by (elim parses_bind) (auto intro!: Suc.IH)
    then have "parses b s (wf_cmd b) (pbind (parseredirs n b (add_arg (q, e) c) s2) (parseargs n b (Suc k)))"
      by (rule parses_weaken) (use lt pf(1) in simp_all)
    then show ?thesis using p g True by (simp add: NUL_def)
  next
    case False
    then show ?thesis using p g pf(1,2) gf(1,2) Suc.prems(4) by (auto intro!: parses_ret)
  qed
qed simp

lemma parses_token:
  assumes "peek b s toks = (found, s1)" and "token_gap b s"
    and "\<not> found \<Longrightarrow> s \<le> s1 \<Longrightarrow> token_gap b s1 \<Longrightarrow> parses b s P m"
    and "\<And>s2. found \<Longrightarrow> s < s2 \<Longrightarrow> token_gap b s2 \<Longrightarrow> parses b s2 P (f s2)"
  shows "parses b s P (if found then case gettoken b s1 of (_, _, _, s) \<Rightarrow> f s else m)"
proof (cases found)
  case True
  obtain tok q e s2 where g: "gettoken b s1 = (tok, q, e, s2)" by (cases "gettoken b s1")
  have l: "s1 < s2" "token_gap b s2" "s \<le> s1"
    using found_token [OF assms(1) [unfolded eqTrueI [OF True]] assms(2) g] peek_facts(1) [OF assms(1,2)] by auto
  have "parses b s P (f s2)" by (rule parses_weaken [OF assms(4)]) (use l True in auto)
  then show ?thesis using True g by simp
next
  case False
  then show ?thesis using assms(3) peek_facts [OF assms(1,2)] by simp
qed

lemma parseblock_ok:
  assumes "length b - s < n" and "token_gap b s"
    and pl: "\<And>s'. s < s' \<Longrightarrow> token_gap b s' \<Longrightarrow> parses b s' (wf_cmd b) (pl s')"
  shows "parses b s (wf_cmd b) (parseblock n pl b s)"
proof -
  have close: "parses b s' (wf_cmd b) (case peek b s' '')'' of (found, s) \<Rightarrow>
      if \<not> found then PPanic [''syntax - missing )'']
      else (case gettoken b s of (_, _, _, s) \<Rightarrow> parseredirs n b c s))" if "s \<le> s'" "token_gap b s'" "wf_cmd b c" for c s'
  proof -
    obtain found s1 where p: "peek b s' '')'' = (found, s1)" by (cases "peek b s' '')''")
    have "parses b s' (wf_cmd b) (if found then case gettoken b s1 of (_, _, _, s) \<Rightarrow> parseredirs n b c s
        else PPanic [''syntax - missing )''])"
      using that assms(1) by (intro parses_token [OF p]) (auto intro!: parseredirs_ok)
    then show ?thesis using p by (simp split: if_splits)
  qed
  obtain found s1 where p: "peek b s ''('' = (found, s1)" by (cases "peek b s ''(''")
  have "parses b s (wf_cmd b) (if found then case gettoken b s1 of (_, _, _, s) \<Rightarrow>
        pbind (pl s) (\<lambda>c s. case peek b s '')'' of (found, s) \<Rightarrow>
          if \<not> found then PPanic [''syntax - missing )''] else (case gettoken b s of (_, _, _, s) \<Rightarrow> parseredirs n b c s))
        else PPanic [''parseblock''])"
    by (rule parses_token [OF p assms(2)]) (auto intro!: parses_bind [OF pl] close)
  then show ?thesis using p by (simp add: parseblock_def split: if_splits)
qed

lemma parseexec_ok:
  assumes "length b - s < n" and "token_gap b s"
    and pl: "\<And>s'. s < s' \<Longrightarrow> token_gap b s' \<Longrightarrow> parses b s' (wf_cmd b) (pl s')"
  shows "parses b s (wf_cmd b) (parseexec n pl b s)"
proof -
  obtain found s1 where p: "peek b s ''('' = (found, s1)" by (cases "peek b s ''(''")
  have l: "s \<le> s1" "token_gap b s1" using peek_facts [OF p assms(2)] by auto
  have n: "length b - s1 < n" using l(1) assms(1) by linarith
  let ?P = "\<lambda>c. leaf c 0 \<and> wf_cmd b c"
  have "parses b s1 ?P (parseredirs n b execcmd s1)"
    using n l(2) by (intro parseredirs_ok) (auto simp: execcmd_def MAXARGS_def)
  then have "parses b s1 (wf_cmd b) (pbind (parseredirs n b execcmd s1) (parseargs n b 0))"
    by (rule parses_bind) (rule parseargs_ok, use n in auto)
  moreover have "parses b s1 (wf_cmd b) (parseblock n pl b s1)"
    using n l by (intro parseblock_ok pl) auto
  ultimately show ?thesis using p l(1) by (auto simp: parseexec_def elim!: parses_weaken)
qed

lemma parsepipe_ok:
  assumes "length b - s < n" and "token_gap b s"
    and pl: "\<And>s'. s < s' \<Longrightarrow> token_gap b s' \<Longrightarrow> parses b s' (wf_cmd b) (pl s')"
  shows "parses b s (wf_cmd b) (parsepipe (Suc n) pl b s)"
  using assms
proof (induction n arbitrary: s)
  case (Suc n)
  have rest: "parses b s' (wf_cmd b) (case peek b s' ''|'' of (found, s) \<Rightarrow>
         if found then (case gettoken b s of (_, _, _, s) \<Rightarrow> pbind (parsepipe (Suc n) pl b s) (\<lambda>right s. PRet (pipecmd c right) s))
         else PRet c s)" if c: "wf_cmd b c" "s \<le> s'" "token_gap b s'" for c s'
  proof -
    obtain found s1 where p: "peek b s' ''|'' = (found, s1)" by (cases "peek b s' ''|''")
    have "parses b s2 (wf_cmd b) (pbind (parsepipe (Suc n) pl b s2) (\<lambda>right s. PRet (pipecmd c right) s))"
      if "s' < s2" "token_gap b s2" for s2
    proof (rule parses_bind)
      show "parses b s2 (wf_cmd b) (parsepipe (Suc n) pl b s2)" using Suc.prems c that gap_le [OF that(2)] by (intro Suc.IH) auto
    qed (use c(1) in \<open>simp add: parses_ret pipecmd_def\<close>)
    then show ?thesis
      unfolding p prod.case using c by (intro parses_token [OF p]) (auto intro!: parses_ret)
  qed
  have "parses b s (wf_cmd b) (parseexec (Suc n) pl b s)" using Suc.prems by (intro parseexec_ok) auto
  then show ?case unfolding parsepipe.simps(2) [of "Suc n"] by (rule parses_bind) (rule rest)
qed simp

lemma parsebacks_ok:
  assumes "length b - s < n" and "token_gap b s" and "wf_cmd b c"
  shows "parses b s (wf_cmd b) (parsebacks n b c s)"
  using assms
proof (induction n arbitrary: s c)
  case (Suc n)
  obtain found s1 where p: "peek b s ''&'' = (found, s1)" by (cases "peek b s ''&''")
  show ?case unfolding parsebacks.simps p prod.case
    using Suc.prems by (intro parses_token [OF p]) (auto intro!: parses_ret Suc.IH intro: gap_less simp: backcmd_def)
qed simp

lemma parseline_ok:
  assumes "length b - s + 2 < n" and "token_gap b s"
  shows "parses b s (wf_cmd b) (parseline n b s)"
  using assms
proof (induction n arbitrary: s)
  case (Suc n)
  obtain k where k: "n = Suc k" "length b - s < k" using Suc.prems(1) by (cases n) auto
  have again: "parses b s' (wf_cmd b) (parseline n b s')" if "s < s'" "token_gap b s'" for s'
    using that gap_le [OF that(2)] Suc.prems(1) by (intro Suc.IH) auto
  have rest: "parses b s' (wf_cmd b) (case peek b s' '';'' of (found, s) \<Rightarrow>
         if found then (case gettoken b s of (_, _, _, s) \<Rightarrow> pbind (parseline n b s) (\<lambda>right s. PRet (listcmd c right) s))
         else PRet c s)" if c: "wf_cmd b c" "s \<le> s'" "token_gap b s'" for c s'
  proof -
    obtain found s1 where p: "peek b s' '';'' = (found, s1)" by (cases "peek b s' '';''")
    have "parses b s2 (wf_cmd b) (pbind (parseline n b s2) (\<lambda>right s. PRet (listcmd c right) s))"
      if "s' < s2" "token_gap b s2" for s2
      by (rule parses_bind, rule again) (use c that in \<open>simp_all add: parses_ret listcmd_def\<close>)
    then show ?thesis
      unfolding p prod.case using c by (intro parses_token [OF p]) (auto intro!: parses_ret)
  qed
  have "parses b s (wf_cmd b) (parsepipe n (parseline n b) b s)"
    unfolding k(1) using k(2) Suc.prems(2) again [unfolded k(1)] by (intro parsepipe_ok) auto
  then show ?case unfolding parseline.simps
  proof (rule parses_bind)
    fix c s' assume c: "wf_cmd b c" "s \<le> s'" "token_gap b s'"
    have "parses b s' (wf_cmd b) (parsebacks n b c s')" using c k by (intro parsebacks_ok) auto
    then show "parses b s' (wf_cmd b) (pbind (parsebacks n b c s') (\<lambda>c s. case peek b s '';'' of (found, s) \<Rightarrow>
         if found then (case gettoken b s of (_, _, _, s) \<Rightarrow> pbind (parseline n b s) (\<lambda>right s. PRet (listcmd c right) s))
         else PRet c s))"
      by (rule parses_bind) (rule rest, use c(2) in auto)
  qed
qed simp

section \<open>Cutting the words\<close>

fun ends :: "cmd \<Rightarrow> nat set" where
  "ends (EXEC as) = snd ` set as"
| "ends (REDIR c f e mode fd) = insert e (ends c)"
| "ends (PIPE l r) = ends l \<union> ends r"
| "ends (LIST l r) = ends l \<union> ends r"
| "ends (BACK c) = ends c"

fun words_of :: "cmd \<Rightarrow> (nat \<times> nat) set" where
  "words_of (EXEC as) = set as"
| "words_of (REDIR c f e mode fd) = insert (f, e) (words_of c)"
| "words_of (PIPE l r) = words_of l \<union> words_of r"
| "words_of (LIST l r) = words_of l \<union> words_of r"
| "words_of (BACK c) = words_of c"

lemma fold_NUL:
  "length (fold (\<lambda>(q, e) m. m[e := NUL]) as m) = length m"
  "i < length m \<Longrightarrow> fold (\<lambda>(q, e) m. m[e := NUL]) as m ! i = (if i \<in> snd ` set as then NUL else m ! i)"
  by (induction as arbitrary: m) (auto simp: nth_list_update, force)

lemma nulterminate_nth:
  "length (nulterminate c m) = length m"
  "i < length m \<Longrightarrow> nulterminate c m ! i = (if i \<in> ends c then NUL else m ! i)"
  by (induction c m rule: nulterminate.induct) (auto simp: fold_NUL nth_list_update, metis nth_list_update_eq nth_list_update_neq)

lemma ends_words: "ends c = snd ` words_of c"
  by (induction c) (auto simp: image_Un)

lemma wf_words: "wf_cmd b c \<Longrightarrow> a \<in> words_of c \<Longrightarrow> word_at b a"
  by (induction c) auto

lemma nulterminate_word:
  assumes "wf_cmd b c" and "NUL \<notin> set b" and "(q, e) \<in> words_of c"
  shows "str_at (nulterminate c (b @ [NUL])) q = take (e - q) (drop q b)"
proof -
  let ?m = "nulterminate c (b @ [NUL])"
  have w: "word_at b (q, e)" using wf_words [OF assms(1,3)] .
  have l: "q < e" "e \<le> length b" using w by (auto simp: word_at_def)
  have in_word: "?m ! i = b ! i" "b ! i \<noteq> NUL" if "q \<le> i" "i < e" for i
  proof -
    have "is_word (b ! i)" using w that by (auto simp: word_at_def)
    then have "i \<notin> ends c"
      using wf_words [OF assms(1)] that l(2) by (fastforce simp: ends_words word_at_def)
    then show "?m ! i = b ! i" using that l(2) by (simp add: nulterminate_nth nth_append)
    show "b ! i \<noteq> NUL" using assms(2) that l(2) nth_mem [of i b] by force
  qed
  have "e \<in> ends c" using assms(3) by (force simp: ends_words)
  then have stop: "?m ! e = NUL" using l(2) by (simp add: nulterminate_nth)
  have "takeWhile (\<lambda>x. x \<noteq> NUL) (drop q ?m) = take (e - q) (drop q ?m)"
    using in_word stop l by (intro takeWhile_eq_take_P_nth) (simp_all add: nulterminate_nth(1))
  also have "\<dots> = take (e - q) (drop q b)"
    using in_word(1) l by (intro nth_equalityI) (simp_all add: nulterminate_nth(1))
  finally show ?thesis by (simp add: str_at_def)
qed

section \<open>A simple command\<close>

text \<open>The words of a line: the runs of characters that are not white space.\<close>

function words :: "string \<Rightarrow> string list" where
  "words b =
     (case dropWhile is_ws b of
        [] \<Rightarrow> []
      | c # cs \<Rightarrow> (c # takeWhile (\<lambda>d. \<not> is_ws d) cs) # words (dropWhile (\<lambda>d. \<not> is_ws d) cs))"
  by pat_completeness auto
termination
proof (relation "measure length")
  fix b c cs
  assume "dropWhile is_ws b = c # cs"
  then have "length (c # cs) \<le> length b" by (metis length_dropWhile_le)
  moreover have "length (dropWhile (\<lambda>d. \<not> is_ws d) cs) \<le> length cs" by (rule length_dropWhile_le)
  ultimately show "(dropWhile (\<lambda>d. \<not> is_ws d) cs, b) \<in> measure length" by simp
qed simp

declare words.simps [simp del]

text \<open>A line without the characters the shell treats specially.\<close>

definition plain_line :: "string \<Rightarrow> bool" where
  "plain_line b \<longleftrightarrow> (\<forall>c \<in> set b. c \<noteq> NUL \<and> ustrchr symbols c = None)"

lemma plain_word: "plain_line b \<Longrightarrow> c \<in> set b \<Longrightarrow> is_word c \<longleftrightarrow> \<not> is_ws c"
  by (simp add: plain_line_def is_word_def is_ws_def)

lemma word_no_symbol:
  assumes "ustrchr symbols c = None"
  shows "set toks \<subseteq> set symbols \<Longrightarrow> ustrchr toks c = None" and "c \<notin> set ''|();&<''" and "c \<noteq> CHR ''>''"
proof -
  have n: "c \<notin> set symbols" using assms by (simp add: ustrchr_None)
  then show "set toks \<subseteq> set symbols \<Longrightarrow> ustrchr toks c = None" by (auto simp: ustrchr_None)
  show "c \<notin> set ''|();&<''" "c \<noteq> CHR ''>''" using n by (auto simp: symbols_def)
qed

lemma drop_skip_ws: "drop (skip_ws b s) b = dropWhile is_ws (drop s b)"
  by (simp add: skip_ws_def dropWhile_eq_drop add.commute)

lemma drop_skip_word: "drop (skip_word b s) b = dropWhile is_word (drop s b)"
  by (simp add: skip_word_def dropWhile_eq_drop add.commute)

lemma skip_ws_idem: "skip_ws b (skip_ws b s) = skip_ws b s"
proof -
  have "takeWhile is_ws (drop (skip_ws b s) b) = []"
    unfolding drop_skip_ws by (metis hd_dropWhile takeWhile_eq_Nil_iff)
  then show ?thesis by (simp add: skip_ws_def [of b "skip_ws b s"])
qed

lemma peek_end: "peek b (length b) toks = (False, length b)"
  by (simp add: peek_def skip_ws_def char_at_def)

lemma peek_plain:
  assumes "plain_line b" and "set toks \<subseteq> set symbols"
  shows "peek b s toks = (False, skip_ws b s)"
proof (cases "skip_ws b s < length b")
  case True
  then have "ustrchr symbols (b ! skip_ws b s) = None" using assms(1) by (simp add: plain_line_def)
  from word_no_symbol(1) [OF this assms(2)] show ?thesis using True by (simp add: peek_def char_at_def)
qed (simp add: peek_def char_at_def)

text \<open>The next token of a plain line is its next word.\<close>

lemma gettoken_plain:
  assumes b: "plain_line b" and s: "s \<le> length b" and t: "t = skip_ws b s"
  shows "if t = length b then gettoken b t = (NUL, t, t, t) \<and> words (drop s b) = []
     else t < length b \<and> gettoken b t = (CHR ''a'', t, skip_word b t, skip_ws b (skip_word b t)) \<and>
       t < skip_word b t \<and> skip_word b t \<le> length b \<and>
       words (drop s b) = take (skip_word b t - t) (drop t b) # words (drop (skip_word b t) b)"
proof (cases "t = length b")
  case True
  have "dropWhile is_ws (drop s b) = []" using True t drop_skip_ws [of b s] by simp
  then have "words (drop s b) = []" by (subst words.simps) (simp only: list.case)
  then show ?thesis using True by (simp add: gettoken_def Let_def skip_ws_def char_at_def)
next
  case False
  have l: "t < length b" using False skip_ws_bounds(2) [OF s] t by simp
  obtain c cs where c: "drop t b = c # cs" using l by (cases "drop t b") auto
  then have dw: "dropWhile is_ws (drop s b) = c # cs" using drop_skip_ws t by metis
  have cb: "b ! t = c" "c \<in> set b" "set cs \<subseteq> set b" using c set_drop_subset [of t b] by (auto simp: nth_via_drop)
  have nw: "\<not> is_ws c" using dw by (auto simp: dropWhile_eq_Cons_conv)
  have w: "is_word c" using nw plain_word [OF b cb(2)] by simp
  have same: "takeWhile is_word cs = takeWhile (\<lambda>d. \<not> is_ws d) cs" "dropWhile is_word cs = dropWhile (\<lambda>d. \<not> is_ws d) cs"
    using cb(3) plain_word [OF b] by (auto intro!: takeWhile_cong dropWhile_cong)
  have e: "skip_word b t = Suc (t + length (takeWhile is_word cs))" using c w by (simp add: skip_word_def)
  have tk: "take (skip_word b t - t) (drop t b) = c # takeWhile is_word cs"
    unfolding e c by (simp add: takeWhile_eq_take [symmetric])
  have dr: "drop (skip_word b t) b = dropWhile is_word cs" unfolding drop_skip_word c using w by simp
  have ws: "words (drop s b) = take (skip_word b t - t) (drop t b) # words (drop (skip_word b t) b)"
    unfolding tk dr by (subst words.simps) (simp add: dw same)
  have nz: "char_at b t = c" "c \<noteq> NUL" "ustrchr symbols c = None"
    using b cb l by (auto simp: plain_line_def char_at_def)
  have "gettoken b t = (CHR ''a'', t, skip_word b t, skip_ws b (skip_word b t))"
    unfolding gettoken_def Let_def t skip_ws_idem unfolding t [symmetric] nz(1) if_not_P [OF nz(2)]
      if_not_P [OF word_no_symbol(2) [OF nz(3)]] if_not_P [OF word_no_symbol(3) [OF nz(3)]] prod.case ..
  then show ?thesis using False l e ws skip_word_bounds(2) [of t b] by simp
qed

lemma words_skip_ws: "words (drop (skip_ws b s) b) = words (drop s b)"
proof -
  have "dropWhile is_ws (drop (skip_ws b s) b) = dropWhile is_ws (drop s b)" by (simp add: drop_skip_ws)
  then show ?thesis by (simp add: words.simps [of "drop (skip_ws b s) b"] words.simps [of "drop s b"])
qed

lemma parseredirs_plain: "plain_line b \<Longrightarrow> parseredirs (Suc n) b c s = PRet c (skip_ws b s)"
  by (simp add: peek_plain symbols_def)

lemma parseargs_plain:
  assumes "plain_line b" and "s \<le> length b" and "length as < MAXARGS" and "length (words (drop s b)) < n"
  shows "if length as + length (words (drop s b)) < MAXARGS
    then \<exists>ss. parseargs n b (length as) (EXEC as) s = PRet (EXEC (as @ ss)) (length b) \<and>
      map (\<lambda>(q, e). take (e - q) (drop q b)) ss = words (drop s b)
    else parseargs n b (length as) (EXEC as) s = PPanic [''too many args'']"
  using assms(2-4)
proof (induction n arbitrary: as s)
  case (Suc n)
  define t where "t = skip_ws b s"
  have pk: "peek b s ''|)&;'' = (False, t)" using peek_plain [OF assms(1), of "''|)&;''"] by (simp add: t_def symbols_def)
  note g = gettoken_plain [OF assms(1) Suc.prems(1) t_def]
  show ?case
  proof (cases "t = length b")
    case True
    then have "gettoken b t = (NUL, t, t, t)" "words (drop s b) = []" using g by auto
    then show ?thesis using True pk Suc.prems(2) by simp
  next
    case False
    let ?e = "skip_word b t"
    let ?a = "(t, ?e)" and ?s = "skip_ws b ?e"
    have g': "gettoken b t = (CHR ''a'', t, ?e, ?s)" "?e \<le> length b"
      "words (drop s b) = take (?e - t) (drop t b) # words (drop ?s b)"
      using g False by (simp_all add: words_skip_ws)
    obtain k where k: "n = Suc k" using Suc.prems(3) g'(3) by (cases n) auto
    have run: "parseargs (Suc n) b (length as) (EXEC as) s =
        (if Suc (length as) \<ge> MAXARGS then PPanic [''too many args''] else parseargs n b (length (as @ [?a])) (EXEC (as @ [?a])) ?s)"
      using parseredirs_plain [OF assms(1), of k "EXEC (as @ [?a])" ?s] skip_ws_idem [of b ?e]
      by (simp add: pk g'(1) NUL_def k del: parseredirs.simps)
    show ?thesis
    proof (cases "Suc (length as) < MAXARGS")
      case True
      have "?s \<le> length b" using g'(2) skip_ws_bounds by blast
      from Suc.IH [OF this, of "as @ [?a]"] True Suc.prems(3) g'(3)
      show ?thesis unfolding run using True by (auto simp: not_le split: if_splits)
    qed (use run g'(3) in auto)
  qed
qed simp

lemma parseline_plain:
  assumes "plain_line b" and "length (words b) + 2 < n"
  shows "if length (words b) < MAXARGS
    then \<exists>ss. parseline n b 0 = PRet (EXEC ss) (length b) \<and> map (\<lambda>(q, e). take (e - q) (drop q b)) ss = words b
    else parseline n b 0 = PPanic [''too many args'']"
proof -
  obtain k where k: "n = Suc (Suc (Suc k))" "length (words b) < Suc k"
    using assms(2) by (intro that [of "n - 3"]) auto
  let ?s = "skip_ws b 0"
  have p: "peek b 0 ''('' = (False, ?s)" using peek_plain [OF assms(1), of "''(''"] by (simp add: symbols_def)
  have ex: "parseexec (Suc k) pl b 0 = parseargs (Suc k) b 0 (EXEC []) ?s" for pl
    using parseredirs_plain [OF assms(1), of k execcmd ?s] by (simp add: parseexec_def p execcmd_def skip_ws_idem del: parseredirs.simps)
  have "?s \<le> length b" "words (drop ?s b) = words b"
    using skip_ws_bounds(2) [of 0 b] words_skip_ws [of b 0] by simp_all
  with parseargs_plain [OF assms(1), of ?s "[]" "Suc k"] k(2) show ?thesis
    by (auto simp: k(1) ex peek_end MAXARGS_def split: if_splits)
qed

lemma words_length: "length (words b) \<le> length b"
proof (induction b rule: words.induct)
  case (1 b)
  show ?case
  proof (cases "dropWhile is_ws b")
    case (Cons c cs)
    have "length (c # cs) \<le> length b" using Cons by (metis length_dropWhile_le)
    moreover have "length (dropWhile (\<lambda>d. \<not> is_ws d) cs) \<le> length cs" by (rule length_dropWhile_le)
    ultimately show ?thesis using "1.IH" [OF Cons] Cons by (subst words.simps) simp
  next
    case Nil
    then show ?thesis by (subst words.simps) (simp only: list.case list.size)
  qed
qed

section \<open>Running never returns\<close>

definition never_returns :: "'a uprog \<Rightarrow> bool" where
  "never_returns p \<longleftrightarrow> (\<forall>rs x rs'. snd (p rs) \<noteq> UDone x rs')"

lemma never_returns_exit: "never_returns uexit"
  by (simp add: never_returns_def uexit_def)

lemma never_returns_bind: "(\<And>x. never_returns (f x)) \<Longrightarrow> never_returns (ubind m f)"
  by (auto simp: never_returns_def ubind_def split: prod.splits ures.splits) (metis snd_conv)

lemma never_returns_panic: "never_returns (panic t)"
  unfolding panic_def by (intro never_returns_bind never_returns_exit)

lemma never_returns_runcmd: "never_returns (runcmd m c)"
  by (induction m c rule: runcmd.induct)
    (auto intro!: never_returns_bind never_returns_exit never_returns_panic split: list.split uresp.split)

section \<open>Properties\<close>

text \<open>C15. The parser always ends: on every command line, parentheses and redirections in any order included,
  the recursion and all its loops stop within the fuel, with a command or a panic message.\<close>

theorem parsecmd_terminates: "parsecmd b \<noteq> PFuel"
proof -
  have "parses b 0 (wf_cmd b) (parseline (length b + 3) b 0)" by (rule parseline_ok) auto
  then show ?thesis by (cases "parseline (length b + 3) b 0") (auto simp: parsecmd_def parses_def split: prod.split)
qed

text \<open>C16. Every word of a parsed command is right after \<open>nulterminate\<close>: no command has \<open>MAXARGS\<close> or more
  arguments, every argument and file name is a maximal run of word characters of the line, and the
  C string found at its start is exactly that run: no NUL stored for one word damages another.\<close>

theorem parsecmd_words:
  assumes "parsecmd b = PRet (c, m) s" and "NUL \<notin> set b"
  shows "wf_cmd b c \<and> (\<forall>(q, e) \<in> words_of c. str_at m q = take (e - q) (drop q b))"
proof -
  have p: "parses b 0 (wf_cmd b) (parseline (length b + 3) b 0)" by (rule parseline_ok) auto
  obtain c' s' where r: "parseline (length b + 3) b 0 = PRet c' s'"
    using assms(1) by (cases "parseline (length b + 3) b 0") (auto simp: parsecmd_def)
  have e: "c' = c" "m = nulterminate c (b @ [NUL])"
    using assms(1) r by (auto simp: parsecmd_def split: prod.splits if_splits)
  have "wf_cmd b c" using p r e(1) by (simp add: parses_def)
  then show ?thesis using nulterminate_word assms(2) unfolding e(2) by blast
qed

lemma redirection_example:
  "parsecmd ''cat<a>b'' =
     PRet (REDIR (REDIR (EXEC [(0, 3)]) 4 5 0 0) 6 7 0x201 1, ''cat'' @ [NUL] @ ''a'' @ [NUL] @ ''b'' @ [NUL]) 7"
  by code_simp

theorem parsecmd_words_witness:
  "str_at (''cat'' @ [NUL] @ ''a'' @ [NUL] @ ''b'' @ [NUL]) 6 = ''b''"
  using parsecmd_words [OF redirection_example] by (simp add: NUL_def)

text \<open>C26. A simple command is split into its words. For every line without the characters
  \<open>< | > & ; ( )\<close>, with any white space before, between and after its words: up to nine words
  give an \<open>EXEC\<close> whose argument strings, as \<open>runcmd\<close> passes them to \<open>exec\<close>, are exactly the words
  of the line in order; more words give the panic \<open>too many args\<close>.\<close>

theorem simple_command:
  assumes "plain_line b"
  shows "if length (words b) < MAXARGS
    then \<exists>as m. parsecmd b = PRet (EXEC as, m) (length b) \<and> map (\<lambda>a. str_at m (fst a)) as = words b
    else parsecmd b = PPanic [''too many args'']"
proof (cases "length (words b) < MAXARGS")
  case True
  have n: "length (words b) + 2 < length b + 3" using words_length [of b] by simp
  obtain as where as: "parseline (length b + 3) b 0 = PRet (EXEC as) (length b)"
      "map (\<lambda>(q, e). take (e - q) (drop q b)) as = words b"
    using parseline_plain [OF assms n] True by auto
  let ?m = "nulterminate (EXEC as) (b @ [NUL])"
  have "parses b 0 (wf_cmd b) (PRet (EXEC as) (length b))" unfolding as(1) [symmetric] by (rule parseline_ok) auto
  then have "wf_cmd b (EXEC as)" by (simp add: parses_def)
  moreover have "NUL \<notin> set b" using assms by (auto simp: plain_line_def)
  ultimately have "str_at ?m (fst a) = (\<lambda>(q, e). take (e - q) (drop q b)) a" if "a \<in> set as" for a
    using nulterminate_word [of b "EXEC as" "fst a" "snd a"] that by (simp add: case_prod_beta)
  then have "map (\<lambda>a. str_at ?m (fst a)) as = words b" unfolding as(2) [symmetric] by simp
  moreover have "parsecmd b = PRet (EXEC as, ?m) (length b)" using as(1) by (simp add: parsecmd_def peek_end)
  ultimately show ?thesis using True by auto
next
  case False
  have n: "length (words b) + 2 < length b + 3" using words_length [of b] by simp
  show ?thesis using parseline_plain [OF assms n] False by (simp add: parsecmd_def)
qed

theorem simple_command_witness:
  "\<exists>as m s. parsecmd (''ls   -l'' @ NL) = PRet (EXEC as, m) s \<and> map (\<lambda>a. str_at m (fst a)) as = [''ls'', ''-l'']"
proof -
  have w: "words (''ls   -l'' @ NL) = [''ls'', ''-l'']" by code_simp
  have "plain_line (''ls   -l'' @ NL)" by code_simp
  from simple_command [OF this] show ?thesis unfolding w by (auto simp: MAXARGS_def)
qed

end
