(* ===== verification/Linkedlist.thy ===== *)
theory Linkedlist
  imports Main "HOL-Library.Multiset" "HOL-Library.Word"
begin

text \<open>
  \<open>src/HW2/linkedList.c\<close>: building and merging singly linked lists on the heap of a C program.
  A node lives at an address; address 0 is \<open>NULL\<close>. Following a \<open>NULL\<close> or dangling
  pointer crashes the program, and a walk along a cyclic list never returns: both are the
  value \<open>None\<close>. \<open>malloc\<close> hands out fresh addresses until the memory \<open>limit\<close> is reached and then
  returns \<open>NULL\<close>, which the code does not test. A C \<open>int\<close> is a 32-bit word read as a signed number.
\<close>

section \<open>Heap\<close>

record node =
  n_data :: "32 word"
  n_next :: nat

record heap =
  cells :: "nat \<Rightarrow> node option"
  brk :: nat
  limit :: nat

definition malloc_node :: "heap \<Rightarrow> nat \<times> heap" where
  "malloc_node h =
     (if brk h < limit h
      then (Suc (brk h), h\<lparr>brk := Suc (brk h), cells := (cells h)(Suc (brk h) := Some \<lparr>n_data = 0, n_next = 0\<rparr>)\<rparr>)
      else (0, h))"

definition load :: "heap \<Rightarrow> nat \<Rightarrow> node option" where
  "load h p = (if p = 0 then None else cells h p)"

definition store :: "nat \<Rightarrow> node \<Rightarrow> heap \<Rightarrow> heap option" where
  "store p x h = (case load h p of None \<Rightarrow> None | Some _ \<Rightarrow> Some (h\<lparr>cells := (cells h)(p := Some x)\<rparr>))"

section \<open>The program\<close>

text \<open>The walk \<open>while (tail->next != NULL) tail = tail->next;\<close>.\<close>

partial_function (option) last_node :: "heap \<Rightarrow> nat \<Rightarrow> nat option" where
  "last_node h p =
     Option.bind (load h p) (\<lambda>x. if n_next x = 0 then Some p else last_node h (n_next x))"

definition listInsertTail :: "nat \<Rightarrow> 32 word \<Rightarrow> heap \<Rightarrow> (nat \<times> heap) option" where
  "listInsertTail head data h =
     (let (new, h) = malloc_node h in
      if head = 0 then Option.bind (store new \<lparr>n_data = data, n_next = 0\<rparr> h) (\<lambda>h. Some (new, h))
      else
        Option.bind (last_node h head) (\<lambda>tail.
        Option.bind (store new \<lparr>n_data = data, n_next = 0\<rparr> h) (\<lambda>h.
        Option.bind (load h tail) (\<lambda>x.
        Option.bind (store tail (x\<lparr>n_next := new\<rparr>) h) (\<lambda>h. Some (head, h))))))"

text \<open>The loop of \<open>mergeLists\<close>.\<close>

partial_function (option) merge_loop :: "nat \<Rightarrow> nat \<Rightarrow> nat \<Rightarrow> heap \<Rightarrow> (nat \<times> heap) option" where
  "merge_loop merged l1 l2 h =
     (if l1 \<noteq> 0 \<and> l2 \<noteq> 0 then
        Option.bind (load h l1) (\<lambda>x.
        Option.bind (load h l2) (\<lambda>y.
          if sint (n_data x) \<le> sint (n_data y) then
            Option.bind (listInsertTail merged (n_data x) h) (\<lambda>(m, h).
            Option.bind (load h l1) (\<lambda>x. merge_loop m (n_next x) l2 h))
          else
            Option.bind (listInsertTail merged (n_data y) h) (\<lambda>(m, h).
            Option.bind (load h l2) (\<lambda>y. merge_loop m l1 (n_next y) h))))
      else if l1 = 0 \<and> l2 \<noteq> 0 then
        Option.bind (load h l2) (\<lambda>y.
        Option.bind (listInsertTail merged (n_data y) h) (\<lambda>(m, h).
        Option.bind (load h l2) (\<lambda>y. merge_loop m l1 (n_next y) h)))
      else if l2 = 0 \<and> l1 \<noteq> 0 then
        Option.bind (load h l1) (\<lambda>x.
        Option.bind (listInsertTail merged (n_data x) h) (\<lambda>(m, h).
        Option.bind (load h l1) (\<lambda>x. merge_loop m (n_next x) l2 h)))
      else Some (merged, h))"

definition mergeLists :: "nat \<Rightarrow> nat \<Rightarrow> heap \<Rightarrow> (nat \<times> heap) option" where
  "mergeLists l1 l2 h =
     (if l1 = 0 \<and> l2 = 0 then Some (0, h)
      else if l1 = 0 then Some (l2, h)
      else if l2 = 0 then Some (l1, h)
      else merge_loop 0 l1 l2 h)"

text \<open>The decimal digits \<open>printf\<close> prints for \<open>%d\<close>.\<close>

fun decimal_nat :: "nat \<Rightarrow> string" where
  "decimal_nat n = (if n < 10 then [char_of (48 + n)] else decimal_nat (n div 10) @ [char_of (48 + n mod 10)])"

definition decimal :: "int \<Rightarrow> string" where
  "decimal i = (if i < 0 then CHR ''-'' # decimal_nat (nat (- i)) else decimal_nat (nat i))"

declare decimal_nat.simps [simp del]

partial_function (option) print_loop :: "heap \<Rightarrow> nat \<Rightarrow> string \<Rightarrow> string option" where
  "print_loop h p acc =
     Option.bind (load h p) (\<lambda>x.
       if n_next x \<noteq> 0 then print_loop h (n_next x) (acc @ decimal (sint (n_data x)) @ ''->'')
       else Some (acc @ decimal (sint (n_data x)) @ '' '' @ [CHR 0x0A]))"

definition printList :: "heap \<Rightarrow> nat \<Rightarrow> string option" where
  "printList h head = (if head = 0 then Some [] else print_loop h head [])"

text \<open>
  \<open>atoi\<close> of the C library: white space, a sign, digits up to the first other character. The C
  standard leaves the result open when the number is not representable as an \<open>int\<close>; the
  property below is about representable ones.
\<close>

definition is_digit :: "char \<Rightarrow> bool" where "is_digit c \<longleftrightarrow> 48 \<le> (of_char c :: nat) \<and> (of_char c :: nat) \<le> 57"

definition is_space :: "char \<Rightarrow> bool" where
  "is_space c \<longleftrightarrow> c = CHR '' '' \<or> 9 \<le> (of_char c :: nat) \<and> (of_char c :: nat) \<le> 13"

definition digits_value :: "string \<Rightarrow> int" where
  "digits_value s = foldl (\<lambda>n c. 10 * n + (of_char c - 48)) 0 (takeWhile is_digit s)"

definition atoi_value :: "string \<Rightarrow> int" where
  "atoi_value s =
     (case dropWhile is_space s of
        [] \<Rightarrow> 0
      | c # cs \<Rightarrow> if c = CHR ''-'' then - digits_value cs else if c = CHR ''+'' then digits_value cs else digits_value (c # cs))"

definition c_atoi :: "string \<Rightarrow> 32 word" where
  "c_atoi s = word_of_int (atoi_value s)"

definition int_range :: "int \<Rightarrow> bool" where
  "int_range i \<longleftrightarrow> - (2 ^ 31) \<le> i \<and> i < 2 ^ 31"

lemma sint_c_atoi: "int_range (atoi_value s) \<Longrightarrow> sint (c_atoi s) = atoi_value s"
  by (simp add: c_atoi_def int_range_def signed_of_int signed_take_bit_int_eq_self)

text \<open>The two loops of \<open>main\<close> over the arguments; the first ends at the comma.\<close>

fun read_list1 :: "string list \<Rightarrow> nat \<Rightarrow> heap \<Rightarrow> ((nat \<times> string list) option \<times> heap) option" where
  "read_list1 [] l h = Some (None, h)"
| "read_list1 (a # args) l h =
     (if a = '','' then Some (Some (l, args), h)
      else Option.bind (listInsertTail l (c_atoi a) h) (\<lambda>(l, h). read_list1 args l h))"

fun read_list2 :: "string list \<Rightarrow> nat \<Rightarrow> heap \<Rightarrow> (nat \<times> heap) option" where
  "read_list2 [] l h = Some (l, h)"
| "read_list2 (a # args) l h = Option.bind (listInsertTail l (c_atoi a) h) (\<lambda>(l, h). read_list2 args l h)"

definition errorMsg :: string where
  "errorMsg = ''Pass in arguments in the format: <list 1 ints seperated by spaces> , <list 2 ints seperated by spaces>'' @ [CHR 0x0A]"

text \<open>\<open>main\<close> on the arguments after the program name: its exit status and what it prints.\<close>

definition linkedlist_main :: "string list \<Rightarrow> heap \<Rightarrow> (int \<times> string) option" where
  "linkedlist_main args h =
     (if args = [] then Some (1, errorMsg)
      else
        Option.bind (read_list1 args 0 h) (\<lambda>(r, h).
          case r of
            None \<Rightarrow> Some (1, errorMsg)
          | Some (l1, rest) \<Rightarrow>
              Option.bind (read_list2 rest 0 h) (\<lambda>(l2, h).
              Option.bind (mergeLists l1 l2 h) (\<lambda>(l3, h).
              Option.bind (printList h l2) (\<lambda>o2.
              Option.bind (printList h l1) (\<lambda>o1.
              Option.bind (printList h l3) (\<lambda>o3. Some (0, o2 @ o1 @ o3))))))))"

section \<open>Lists on the heap\<close>

text \<open>The addresses of the nodes of a list, and the values in them.\<close>

primrec chain :: "heap \<Rightarrow> nat \<Rightarrow> nat list \<Rightarrow> bool" where
  "chain h p [] \<longleftrightarrow> p = 0"
| "chain h p (a # as) \<longleftrightarrow> p = a \<and> a \<noteq> 0 \<and> (\<exists>x. cells h a = Some x \<and> chain h (n_next x) as)"

definition vals :: "heap \<Rightarrow> nat list \<Rightarrow> int list" where
  "vals h as = map (\<lambda>a. sint (n_data (the (cells h a)))) as"

definition heap_ok :: "heap \<Rightarrow> bool" where
  "heap_ok h \<longleftrightarrow> (\<forall>a. cells h a \<noteq> None \<longrightarrow> a \<noteq> 0 \<and> a \<le> brk h)"

lemma chain_mem: "chain h p as \<Longrightarrow> a \<in> set as \<Longrightarrow> a \<noteq> 0 \<and> cells h a \<noteq> None"
  by (induction as arbitrary: p) auto

lemma chain_cong: "chain h p as \<Longrightarrow> (\<And>a. a \<in> set as \<Longrightarrow> cells h' a = cells h a) \<Longrightarrow> chain h' p as"
  by (induction as arbitrary: p) auto

lemma vals_simps [simp]: "vals h [] = []" "vals h (a # as) = sint (n_data (the (cells h a))) # vals h as"
  by (simp_all add: vals_def)

lemma vals_cong: "(\<And>a. a \<in> set as \<Longrightarrow> cells h' a = cells h a) \<Longrightarrow> vals h' as = vals h as"
  by (simp add: vals_def)

lemma chain_unique: "chain h p as \<Longrightarrow> chain h p bs \<Longrightarrow> as = bs"
proof (induction as arbitrary: p bs)
  case Nil
  then show ?case by (cases bs) auto
next
  case (Cons a as)
  then show ?case by (cases bs) auto
qed

lemma chain_append: "chain h p (as @ b # bs) \<Longrightarrow> chain h b (b # bs)"
  by (induction as arbitrary: p) auto

lemma chain_distinct: "chain h p as \<Longrightarrow> distinct as"
proof (induction as arbitrary: p)
  case (Cons a as)
  then obtain x where x: "cells h a = Some x" "chain h (n_next x) as" by auto
  have "a \<notin> set as"
  proof
    assume "a \<in> set as"
    then obtain us vs where as: "as = us @ a # vs" by (meson split_list)
    have "chain h a (a # vs)" using x(2) unfolding as by (rule chain_append)
    moreover have "chain h a (a # as)" using Cons.prems by auto
    ultimately have "a # vs = a # as" by (rule chain_unique)
    then show False using as by simp
  qed
  with Cons.IH [OF x(2)] show ?case by simp
qed simp

text \<open>The walk to the end of a list returns.\<close>

lemma last_node_chain: "chain h p as \<Longrightarrow> as \<noteq> [] \<Longrightarrow> last_node h p = Some (last as)"
proof (induction as arbitrary: p)
  case (Cons a as)
  then obtain x where x: "p = a" "a \<noteq> 0" "cells h a = Some x" "chain h (n_next x) as" by auto
  show ?case
  proof (cases as)
    case Nil
    with x show ?thesis by (subst last_node.simps) (simp add: load_def)
  next
    case (Cons b bs)
    with x have "n_next x \<noteq> 0" by auto
    with x Cons Cons.IH [OF x(4)] show ?thesis by (subst last_node.simps) (simp add: load_def)
  qed
qed simp

text \<open>Appending a node redirects the last node and touches nothing else.\<close>

lemma chain_snoc:
  assumes "chain h p as" and "as \<noteq> []" and "cells h' (last as) = Some (x\<lparr>n_next := q\<rparr>)"
    and "\<And>a. a \<in> set (butlast as) \<Longrightarrow> cells h' a = cells h a" and "q \<noteq> 0" and "cells h' q = Some y" and "n_next y = 0"
  shows "chain h' p (as @ [q])"
  using assms
proof (induction as arbitrary: p)
  case (Cons a as)
  then show ?case by (cases as) auto
qed simp

lemma insert_ok:
  assumes "chain h p as" and "heap_ok h" and "brk h < limit h"
  obtains r h' where "listInsertTail p d h = Some (r, h')" "chain h' r (as @ [Suc (brk h)])"
    "vals h' (as @ [Suc (brk h)]) = vals h as @ [sint d]" "heap_ok h'" "brk h' = Suc (brk h)" "limit h' = limit h"
    "\<forall>a. a \<noteq> Suc (brk h) \<longrightarrow> a \<notin> set as \<longrightarrow> cells h' a = cells h a"
proof (cases "as = []")
  case True
  let ?q = "Suc (brk h)" and ?x = "\<lparr>n_data = d, n_next = 0\<rparr>"
  have "listInsertTail p d h = Some (?q, h\<lparr>brk := ?q, cells := (cells h)(?q := Some ?x)\<rparr>)"
    using assms True by (simp add: listInsertTail_def malloc_node_def store_def load_def)
  then show ?thesis
    by (rule that) (use assms(2) True in \<open>auto simp: vals_def heap_ok_def le_Suc_eq\<close>)
next
  case False
  let ?q = "Suc (brk h)" and ?x = "\<lparr>n_data = d, n_next = 0\<rparr>" and ?l = "last as"
  define m where "m = snd (malloc_node h)"
  have mm: "malloc_node h = (?q, m)" "cells m = (cells h)(?q := Some \<lparr>n_data = 0, n_next = 0\<rparr>)" "brk m = ?q" "limit m = limit h"
    using assms(3) by (simp_all add: m_def malloc_node_def)
  have old: "a \<noteq> ?q" if "a \<in> set as" for a using chain_mem [OF assms(1) that] assms(2) by (force simp: heap_ok_def)
  have lm: "?l \<in> set as" using False by simp
  have ql: "?q \<noteq> ?l" using old [OF lm] by simp
  obtain y where y: "cells h ?l = Some y" "?l \<noteq> 0" using chain_mem [OF assms(1) lm] by blast
  have p0: "p \<noteq> 0" using assms(1) False by (cases as) auto
  have "chain m p as" by (rule chain_cong [OF assms(1)]) (use old mm(2) in simp)
  then have w: "last_node m p = Some ?l" using False by (rule last_node_chain)
  define h' where "h' = m\<lparr>cells := (cells m)(?q := Some ?x, ?l := Some (y\<lparr>n_next := ?q\<rparr>))\<rparr>"
  have r: "listInsertTail p d h = Some (p, h')"
    using p0 w y old [OF lm] mm(2) by (simp add: listInsertTail_def mm(1) store_def load_def h'_def fun_upd_twist)
  have dl: "a \<noteq> ?l" if "a \<in> set (butlast as)" for a
    using that chain_distinct [OF assms(1)] False by (metis append_butlast_last_id distinct_append disjoint_iff list.set_intros(1))
  have c': "cells h' a = cells h a" if "a \<noteq> ?q" "a \<noteq> ?l" for a using that mm(2) by (simp add: h'_def)
  have ch: "chain h' p (as @ [?q])"
    by (rule chain_snoc [OF assms(1) False, where h' = h' and x = y and q = ?q and y = ?x])
      (use c' dl old ql in \<open>auto simp: h'_def dest: in_set_butlastD\<close>)
  have "n_data (the (cells h' a)) = n_data (the (cells h a))" if "a \<in> set as" for a
    using c' [of a] old [OF that] y by (cases "a = ?l") (auto simp: h'_def)
  then have v: "vals h' (as @ [?q]) = vals h as @ [sint d]" using old [OF lm] by (simp add: vals_def h'_def)
  have ok: "heap_ok h'" using assms(2) y lm old [OF lm] mm by (auto simp: heap_ok_def h'_def le_Suc_eq)
  have fr: "\<forall>a. a \<noteq> ?q \<longrightarrow> a \<notin> set as \<longrightarrow> cells h' a = cells h a" using c' lm by blast
  have bl: "brk h' = ?q" "limit h' = limit h" by (simp_all add: h'_def mm)
  show ?thesis by (rule that [OF r ch v ok bl fr])
qed

section \<open>Merging\<close>

text \<open>The reference: the ordered merge of two lists, taking from the first on a tie.\<close>

fun merge :: "int list \<Rightarrow> int list \<Rightarrow> int list" where
  "merge (x # xs) (y # ys) = (if x \<le> y then x # merge xs (y # ys) else y # merge (x # xs) ys)"
| "merge [] ys = ys"
| "merge xs [] = xs"

lemma merge_Nil [simp]: "merge xs [] = xs"
  by (cases xs) simp_all

lemma mset_merge: "mset (merge xs ys) = mset xs + mset ys"
  by (induction xs ys rule: merge.induct) auto

lemma set_merge: "set (merge xs ys) = set xs \<union> set ys"
  by (induction xs ys rule: merge.induct) auto

lemma sorted_merge: "sorted xs \<Longrightarrow> sorted ys \<Longrightarrow> sorted (merge xs ys)"
proof (induction xs ys rule: merge.induct)
  case (1 x xs y ys)
  then show ?case by (cases "x \<le> y") (auto simp: set_merge)
qed simp_all

text \<open>What a stretch of the program that only appends to the list \<open>ms\<close> leaves behind.\<close>

definition kept :: "nat list \<Rightarrow> heap \<Rightarrow> heap \<Rightarrow> bool" where
  "kept ms h h' \<longleftrightarrow> heap_ok h' \<and> limit h' = limit h \<and> brk h \<le> brk h' \<and> (\<forall>a. a \<le> brk h \<longrightarrow> a \<notin> set ms \<longrightarrow> cells h' a = cells h a)"

lemma kept_chain:
  assumes "kept ms h h'" and "chain h p as" and "heap_ok h" and "set ms \<inter> set as = {}"
  shows "chain h' p as" and "vals h' as = vals h as"
proof -
  have "cells h' a = cells h a" if "a \<in> set as" for a
  proof -
    have "a \<notin> set ms" "a \<le> brk h" using that assms(3,4) chain_mem [OF assms(2) that] by (auto simp: heap_ok_def)
    then show ?thesis using assms(1) by (simp add: kept_def)
  qed
  note c = this
  show "chain h' p as" by (rule chain_cong [OF assms(2) c])
  show "vals h' as = vals h as" by (rule vals_cong [OF c])
qed

lemma kept_trans:
  assumes "kept ms h h1" and "kept (ms @ [q]) h1 h2" and "brk h < q"
  shows "kept ms h h2"
proof -
  have "cells h2 a = cells h a" if "a \<le> brk h" "a \<notin> set ms" for a
  proof -
    have "a \<le> brk h1" "a \<notin> set (ms @ [q])" using assms(1,3) that by (simp_all add: kept_def)
    then have "cells h2 a = cells h1 a" using assms(2) by (simp add: kept_def)
    also have "\<dots> = cells h a" using assms(1) that by (simp add: kept_def)
    finally show ?thesis .
  qed
  then show ?thesis using assms(1,2) by (simp add: kept_def)
qed

lemma append_one:
  assumes "chain h m ms" and "heap_ok h" and "brk h < limit h"
  obtains r h' where "listInsertTail m d h = Some (r, h')" "chain h' r (ms @ [Suc (brk h)])"
    "vals h' (ms @ [Suc (brk h)]) = vals h ms @ [sint d]" "kept ms h h'" "brk h' = Suc (brk h)" "limit h' = limit h" "heap_ok h'"
proof -
  obtain r h' where r: "listInsertTail m d h = Some (r, h')" "chain h' r (ms @ [Suc (brk h)])"
    "vals h' (ms @ [Suc (brk h)]) = vals h ms @ [sint d]" "heap_ok h'" "brk h' = Suc (brk h)" "limit h' = limit h"
    "\<forall>a. a \<noteq> Suc (brk h) \<longrightarrow> a \<notin> set ms \<longrightarrow> cells h' a = cells h a"
    by (rule insert_ok [OF assms, of d])
  have k: "kept ms h h'" unfolding kept_def using r(4-7) by simp
  show ?thesis by (rule that [OF r(1-3) k r(5,6,4)])
qed

lemma chain_below: "chain h p as \<Longrightarrow> heap_ok h \<Longrightarrow> Suc (brk h) \<notin> set as"
proof
  assume c: "chain h p as" "heap_ok h" "Suc (brk h) \<in> set as"
  have "Suc (brk h) \<le> brk h" using chain_mem [OF c(1,3)] c(2) unfolding heap_ok_def by blast
  then show False by simp
qed

lemma chain_hd: "chain h p as \<Longrightarrow> p \<noteq> 0 \<Longrightarrow> \<exists>x bs. as = p # bs \<and> cells h p = Some x \<and> load h p = Some x \<and> chain h (n_next x) bs"
  by (cases as) (auto simp: load_def)

text \<open>Taking the first node of one list: the state in which the loop goes on.\<close>

definition merging :: "nat list \<Rightarrow> nat list \<Rightarrow> nat list \<Rightarrow> nat \<Rightarrow> nat \<Rightarrow> nat \<Rightarrow> heap \<Rightarrow> bool" where
  "merging ms as bs m p q h \<longleftrightarrow> chain h m ms \<and> chain h p as \<and> chain h q bs \<and> heap_ok h \<and> set ms \<inter> set as = {} \<and>
     set ms \<inter> set bs = {} \<and> brk h + length as + length bs \<le> limit h"

lemma take_one:
  assumes "merging ms (a # as) bs m a q h" and "cells h a = Some x"
  obtains r h' where "listInsertTail m (n_data x) h = Some (r, h')" "load h' a = Some x"
    "merging (ms @ [Suc (brk h)]) as bs r (n_next x) q h'" "vals h' (ms @ [Suc (brk h)]) = vals h ms @ [sint (n_data x)]"
    "vals h' as = vals h as" "vals h' bs = vals h bs" "kept ms h h'"
proof -
  have c: "chain h m ms" "chain h a (a # as)" "chain h q bs" "heap_ok h" "set ms \<inter> set (a # as) = {}" "set ms \<inter> set bs = {}"
    "brk h < limit h" "brk h + Suc (length as) + length bs \<le> limit h"
    using assms(1) by (simp_all add: merging_def)
  obtain r h' where r: "listInsertTail m (n_data x) h = Some (r, h')" "chain h' r (ms @ [Suc (brk h)])"
    "vals h' (ms @ [Suc (brk h)]) = vals h ms @ [sint (n_data x)]" "kept ms h h'" "brk h' = Suc (brk h)" "limit h' = limit h" "heap_ok h'"
    by (rule append_one [OF c(1,4,7)])
  note k = kept_chain [OF r(4) c(2,4,5)] kept_chain [OF r(4) c(3,4,6)]
  have b: "Suc (brk h) \<notin> set (a # as)" "Suc (brk h) \<notin> set bs" by (rule chain_below [OF c(2,4)], rule chain_below [OF c(3,4)])
  have "cells h' a = cells h a" using r(4) c(2,4,5) by (auto simp: kept_def heap_ok_def)
  then have l: "load h' a = Some x" "chain h' (n_next x) as" using assms(2) c(2) k(1) by (auto simp: load_def)
  have mg: "merging (ms @ [Suc (brk h)]) as bs r (n_next x) q h'"
    unfolding merging_def using r(2,5-7) l(2) k(3) b c(5,6,8) by auto
  have va: "vals h' as = vals h as" using k(2) by simp
  show ?thesis by (rule that [OF r(1) l(1) mg r(3) va k(4) r(4)])
qed

lemma merging_sym: "merging ms as bs m p q h \<Longrightarrow> merging ms bs as m q p h"
  by (auto simp: merging_def)

lemma loop_left:
  assumes "merging ms as bs m p q h" and "p \<noteq> 0" and "q \<noteq> 0 \<longrightarrow> (\<exists>x y. cells h p = Some x \<and> cells h q = Some y \<and> sint (n_data x) \<le> sint (n_data y))"
  obtains r h1 as' and x :: node where "as = p # as'" "merge_loop m p q h = merge_loop r (n_next x) q h1" "merging (ms @ [Suc (brk h)]) as' bs r (n_next x) q h1"
    "vals h1 (ms @ [Suc (brk h)]) = vals h ms @ [sint (n_data x)]" "kept ms h h1"
    "merge (vals h as) (vals h bs) = sint (n_data x) # merge (vals h1 as') (vals h1 bs)"
proof -
  obtain x as' where x: "as = p # as'" "cells h p = Some x" "load h p = Some x"
    using chain_hd assms(1,2) unfolding merging_def by metis
  obtain r h1 where t: "listInsertTail m (n_data x) h = Some (r, h1)" "load h1 p = Some x"
    "merging (ms @ [Suc (brk h)]) as' bs r (n_next x) q h1" "vals h1 (ms @ [Suc (brk h)]) = vals h ms @ [sint (n_data x)]"
    "vals h1 as' = vals h as'" "vals h1 bs = vals h bs" "kept ms h h1"
    using take_one [of ms p as' bs m q h x] assms x by blast
  have e: "merge (vals h as) (vals h bs) = sint (n_data x) # merge (vals h1 as') (vals h1 bs) \<and> merge_loop m p q h = merge_loop r (n_next x) q h1"
  proof (cases "q = 0")
    case True
    then have "bs = []" using assms(1) by (cases bs) (auto simp: merging_def)
    then show ?thesis using assms(2) True x t by (subst (1) merge_loop.simps) simp
  next
    case False
    then obtain y bs' where "bs = q # bs'" "cells h q = Some y" "load h q = Some y"
      using chain_hd assms(1) unfolding merging_def by metis
    then show ?thesis using assms(2,3) False x t by (subst (1) merge_loop.simps) auto
  qed
  show ?thesis by (rule that [OF x(1) conjunct2 [OF e] t(3,4,7) conjunct1 [OF e]])
qed

lemma loop_right:
  assumes "merging ms as bs m p q h" and "q \<noteq> 0" and "p \<noteq> 0 \<longrightarrow> (\<exists>x y. cells h p = Some x \<and> cells h q = Some y \<and> sint (n_data y) < sint (n_data x))"
  obtains r h1 bs' and x :: node where "bs = q # bs'" "merge_loop m p q h = merge_loop r p (n_next x) h1" "merging (ms @ [Suc (brk h)]) as bs' r p (n_next x) h1"
    "vals h1 (ms @ [Suc (brk h)]) = vals h ms @ [sint (n_data x)]" "kept ms h h1"
    "merge (vals h as) (vals h bs) = sint (n_data x) # merge (vals h1 as) (vals h1 bs')"
proof -
  obtain x bs' where x: "bs = q # bs'" "cells h q = Some x" "load h q = Some x"
    using chain_hd assms(1,2) unfolding merging_def by metis
  obtain r h1 where t: "listInsertTail m (n_data x) h = Some (r, h1)" "load h1 q = Some x"
    "merging (ms @ [Suc (brk h)]) bs' as r (n_next x) p h1" "vals h1 (ms @ [Suc (brk h)]) = vals h ms @ [sint (n_data x)]"
    "vals h1 bs' = vals h bs'" "vals h1 as = vals h as" "kept ms h h1"
    using take_one [of ms q bs' as m p h x] merging_sym [OF assms(1)] x by blast
  have e: "merge (vals h as) (vals h bs) = sint (n_data x) # merge (vals h1 as) (vals h1 bs') \<and> merge_loop m p q h = merge_loop r p (n_next x) h1"
  proof (cases "p = 0")
    case True
    then have "as = []" using assms(1) by (cases as) (auto simp: merging_def)
    then show ?thesis using assms(2) True x t by (subst (1) merge_loop.simps) simp
  next
    case False
    then obtain y as' where "as = p # as'" "cells h p = Some y" "load h p = Some y"
      using chain_hd assms(1) unfolding merging_def by metis
    then show ?thesis using assms(2,3) False x t by (subst (1) merge_loop.simps) auto
  qed
  show ?thesis by (rule that [OF x(1) conjunct2 [OF e] merging_sym [OF t(3)] t(4,7) conjunct1 [OF e]])
qed

lemma merge_loop_ok:
  assumes "merging ms as bs m p q h"
  shows "\<exists>r h' ns. merge_loop m p q h = Some (r, h') \<and> chain h' r ns \<and> vals h' ns = vals h ms @ merge (vals h as) (vals h bs) \<and> kept ms h h'"
  using assms
proof (induction "length as + length bs" arbitrary: as bs ms m p q h)
  case 0
  then have "p = 0" "q = 0" "chain h m ms" "heap_ok h" by (auto simp: merging_def)
  moreover have "merge_loop m 0 0 h = Some (m, h)" by (subst merge_loop.simps) simp
  ultimately show ?case using 0 by (auto simp: vals_def kept_def)
next
  case (Suc n)
  have step: ?case if st: "merge_loop m p q h = merge_loop m' p' q' h1" "merging (ms @ [Suc (brk h)]) as' bs' m' p' q' h1"
      "vals h1 (ms @ [Suc (brk h)]) = vals h ms @ [d]" "kept ms h h1"
      "merge (vals h as) (vals h bs) = d # merge (vals h1 as') (vals h1 bs')" "n = length as' + length bs'" for m' p' q' h1 as' bs' d
  proof -
    obtain r h' ns where "merge_loop m' p' q' h1 = Some (r, h')" "chain h' r ns"
      "vals h' ns = vals h1 (ms @ [Suc (brk h)]) @ merge (vals h1 as') (vals h1 bs')" "kept (ms @ [Suc (brk h)]) h1 h'"
      using Suc.hyps(1) [OF st(6,2)] by blast
    moreover from this(4) have "kept ms h h'" by (rule kept_trans [OF st(4)]) simp
    ultimately show ?thesis using st(1,3,5) by auto
  qed
  consider (left) "p \<noteq> 0" "q \<noteq> 0 \<longrightarrow> (\<exists>x y. cells h p = Some x \<and> cells h q = Some y \<and> sint (n_data x) \<le> sint (n_data y))"
    | (right) "q \<noteq> 0" "p \<noteq> 0 \<longrightarrow> (\<exists>x y. cells h p = Some x \<and> cells h q = Some y \<and> sint (n_data y) < sint (n_data x))"
  proof (cases "p = 0 \<or> q = 0")
    case True
    have "\<not> (p = 0 \<and> q = 0)" using Suc by (cases as; cases bs) (auto simp: merging_def)
    with True show ?thesis using that by (cases "p = 0") simp_all
  next
    case False
    then obtain x y where "cells h p = Some x" "cells h q = Some y" using chain_hd Suc.prems unfolding merging_def by metis
    with False that show ?thesis by (cases "sint (n_data x) \<le> sint (n_data y)") auto
  qed
  then show ?case
  proof cases
    case left
    show ?thesis by (rule loop_left [OF Suc.prems left], rule step) (use Suc.hyps(2) in simp_all)
  next
    case right
    show ?thesis by (rule loop_right [OF Suc.prems right], rule step) (use Suc.hyps(2) in simp_all)
  qed
qed

section \<open>The whole program\<close>

definition shown :: "int list \<Rightarrow> string" where
  "shown xs = (if xs = [] then [] else concat (map (\<lambda>x. decimal x @ ''->'') (butlast xs)) @ decimal (last xs) @ '' '' @ [CHR 0x0A])"

lemma print_loop_ok: "chain h p as \<Longrightarrow> as \<noteq> [] \<Longrightarrow> print_loop h p acc = Some (acc @ shown (vals h as))"
proof (induction as arbitrary: p acc)
  case (Cons a as)
  then obtain x where x: "p = a" "a \<noteq> 0" "cells h a = Some x" "chain h (n_next x) as" by auto
  show ?case
  proof (cases as)
    case Nil
    with x show ?thesis by (subst print_loop.simps) (simp add: load_def shown_def)
  next
    case (Cons b bs)
    with x have "n_next x \<noteq> 0" by auto
    with x Cons Cons.IH [OF x(4), of "acc @ decimal (sint (n_data x)) @ ''->''"] show ?thesis
      by (subst print_loop.simps) (simp add: load_def shown_def)
  qed
qed simp

lemma printList_ok: "chain h p as \<Longrightarrow> printList h p = Some (shown (vals h as))"
proof (cases "as = []")
  case False
  assume c: "chain h p as"
  then have "p \<noteq> 0" using False by (cases as) auto
  then show ?thesis using print_loop_ok [OF c False, of "[]"] by (simp add: printList_def)
qed (simp add: printList_def shown_def)

lemma kept_refl: "heap_ok h \<Longrightarrow> kept ms h h"
  by (simp add: kept_def)

lemma read_list2_ok:
  "chain h l as \<Longrightarrow> heap_ok h \<Longrightarrow> brk h + length args \<le> limit h \<Longrightarrow>
   \<exists>l' h' bs. read_list2 args l h = Some (l', h') \<and> chain h' l' bs \<and> vals h' bs = vals h as @ map (\<lambda>a. sint (c_atoi a)) args \<and>
     kept as h h' \<and> brk h' = brk h + length args"
proof (induction args arbitrary: l h as)
  case Nil
  then show ?case by (auto simp: kept_refl)
next
  case (Cons a args)
  have lt: "brk h < limit h" using Cons.prems(3) by simp
  obtain r h1 where r: "listInsertTail l (c_atoi a) h = Some (r, h1)" "chain h1 r (as @ [Suc (brk h)])"
    "vals h1 (as @ [Suc (brk h)]) = vals h as @ [sint (c_atoi a)]" "kept as h h1" "brk h1 = Suc (brk h)" "limit h1 = limit h" "heap_ok h1"
    by (rule append_one [OF Cons.prems(1,2) lt])
  have "brk h1 + length args \<le> limit h1" using Cons.prems(3) r(5,6) by simp
  from Cons.IH [OF r(2,7) this] obtain l' h' bs where h': "read_list2 args r h1 = Some (l', h')" "chain h' l' bs"
    "vals h' bs = vals h1 (as @ [Suc (brk h)]) @ map (\<lambda>a. sint (c_atoi a)) args" "kept (as @ [Suc (brk h)]) h1 h'" "brk h' = brk h1 + length args"
    by blast
  have "kept as h h'" by (rule kept_trans [OF r(4) h'(4)]) simp
  with r(1,3,5) h' show ?case by auto
qed

lemma read_list1_is_list2:
  assumes "'','' \<notin> set args"
  shows "read_list1 (args @ '','' # rest) l h = map_option (\<lambda>(l, h). (Some (l, rest), h)) (read_list2 args l h)"
    and "read_list1 args l h = map_option (\<lambda>(l, h). (None, h)) (read_list2 args l h)"
  using assms
proof (induction args arbitrary: l h)
  case Nil
  { case 1 show ?case by simp }
  { case 2 show ?case by simp }
next
  case (Cons a args)
  { case 1 then show ?case using Cons.IH(1) by (cases "listInsertTail l (c_atoi a) h") auto }
  { case 2 then show ?case using Cons.IH(2) by (cases "listInsertTail l (c_atoi a) h") auto }
qed

lemma mergeLists_ok:
  assumes "chain h p as" and "chain h q bs" and "heap_ok h" and "brk h + length as + length bs \<le> limit h"
  obtains r h' ns where "mergeLists p q h = Some (r, h')" "chain h' r ns" "vals h' ns = merge (vals h as) (vals h bs)" "kept [] h h'"
proof (cases "p = 0 \<or> q = 0")
  case True
  then have "as = [] \<or> bs = []" using assms(1,2) by (cases as; cases bs) auto
  then show ?thesis
  proof
    assume "as = []"
    then show ?thesis using that [of q h bs] assms kept_refl by (simp add: mergeLists_def)
  next
    assume "bs = []"
    then show ?thesis using that [of p h as] assms kept_refl by (auto simp: mergeLists_def)
  qed
next
  case False
  have "merging [] as bs 0 p q h" using assms by (simp add: merging_def)
  from merge_loop_ok [OF this] False that show ?thesis by (auto simp: mergeLists_def)
qed

text \<open>C12. With memory for the nodes it makes, the program run on two comma-separated lists of arguments whose
  numbers fit a 32-bit \<open>int\<close>
  terminates without following a bad pointer and prints the second list, the first list and their
  ordered merge, with the two input lists unharmed by the merging; the merge has exactly the values of both and is sorted when
  both are. Without a comma it prints the usage message and fails.\<close>

theorem linkedlist_program:
  assumes "heap_ok h" and "brk h + 2 * (length as + length bs) \<le> limit h" and "'','' \<notin> set as"
    and "\<forall>a \<in> set as \<union> set bs. int_range (atoi_value a)" and "xs = map atoi_value as" and "ys = map atoi_value bs"
  shows "linkedlist_main (as @ '','' # bs) h = Some (0, shown ys @ shown xs @ shown (merge xs ys)) \<and>
    mset (merge xs ys) = mset xs + mset ys \<and> (sorted xs \<and> sorted ys \<longrightarrow> sorted (merge xs ys)) \<and>
    linkedlist_main as h = Some (1, errorMsg)"
proof -
  have z: "chain h 0 []" by simp
  have v: "map (\<lambda>a. sint (c_atoi a)) as = xs" "map (\<lambda>a. sint (c_atoi a)) bs = ys"
    using assms(4-6) sint_c_atoi by auto
  obtain l1 h1 cs where l1: "read_list2 as 0 h = Some (l1, h1)" "chain h1 l1 cs" "vals h1 cs = xs" "kept [] h h1" "brk h1 = brk h + length as"
    using read_list2_ok [OF z assms(1), of as] assms(2) v(1) by auto
  have ok1: "heap_ok h1" "limit h1 = limit h" using l1(4) by (simp_all add: kept_def)
  obtain l2 h2 ds where l2: "read_list2 bs 0 h1 = Some (l2, h2)" "chain h2 l2 ds" "vals h2 ds = ys" "kept [] h1 h2" "brk h2 = brk h1 + length bs"
    using read_list2_ok [of h1 0 "[]" bs] ok1 assms(2) v(2) l1(5) by auto
  have ok2: "heap_ok h2" "limit h2 = limit h" using l2(4) ok1 by (simp_all add: kept_def)
  have c: "chain h2 l1 cs" "vals h2 cs = xs" using kept_chain [OF l2(4) l1(2) ok1(1)] l1(3) by simp_all
  have len: "length cs = length as" "length ds = length bs" using c(2) l2(3) assms(5,6) by (auto simp: vals_def dest: map_eq_imp_length_eq)
  obtain l3 h3 ns where l3: "mergeLists l1 l2 h2 = Some (l3, h3)" "chain h3 l3 ns" "vals h3 ns = merge xs ys" "kept [] h2 h3"
    using mergeLists_ok [OF c(1) l2(2) ok2(1)] c(2) l2(3) assms(2) len l1(5) l2(5) ok2(2) by auto
  note k = kept_chain [OF l3(4) c(1) ok2(1)] kept_chain [OF l3(4) l2(2) ok2(1)]
  have p: "printList h3 l1 = Some (shown xs)" "printList h3 l2 = Some (shown ys)" "printList h3 l3 = Some (shown (merge xs ys))"
    using printList_ok [OF k(1)] printList_ok [OF k(3)] printList_ok [OF l3(2)] k(2,4) c(2) l2(3) l3(3) by simp_all
  have "linkedlist_main (as @ '','' # bs) h = Some (0, shown ys @ shown xs @ shown (merge xs ys))"
    using l1(1) l2(1) l3(1) p by (simp add: linkedlist_main_def read_list1_is_list2(1) [OF assms(3)])
  moreover have "linkedlist_main as h = Some (1, errorMsg)"
    using l1(1) by (simp add: linkedlist_main_def read_list1_is_list2(2) [OF assms(3)])
  ultimately show ?thesis using mset_merge sorted_merge by blast
qed

definition empty_heap :: "nat \<Rightarrow> heap" where
  "empty_heap n = \<lparr>cells = \<lambda>_. None, brk = 0, limit = n\<rparr>"

theorem linkedlist_program_witness:
  "linkedlist_main [''1'', ''5'', '','', ''-2'', ''3''] (empty_heap 8) =
     Some (0, ''-2->3 '' @ CHR 0x0A # ''1->5 '' @ CHR 0x0A # ''-2->1->3->5 '' @ [CHR 0x0A])"
proof -
  have h: "heap_ok (empty_heap 8)" by (simp add: heap_ok_def empty_heap_def)
  have v: "map atoi_value [''1'', ''5''] = [1, 5]" "map atoi_value [''-2'', ''3''] = [-2, 3]"
    by (simp_all add: atoi_value_def digits_value_def is_digit_def is_space_def)
  then have r: "\<forall>a \<in> set [''1'', ''5''] \<union> set [''-2'', ''3'']. int_range (atoi_value a)"
    by (simp add: int_range_def)
  have d: "decimal 1 = ''1''" "decimal 5 = ''5''" "decimal (-2) = ''-2''" "decimal 3 = ''3''"
    by code_simp+
  from linkedlist_program [OF h _ _ r v [symmetric]]
  show ?thesis by (simp add: empty_heap_def shown_def d)
qed

end
