(* ===== verification/Spec2Isabelle.thy ===== *)
theory Spec2Isabelle
  imports Xv6_Prelude Spinlock Kcore Sched Cstring Kalloc Vm Ring Pipe Ide Bio Ondisk Blockio Log Inode Icache Console Fs File Proc User Utils Grep Shell Linkedlist
begin

text \<open>
  Verification of the xv6 kernel and programs of \<open>src/HW3\<close>.
\<close>

end
